(* ===== verification/Garuda_Prelude.thy ===== *)
theory Garuda_Prelude
  imports Main "HOL-Library.Word" "HOL-Library.Multiset" "HOL-Library.Sublist"
begin

text \<open>
  Shared vocabulary of the development: the names of the machine types, the result type
  with which fallible Rust code is modelled, \<open>usize\<close> arithmetic with its wrap-around, and
  the lemmas on lists, shuffles and division that several components use.

  Integers of a fixed width are words. A \<open>usize\<close> is a natural number (it is compared with
  lengths of vectors everywhere), and the operations below wrap modulo \<open>2 ^ 64\<close>, as a
  release build for a 64-bit target does.
\<close>

section \<open>Machine types\<close>

type_synonym u8 = "8 word"
type_synonym u16 = "16 word"
type_synonym u32 = "32 word"
type_synonym u64 = "64 word"
type_synonym byte = "8 word"
type_synonym bytes = "8 word list"
type_synonym usize = nat

text \<open>
  \<open>garuda_simps\<close> collects the rewrite rules that evaluate the model's operations on
  normal forms; \<open>arith_facts\<close> collects the nonlinear facts on positions.
\<close>

named_theorems garuda_simps
named_theorems arith_facts

section \<open>Results\<close>

text \<open>
  \<open>Result<T, E>\<close> with the panics of Rust made explicit: \<open>Ok\<close> and \<open>Err\<close> are the
  constructors of the source, \<open>Panic\<close> is an unwinding thread.
\<close>

datatype ('e, 'a) outcome = Ok 'a | Err 'e | Panic

text \<open>A function that returns no \<open>Result\<close>: a value, or a panic.\<close>

type_synonym 'a or_panic = "(unit, 'a) outcome"

fun bind_outcome :: "('e, 'a) outcome \<Rightarrow> ('a \<Rightarrow> ('e, 'b) outcome) \<Rightarrow> ('e, 'b) outcome" where
  "bind_outcome (Ok a) f = f a"
| "bind_outcome (Err e) f = Err e"
| "bind_outcome Panic f = Panic"

fun bind_panic :: "'a or_panic \<Rightarrow> ('a \<Rightarrow> ('e, 'b) outcome) \<Rightarrow> ('e, 'b) outcome" where
  "bind_panic (Ok a) f = f a"
| "bind_panic _ f = Panic"

fun map_err :: "('e \<Rightarrow> 'f) \<Rightarrow> ('e, 'a) outcome \<Rightarrow> ('f, 'a) outcome" where
  "map_err f (Ok a) = Ok a"
| "map_err f (Err e) = Err (f e)"
| "map_err f Panic = Panic"

lemma bind_outcome_Ok_iff:
  "bind_outcome r f = Ok b \<longleftrightarrow> (\<exists>a. r = Ok a \<and> f a = Ok b)"
  by (cases r) auto

lemma map_err_Ok_iff [simp]: "map_err f r = Ok a \<longleftrightarrow> r = Ok a"
  by (cases r) auto

section \<open>The arithmetic of \<open>usize\<close>\<close>

definition usize_add :: "usize \<Rightarrow> usize \<Rightarrow> usize" where
  "usize_add a b = (a + b) mod 2 ^ 64"

definition usize_sub :: "usize \<Rightarrow> usize \<Rightarrow> usize" where
  "usize_sub a b = (a + (2 ^ 64 - b mod 2 ^ 64)) mod 2 ^ 64"

definition usize_mul :: "usize \<Rightarrow> usize \<Rightarrow> usize" where
  "usize_mul a b = (a * b) mod 2 ^ 64"

lemma usize_add_exact [garuda_simps]: "a + b < 2 ^ 64 \<Longrightarrow> usize_add a b = a + b"
  by (simp add: usize_add_def)

lemma usize_mul_exact [garuda_simps]: "a * b < 2 ^ 64 \<Longrightarrow> usize_mul a b = a * b"
  by (simp add: usize_mul_def)

text \<open>
  The same operations through integers and \<open>take_bit\<close>, which is how they are evaluated: the
  modulus is never computed as a natural number.
\<close>

lemma usize_add_code [code]: "usize_add a b = nat (take_bit 64 (int a + int b))"
  by (simp add: usize_add_def take_bit_eq_mod nat_mod_distrib flip: of_nat_add)

lemma usize_mul_code [code]: "usize_mul a b = nat (take_bit 64 (int a * int b))"
  by (simp add: usize_mul_def take_bit_eq_mod nat_mod_distrib nat_mult_distrib
      flip: of_nat_mult)

lemma usize_sub_code [code]: "usize_sub a b = nat (take_bit 64 (int a - int b))"
proof -
  have "b mod 2 ^ 64 \<le> 2 ^ 64" by simp
  then have "int (a + (2 ^ 64 - b mod 2 ^ 64)) = int a + (2 ^ 64 - int b mod 2 ^ 64)"
    by (simp add: zmod_int)
  then have "int (usize_sub a b) = (int a + (2 ^ 64 - int b mod 2 ^ 64)) mod 2 ^ 64"
    unfolding usize_sub_def by (metis of_nat_mod of_nat_numeral of_nat_power)
  also have "\<dots> = (int a - int b) mod 2 ^ 64"
    by (metis (no_types, opaque_lifting) add_diff_eq diff_add_eq mod_add_self2 mod_diff_right_eq)
  finally show ?thesis by (simp add: take_bit_eq_mod flip: nat_int)
qed

lemma usize_sub_exact [garuda_simps]:
  assumes "b \<le> a" "a < 2 ^ 64"
  shows "usize_sub a b = a - b"
  using assms by (simp add: usize_sub_code take_bit_int_eq_self flip: of_nat_diff)

lemma usize_sub_underflow:
  assumes "a < b" "b < 2 ^ 64"
  shows "usize_sub a b = 2 ^ 64 - (b - a)"
  using assms by (simp add: usize_sub_def)

lemma unat_of_nat_less: "n < 2 ^ LENGTH('a) \<Longrightarrow> unat (of_nat n :: 'a::len word) = n"
  by (simp add: unsigned_of_nat take_bit_nat_eq_self)

section \<open>Lists\<close>

text \<open>\<open>Vec::pop\<close>: the last element, if there is one, and the vector without it.\<close>

definition vec_pop :: "'a list \<Rightarrow> 'a option \<times> 'a list" where
  "vec_pop xs = (if xs = [] then (None, []) else (Some (last xs), butlast xs))"

lemma vec_pop_Nil [simp]: "vec_pop [] = (None, [])"
  by (simp add: vec_pop_def)

lemma vec_pop_snoc [simp]: "vec_pop (xs @ [x]) = (Some x, xs)"
  by (simp add: vec_pop_def)

lemma snoc_of_length: "length xs = Suc n \<Longrightarrow> \<exists>ys y. xs = ys @ [y] \<and> length ys = n"
  by (metis length_Suc_conv_rev)

text \<open>A prefix of the first part is a prefix of the whole.\<close>

lemma take_take_append: "\<exists>k. take n xs = take k (xs @ ys)"
  by (rule exI [of _ "min n (length xs)"]) (simp add: min_def)

end
