(* ===== verification/Raptorq.thy ===== *)
theory Raptorq
  imports Garuda_Prelude
begin

text \<open>
  The interface of the crate \<open>raptorq\<close>, which is not part of the repository. Its types are
  type variables and its operations the fields of a record that the model's definitions take
  as an argument. What the code relies on is named here as predicates on that record; each of
  them restates the documentation of the crate.

  The operations are total functions. In the crate some of them may panic, such as the generation
  of a plan for a number of symbols that is not supported, or the decoding of a packet that no
  encoder has made; such a panic would end the thread of the worker. The model leaves this out.
\<close>

section \<open>The operations\<close>

record ('oti, 'plan, 'enc, 'pkt, 'dec) raptorq =
  with_defaults :: "u64 \<Rightarrow> u16 \<Rightarrow> 'oti"
  symbol_size :: "'oti \<Rightarrow> u16"
  plan_generate :: "u16 \<Rightarrow> 'plan"
  with_encoding_plan :: "u8 \<Rightarrow> 'oti \<Rightarrow> bytes \<Rightarrow> 'plan \<Rightarrow> 'enc"
  source_packets :: "'enc \<Rightarrow> 'pkt list"
  repair_packets :: "'enc \<Rightarrow> u32 \<Rightarrow> u32 \<Rightarrow> 'pkt list"
  decoder_new :: "u8 \<Rightarrow> 'oti \<Rightarrow> u64 \<Rightarrow> 'dec"
  decoder_decode :: "'dec \<Rightarrow> 'pkt list \<Rightarrow> bytes option \<times> 'dec"
  source_block_number :: "'pkt \<Rightarrow> u8"
  pkt_serialize :: "'pkt \<Rightarrow> bytes"
  pkt_deserialize :: "bytes \<Rightarrow> 'pkt"

section \<open>What the code relies on\<close>

text \<open>
  The packets of a block: one source packet per symbol, as many repair packets as asked for,
  and all of them carry the number of the block.
\<close>

definition rq_packets :: "('oti, 'plan, 'enc, 'pkt, 'dec) raptorq \<Rightarrow> bool" where
  "rq_packets R \<longleftrightarrow>
     (\<forall>i cfg data plan start n.
        (0 < unat (symbol_size R cfg) \<longrightarrow> unat (symbol_size R cfg) dvd length data \<longrightarrow>
           length (source_packets R (with_encoding_plan R i cfg data plan)) =
             length data div unat (symbol_size R cfg)) \<and>
        length (repair_packets R (with_encoding_plan R i cfg data plan) start n) = unat n \<and>
        (\<forall>p \<in> set (source_packets R (with_encoding_plan R i cfg data plan)).
           source_block_number R p = i) \<and>
        (\<forall>p \<in> set (repair_packets R (with_encoding_plan R i cfg data plan) start n).
           source_block_number R p = i))"

text \<open>
  The wire format: packets survive serialisation, and every packet of a configuration has the
  same serialised size, the symbol and the payload id.
\<close>

definition rq_wire :: "('oti, 'plan, 'enc, 'pkt, 'dec) raptorq \<Rightarrow> bool" where
  "rq_wire R \<longleftrightarrow>
     (\<forall>p. pkt_deserialize R (pkt_serialize R p) = p) \<and>
     (\<forall>i cfg data plan start n.
        (\<forall>p \<in> set (source_packets R (with_encoding_plan R i cfg data plan)).
           length (pkt_serialize R p) = unat (symbol_size R cfg) + 4) \<and>
        (\<forall>p \<in> set (repair_packets R (with_encoding_plan R i cfg data plan) start n).
           length (pkt_serialize R p) = unat (symbol_size R cfg) + 4))"

text \<open>
  Feeding a decoder one packet at a time until it returns the block.
\<close>

fun rq_feed ::
  "('oti, 'plan, 'enc, 'pkt, 'dec) raptorq \<Rightarrow> 'dec \<Rightarrow> 'pkt list \<Rightarrow> bytes option" where
  "rq_feed R d [] = None"
| "rq_feed R d (p # ps) =
     (case decoder_decode R d [p] of
        (Some b, _) \<Rightarrow> Some b
      | (None, d') \<Rightarrow> rq_feed R d' ps)"

text \<open>
  Error correction never goes wrong: a fresh decoder fed with packets of one block, in any
  order and with any of them missing, returns that block or nothing. (Whether it returns the
  block depends on how many packets arrive; the theorems that need it say so.)
\<close>

definition rq_sound :: "('oti, 'plan, 'enc, 'pkt, 'dec) raptorq \<Rightarrow> bool" where
  "rq_sound R \<longleftrightarrow>
     (\<forall>i cfg data plan n ps b.
        length data < 2 ^ 64 \<longrightarrow>
        set ps \<subseteq> set (source_packets R (with_encoding_plan R i cfg data plan)) \<union>
                 set (repair_packets R (with_encoding_plan R i cfg data plan) 0 n) \<longrightarrow>
        rq_feed R (decoder_new R i cfg (of_nat (length data))) ps = Some b \<longrightarrow> b = data)"

text \<open>
  Nothing lost, nothing missing: a fresh decoder that is given every source packet of a block
  returns it, up to the number of source symbols per block that RFC 6330 allows.
\<close>

definition max_source_symbols :: nat where
  "max_source_symbols = 56403"

definition rq_complete :: "('oti, 'plan, 'enc, 'pkt, 'dec) raptorq \<Rightarrow> bool" where
  "rq_complete R \<longleftrightarrow>
     (\<forall>i cfg data plan n ps.
        data \<noteq> [] \<longrightarrow> length data < 2 ^ 64 \<longrightarrow> 0 < unat (symbol_size R cfg) \<longrightarrow>
        unat (symbol_size R cfg) dvd length data \<longrightarrow>
        length data div unat (symbol_size R cfg) \<le> max_source_symbols \<longrightarrow>
        set (source_packets R (with_encoding_plan R i cfg data plan)) \<subseteq> set ps \<longrightarrow>
        set ps \<subseteq> set (source_packets R (with_encoding_plan R i cfg data plan)) \<union>
                 set (repair_packets R (with_encoding_plan R i cfg data plan) 0 n) \<longrightarrow>
        rq_feed R (decoder_new R i cfg (of_nat (length data))) ps \<noteq> None)"

end
