(* ===== verification/Channel.thy ===== *)
theory Channel
  imports Garuda_Prelude
begin

text \<open>
  \<open>std::sync::mpsc\<close> as one thread sees it: the sending half of a channel whose receiver may
  be dropped at some point. (The interleaving of several threads is the subject of theory
  \<open>Pipeline\<close>.)
\<close>

section \<open>The sending half of a channel\<close>

text \<open>
  \<open>sent\<close> is what the receiver has been given; \<open>hangup\<close> says after how many messages the
  receiver is dropped, if ever, from when on \<open>send\<close> gives its argument back as an error.
\<close>

record 'a sender =
  sent :: "'a list"
  hangup :: "nat option"

definition closed :: "'a sender \<Rightarrow> bool" where
  "closed q \<longleftrightarrow> (case hangup q of None \<Rightarrow> False | Some n \<Rightarrow> n \<le> length (sent q))"

definition send :: "'a \<Rightarrow> 'a sender \<Rightarrow> ('a, 'a sender) outcome" where
  "send x q = (if closed q then Err x else Ok (q\<lparr>sent := sent q @ [x]\<rparr>))"

lemma send_open [simp]: "hangup q = None \<Longrightarrow> send x q = Ok (q\<lparr>sent := sent q @ [x]\<rparr>)"
  by (simp add: send_def closed_def)

text \<open>Sending: everything up to the hang-up of the receiver.\<close>

definition deliver :: "'a list \<Rightarrow> 'a sender \<Rightarrow> 'a sender" where
  "deliver xs q = q\<lparr>sent := (case hangup q of None \<Rightarrow> sent q @ xs
     | Some n \<Rightarrow> sent q @ take (n - length (sent q)) xs)\<rparr>"

definition first_refused :: "'a list \<Rightarrow> 'a sender \<Rightarrow> 'a option" where
  "first_refused xs q = (case hangup q of None \<Rightarrow> None
     | Some n \<Rightarrow> if length (sent q) + length xs \<le> n \<or> xs = [] then None else Some (xs ! (n - length (sent q))))"

lemma deliver_Nil [simp]: "deliver [] q = q"
  by (cases q) (simp add: deliver_def split: option.splits)

lemma send_deliver:
  "send x q = (case first_refused [x] q of None \<Rightarrow> Ok (deliver [x] q) | Some y \<Rightarrow> Err y)"
  by (auto simp: send_def closed_def first_refused_def deliver_def split: option.splits)

lemma deliver_Cons:
  "first_refused [x] q = None \<Longrightarrow> deliver xs (deliver [x] q) = deliver (x # xs) q"
  "first_refused [x] q = None \<Longrightarrow> first_refused xs (deliver [x] q) = first_refused (x # xs) q"
  "first_refused [x] q = Some y \<Longrightarrow> deliver (x # xs) q = q \<and> first_refused (x # xs) q = Some x \<and> y = x"
  by (auto simp: first_refused_def deliver_def take_Cons' nth_Cons' split: option.splits if_splits)

lemma deliver_append:
  "first_refused xs q = None \<Longrightarrow> deliver ys (deliver xs q) = deliver (xs @ ys) q"
  "first_refused xs q = None \<Longrightarrow> first_refused ys (deliver xs q) = first_refused (xs @ ys) q"
  "first_refused xs q = Some y \<Longrightarrow> deliver (xs @ ys) q = deliver xs q"
  "first_refused xs q = Some y \<Longrightarrow> first_refused (xs @ ys) q = Some y"
  by (auto simp: first_refused_def deliver_def nth_append neq_Nil_conv split: option.splits if_splits)

end
