(* ===== verification/Vector_Interleave.thy ===== *)
theory Vector_Interleave
  imports Garuda_Prelude
begin

text \<open>
  The model of \<open>garuda-codec-core/src/vector.rs\<close>: the iterator with which the block encoder
  mixes source and repair packets.
\<close>

section \<open>The iterator\<close>

text \<open>
  The position at which the next element of the shorter vector is due, counted as the
  closure counts it: \<open>total_len - (short_idx * total_len) / short_len - 1\<close>.
\<close>

definition interleave_target :: "usize \<Rightarrow> usize \<Rightarrow> usize \<Rightarrow> usize" where
  "interleave_target total_len short_len short_idx =
     usize_sub (usize_sub total_len (usize_mul short_idx total_len div short_len)) 1"

text \<open>
  The closure of \<open>filter_map\<close> over \<open>(0..total_len).rev()\<close>. The last argument counts the
  indices still to come, so the current one is its predecessor; the vectors \<open>long\<close> and
  \<open>short\<close> and the counter \<open>short_idx\<close> are the captured state. A \<open>pop\<close> on an empty vector
  gives \<open>None\<close>, which \<open>filter_map\<close> skips.
\<close>

fun interleave_from ::
  "usize \<Rightarrow> usize \<Rightarrow> usize \<Rightarrow> 'a list \<Rightarrow> 'a list \<Rightarrow> nat \<Rightarrow> 'a list" where
  "interleave_from total_len short_len short_idx long short 0 = []"
| "interleave_from total_len short_len short_idx long short (Suc idx) =
     (if short_idx < short_len \<and> idx = interleave_target total_len short_len short_idx
      then (case vec_pop short of
              (None, short') \<Rightarrow> interleave_from total_len short_len (Suc short_idx) long short' idx
            | (Some x, short') \<Rightarrow>
                x # interleave_from total_len short_len (Suc short_idx) long short' idx)
      else (case vec_pop long of
              (None, long') \<Rightarrow> interleave_from total_len short_len short_idx long' short idx
            | (Some x, long') \<Rightarrow>
                x # interleave_from total_len short_len short_idx long' short idx))"

definition interleave :: "'a list \<Rightarrow> 'a list \<Rightarrow> 'a list" where
  "interleave v1 v2 =
     (let (long, short) = (if length v2 \<le> length v1 then (v1, v2) else (v2, v1));
          total_len = usize_add (length long) (length short)
      in interleave_from total_len (length short) 0 long short total_len)"

section \<open>Positions\<close>

text \<open>
  Counted from the front of the output, the element number \<open>k\<close> of the shorter vector (from
  its end) is due at \<open>short_position\<close>. The lemmas below are the arithmetic of these
  positions: they increase, they stay below the total, and before each of them there are
  enough elements of the longer vector.
\<close>

definition short_position :: "usize \<Rightarrow> usize \<Rightarrow> nat \<Rightarrow> nat" where
  "short_position total_len short_len k = k * total_len div short_len"

lemma short_position_less [arith_facts]:
  assumes "k < s" "s \<le> T"
  shows "short_position T s k < T"
  using assms by (simp add: short_position_def div_less_iff_less_mult)

lemma short_position_Suc [arith_facts]:
  assumes "0 < s" "s \<le> T"
  shows "short_position T s k < short_position T s (Suc k)"
proof -
  have "k * T div s + 1 = (k * T + s) div s"
    using assms(1) by (simp add: div_add_self2)
  also have "\<dots> \<le> (T + k * T) div s" using assms by (simp add: div_le_mono)
  finally show ?thesis by (simp add: short_position_def)
qed

lemma short_position_mono [arith_facts]:
  assumes "0 < s" "s \<le> T" "j < k"
  shows "short_position T s j < short_position T s k"
  using assms(3) by (rule lift_Suc_mono_less [rotated]) (rule short_position_Suc [OF assms(1,2)])

lemma long_left_over [arith_facts]:
  assumes "k < s" "s \<le> T" "p < short_position T s k"
  shows "s + p < T + k"
proof -
  have bound: "Suc p * s \<le> k * T"
    using assms by (simp add: short_position_def Suc_le_eq less_eq_div_iff_mult_less_eq flip: Suc_le_eq)
  show ?thesis
  proof (rule ccontr)
    assume "\<not> s + p < T + k"
    then obtain d where d: "s + p = T + k + d" by (metis add.commute le_iff_add not_less)
    obtain l where l: "T = s + l" using assms le_iff_add by blast
    have "p = l + k + d" using d l by simp
    with bound l have "s + l * s + d * s \<le> k * l" by (simp add: algebra_simps)
    moreover have "k * l \<le> l * s" using assms(1) by (simp add: mult.commute)
    ultimately show False using assms(1) by linarith
  qed
qed

lemma short_position_gap [arith_facts]:
  assumes "0 < s"
  shows "short_position T s (Suc k) - short_position T s k \<in> {T div s, Suc (T div s)}"
proof -
  have "short_position T s (Suc k) =
      T div s + short_position T s k + (T mod s + k * T mod s) div s"
    unfolding short_position_def mult_Suc by (rule div_add1_eq)
  moreover have "(T mod s + k * T mod s) div s \<le> 1"
    using assms less_mult_imp_div_less [of "T mod s + k * T mod s" 2 s]
      mod_less_divisor [of s T] mod_less_divisor [of s "k * T"] by linarith
  ultimately show ?thesis by auto
qed

lemma interleave_target_exact [garuda_simps]:
  assumes "k < s" "s \<le> T" "s * T < 2 ^ 64"
  shows "interleave_target T s k = T - short_position T s k - 1"
proof -
  have "k * T < 2 ^ 64"
    using assms by (meson le_less_trans less_imp_le mult_le_mono1)
  moreover have "T < 2 ^ 64"
    using assms by (metis One_nat_def Suc_leI le_less_trans less_nat_zero_code mult.commute mult_le_mono2 nat_mult_1_right neq0_conv)
  moreover note short_position_less [OF assms(1,2)]
  ultimately show ?thesis
    by (simp add: interleave_target_def usize_mul_exact usize_sub_exact short_position_def)
qed
section \<open>The invariant of the iterator\<close>

text \<open>
  The invariant between two calls of the closure: \<open>j\<close> elements of the shorter vector have
  been given, \<open>r\<close> indices are left and as many elements are left, and the next element of
  the shorter vector is not overdue.
\<close>

definition interleave_inv ::
  "usize \<Rightarrow> usize \<Rightarrow> usize \<Rightarrow> 'a list \<Rightarrow> 'a list \<Rightarrow> nat \<Rightarrow> bool" where
  "interleave_inv T s j long short r \<longleftrightarrow>
     s \<le> T \<and> s * T < 2 ^ 64 \<and> r \<le> T \<and> j \<le> s \<and> length short = s - j \<and>
     length long + length short = r \<and> (j < s \<longrightarrow> T - r \<le> short_position T s j)"

lemma interleave_step_cases [consumes 1, case_names short long]:
  assumes inv: "interleave_inv T s j long short (Suc r)"
  obtains (short) short' x where
      "short = short' @ [x]" "j < s" "short_position T s j = T - Suc r"
      "interleave_inv T s (Suc j) long short' r"
      "interleave_from T s j long short (Suc r) = x # interleave_from T s (Suc j) long short' r"
  | (long) long' x where
      "long = long' @ [x]" "j < s \<longrightarrow> T - Suc r < short_position T s j"
      "interleave_inv T s j long' short r"
      "interleave_from T s j long short (Suc r) = x # interleave_from T s j long' short r"
proof (cases "j < s \<and> T - Suc r = short_position T s j")
  case True
  then have "length short = Suc (s - Suc j)" using inv by (auto simp: interleave_inv_def)
  then obtain short' x where split: "short = short' @ [x]" "length short' = s - Suc j"
    by (blast dest: snoc_of_length)
  have "r = interleave_target T s j"
    using True inv by (auto simp: interleave_target_exact interleave_inv_def)
  moreover have "short_position T s j < short_position T s (Suc j)"
    using True inv by (auto simp: interleave_inv_def intro: short_position_Suc)
  ultimately show ?thesis
    using True split inv by (intro short [of short' x]) (auto simp: interleave_inv_def)
next
  case False
  then have due: "j < s \<longrightarrow> T - Suc r < short_position T s j"
    using inv by (auto simp: interleave_inv_def)
  have "j < s \<longrightarrow> s + (T - Suc r) < T + j"
    using due inv long_left_over [of j s T "T - Suc r"] by (simp add: interleave_inv_def)
  then have "0 < length long" using inv by (auto simp: interleave_inv_def)
  then obtain long' x where split: "long = long' @ [x]"
    by (metis length_greater_0_conv rev_exhaust)
  have "j < s \<longrightarrow> r \<noteq> interleave_target T s j"
    using due inv short_position_less [of j s T]
    by (auto simp: interleave_target_exact interleave_inv_def)
  then show ?thesis
    using due split inv by (intro long [of long' x]) (auto simp: interleave_inv_def)
qed

lemma interleave_from_shuffles:
  "interleave_inv T s j long short r \<Longrightarrow>
   interleave_from T s j long short r \<in> shuffles (rev long) (rev short)"
proof (induction r arbitrary: j long short)
  case 0
  then show ?case by (simp add: interleave_inv_def)
next
  case (Suc r)
  from Suc.prems show ?case
    by (cases rule: interleave_step_cases) (auto simp: Suc.IH Cons_in_shuffles_iff)
qed

lemma interleave_from_position:
  "\<lbrakk>interleave_inv T s j long short r; j \<le> k; k < s\<rbrakk> \<Longrightarrow>
   interleave_from T s j long short r ! (short_position T s k - (T - r)) = rev short ! (k - j)"
proof (induction r arbitrary: j long short)
  case 0
  then show ?case by (auto simp: interleave_inv_def)
next
  case (Suc r)
  have mono: "short_position T s j \<le> short_position T s k"
     using Suc.prems by (simp add: short_position_def div_le_mono)
  from Suc.prems(1) show ?case
  proof (cases rule: interleave_step_cases)
    case (short short' x)
    show ?thesis
    proof (cases "k = j")
      case False
      then have "short_position T s j < short_position T s k"
        using Suc.prems by (auto simp: interleave_inv_def intro: short_position_mono)
      then have "short_position T s k - (T - Suc r) = Suc (short_position T s k - (T - r))"
        using short Suc.prems by (auto simp: interleave_inv_def)
      moreover have "k - j = Suc (k - Suc j)" using False Suc.prems by simp
      ultimately show ?thesis using Suc.IH [OF short(4)] Suc.prems short False by simp
    qed (use short in simp)
  next
    case (long long' x)
    then have "short_position T s k - (T - Suc r) = Suc (short_position T s k - (T - r))"
      using mono Suc.prems by (auto simp: interleave_inv_def)
    then show ?thesis using Suc.IH [OF long(3)] Suc.prems long by simp
  qed
qed

lemma interleave_inv_start:
  assumes "length short \<le> length long" "length short * (length long + length short) < 2 ^ 64"
  shows "interleave_inv (length long + length short) (length short) 0 long short
           (length long + length short)"
  using assms by (simp add: interleave_inv_def)

lemma interleave_unfold:
  assumes "length v1 + length v2 < 2 ^ 64"
  shows "interleave v1 v2 =
    (if length v2 \<le> length v1
     then interleave_from (length v1 + length v2) (length v2) 0 v1 v2 (length v1 + length v2)
     else interleave_from (length v2 + length v1) (length v1) 0 v2 v1 (length v2 + length v1))"
  using assms by (simp add: interleave_def usize_add_exact add.commute Let_def)

definition interleave_fits :: "'a list \<Rightarrow> 'b list \<Rightarrow> bool" where
  "interleave_fits v1 v2 \<longleftrightarrow> length v1 + length v2 < 2 ^ 64 \<and>
     min (length v1) (length v2) * (length v1 + length v2) < 2 ^ 64"

lemma interleave_shuffles:
  assumes "interleave_fits v1 v2"
  shows "interleave v1 v2 \<in> shuffles (rev v1) (rev v2)"
proof (cases "length v2 \<le> length v1")
  case True
  then show ?thesis
    using assms interleave_from_shuffles [OF interleave_inv_start [of v2 v1]]
    by (simp add: interleave_unfold interleave_fits_def)
next
  case False
  then show ?thesis
    using assms interleave_from_shuffles [OF interleave_inv_start [of v1 v2]]
    by (simp add: interleave_unfold interleave_fits_def shuffles_commutes min_def add.commute)
qed

section \<open>Properties\<close>

text \<open>
  C22. The iterator loses, duplicates and invents nothing: as long as the index arithmetic
  fits into \<open>usize\<close>, its output is a shuffle of the two vectors, each taken from its end
  (so each keeps its own reversed order), and in particular a permutation of both.
\<close>

theorem interleave_complete:
  assumes "interleave_fits v1 v2"
  shows "interleave v1 v2 \<in> shuffles (rev v1) (rev v2) \<and>
    mset (interleave v1 v2) = mset v1 + mset v2 \<and>
    length (interleave v1 v2) = length v1 + length v2"
  using interleave_shuffles [OF assms] by (auto simp: mset_shuffles dest: length_shuffles)

theorem interleave_complete_witness:
  "interleave [10, 20, 30, 40, 50 :: nat] [1, 2] = [2, 50, 40, 1, 30, 20, 10] \<and>
   mset (interleave [10, 20, 30, 40, 50 :: nat] [1, 2]) = {#10, 20, 30, 40, 50#} + {#1, 2#}"
proof -
  have "interleave_fits [10, 20, 30, 40, 50 :: nat] [1, 2 :: nat]"
    by (simp add: interleave_fits_def)
  from interleave_complete [OF this]
  have "mset (interleave [10, 20, 30, 40, 50 :: nat] [1, 2]) = {#10, 20, 30, 40, 50#} + {#1, 2#}"
    by simp
  moreover have "interleave [10, 20, 30, 40, 50 :: nat] [1, 2] = [2, 50, 40, 1, 30, 20, 10]"
    by code_simp
  ultimately show ?thesis by simp
qed

text \<open>
  C23. The spreading is even: the element number \<open>k\<close> of the shorter vector, counted from its
  end, is the output number \<open>k * total / short\<close>, and two such elements that follow each
  other are \<open>total / short\<close> or one more positions apart. A burst of losses of that length
  hits at most two of them.
\<close>

theorem interleave_even:
  assumes "interleave_fits v1 v2"
    and "short = (if length v2 \<le> length v1 then v2 else v1)"
    and "T = length v1 + length v2" and "k < length short"
  shows "interleave v1 v2 ! (k * T div length short) = rev short ! k \<and>
    Suc k * T div length short - k * T div length short
      \<in> {T div length short, Suc (T div length short)}"
proof
  show "interleave v1 v2 ! (k * T div length short) = rev short ! k"
  proof (cases "length v2 \<le> length v1")
    case True
    then show ?thesis
      using assms interleave_from_position [OF interleave_inv_start [of v2 v1], of k]
      by (simp add: interleave_unfold interleave_fits_def short_position_def)
  next
    case False
    then show ?thesis
      using assms interleave_from_position [OF interleave_inv_start [of v1 v2], of k]
      by (simp add: interleave_unfold interleave_fits_def short_position_def min_def add.commute)
  qed
  show "Suc k * T div length short - k * T div length short
      \<in> {T div length short, Suc (T div length short)}"
    using short_position_gap [of "length short" T k] assms(4)
    by (cases short) (simp_all add: short_position_def)
qed

theorem interleave_even_witness:
  "interleave [10, 20, 30, 40, 50 :: nat] [1, 2] ! 3 = 1"
proof -
  have "interleave_fits [10, 20, 30, 40, 50 :: nat] [1, 2 :: nat]"
    by (simp add: interleave_fits_def)
  from interleave_even [OF this, of "[1, 2]" 7 1]
  have "interleave [10, 20, 30, 40, 50 :: nat] [1, 2] ! (1 * 7 div length [1, 2 :: nat]) =
      rev [1, 2] ! 1" by simp
  moreover have "1 * 7 div length [1, 2 :: nat] = 3" by code_simp
  ultimately show ?thesis by simp
qed

end
