(* ===== verification/Big_Endian.thy ===== *)
theory Big_Endian
  imports Garuda_Prelude
begin

text \<open>
  Fixed-width fields of a byte buffer: the contract of a field codec as a locale, and its
  two instances from the standard library that \<open>protocol.rs\<close> uses, \<open>u64\<close> and \<open>u32\<close> with
  \<open>to_be_bytes\<close> and \<open>from_be_bytes\<close>.
\<close>

section \<open>The interface of a fixed-width field\<close>

locale field_codec =
  fixes put :: "'a \<Rightarrow> bytes" and get :: "bytes \<Rightarrow> 'a" and width :: nat
  assumes length_put: "length (put x) = width"
    and get_put: "get (put x) = x"
begin

lemma put_inj: "put x = put y \<Longrightarrow> x = y"
  by (metis get_put)

lemma field_slice: "length pre = off \<Longrightarrow> take width (drop off (pre @ put x @ post)) = put x"
  by (simp add: length_put)

lemma get_field: "length pre = off \<Longrightarrow> get (take width (drop off (pre @ put x @ post))) = x"
  by (simp only: field_slice get_put)

end

section \<open>Big-endian integers\<close>

definition to_be_bytes :: "nat \<Rightarrow> 'a::len word \<Rightarrow> bytes" where
  "to_be_bytes n w = map (\<lambda>i. ucast (drop_bit (8 * i) w)) (rev [0..<n])"

definition from_be_bytes :: "bytes \<Rightarrow> 'a::len word" where
  "from_be_bytes bs = foldl (\<lambda>a b. a * 256 + ucast b) 0 bs"

lemma length_to_be_bytes [simp]: "length (to_be_bytes n w) = n"
  by (simp add: to_be_bytes_def)

lemma to_be_bytes_Suc: "to_be_bytes (Suc n) w = ucast (drop_bit (8 * n) w) # to_be_bytes n w"
  by (simp add: to_be_bytes_def)

text \<open>Read as a number, the bytes are the word modulo \<open>256 ^ n\<close>.\<close>

definition be_value :: "bytes \<Rightarrow> nat" where
  "be_value bs = foldl (\<lambda>a b. a * 256 + unat b) 0 bs"

lemma be_value_acc:
  "foldl (\<lambda>a b. a * 256 + unat b) c bs = c * 256 ^ length bs + be_value bs" for bs :: bytes
proof (induction bs arbitrary: c)
  case Nil
  then show ?case by (simp add: be_value_def)
next
  case (Cons b bs)
  have "be_value (b # bs) = unat b * 256 ^ length bs + be_value bs"
    using Cons [of "unat b"] by (simp add: be_value_def)
  then show ?case using Cons [of "c * 256 + unat b"] by (simp add: algebra_simps)
qed

lemma be_value_Cons: "be_value (b # bs) = unat b * 256 ^ length bs + be_value bs"
  using be_value_acc [of "unat b" bs] by (simp add: be_value_def)

lemma be_value_to_be_bytes: "be_value (to_be_bytes n w) = unat w mod 256 ^ n"
proof (induction n)
  case 0
  then show ?case by (simp add: to_be_bytes_def be_value_def)
next
  case (Suc n)
  have "(2::nat) ^ (8 * n) = 256 ^ n" by (simp add: power_mult)
  then have "unat (drop_bit (8 * n) w) = unat w div 256 ^ n"
    unfolding unat_drop_bit_eq by (simp add: drop_bit_eq_div)
  then have "unat (ucast (drop_bit (8 * n) w) :: byte) = unat w div 256 ^ n mod 256"
    by (simp add: unsigned_ucast_eq take_bit_eq_mod)
  moreover have "unat w mod 256 ^ Suc n =
      (unat w div 256 ^ n mod 256) * 256 ^ n + unat w mod 256 ^ n"
    using mod_mult2_eq [of "unat w" "256 ^ n" 256] by (simp add: mult.commute)
  ultimately show ?case by (simp add: to_be_bytes_Suc be_value_Cons Suc)
qed

lemma from_be_bytes_value: "(from_be_bytes bs :: 'a::len word) = of_nat (be_value bs)"
proof (induction bs rule: rev_induct)
  case Nil
  then show ?case by (simp add: from_be_bytes_def be_value_def)
next
  case (snoc b bs)
  then show ?case by (simp add: from_be_bytes_def be_value_def of_nat_unat)
qed

lemma from_to_be_bytes:
  assumes "LENGTH('a) = 8 * n"
  shows "from_be_bytes (to_be_bytes n (w :: 'a::len word)) = w"
proof -
  have "unat w < 256 ^ n" using unsigned_less [of w] assms by (simp add: power_mult)
  then show ?thesis by (simp add: from_be_bytes_value be_value_to_be_bytes)
qed

interpretation u64_be: field_codec "to_be_bytes 8 :: u64 \<Rightarrow> bytes" from_be_bytes 8
  by unfold_locales (simp_all add: from_to_be_bytes)

interpretation u32_be: field_codec "to_be_bytes 4 :: u32 \<Rightarrow> bytes" from_be_bytes 4
  by unfold_locales (simp_all add: from_to_be_bytes)

end
