(* ===== verification/Repetition_Code.thy ===== *)
theory Repetition_Code
  imports Raptorq Big_Endian
begin

text \<open>
  A concrete code with the interface of \<open>raptorq\<close>, on which the assumptions of theory
  \<open>Raptorq\<close> hold: the source packets are the symbols, the repair packets repeat them in turn,
  and the decoder answers when it has every symbol. The examples of the development are
  evaluated on it; no property rests on it.
\<close>

section \<open>The code\<close>

type_synonym rep_packet = "u8 \<times> 24 word \<times> bytes"
type_synonym rep_encoder = "u8 \<times> nat \<times> bytes"

record rep_decoder =
  rd_symbol :: nat
  rd_length :: nat
  rd_got :: "(24 word \<times> bytes) list"

definition rep_symbol :: "nat \<Rightarrow> bytes \<Rightarrow> nat \<Rightarrow> bytes" where
  "rep_symbol s data i = take s (drop (i * s) data @ replicate s 0)"

definition rep_source :: "rep_encoder \<Rightarrow> rep_packet list" where
  "rep_source e =
     (case e of (i, s, data) \<Rightarrow>
        map (\<lambda>k. (i, of_nat k, rep_symbol s data k)) [0..<length data div s])"

definition rep_repair :: "rep_encoder \<Rightarrow> u32 \<Rightarrow> u32 \<Rightarrow> rep_packet list" where
  "rep_repair e start n =
     (case e of (i, s, data) \<Rightarrow>
        map (\<lambda>j. let k = (unat start + j) mod (length data div s)
                 in (i, of_nat k, rep_symbol s data k)) [0..<unat n])"

definition rep_decode :: "rep_decoder \<Rightarrow> rep_packet list \<Rightarrow> bytes option \<times> rep_decoder" where
  "rep_decode d ps =
     (let got = rd_got d @ map snd ps; d' = d\<lparr>rd_got := got\<rparr>;
          symbols = map (\<lambda>k. map_of got (of_nat k)) [0..<rd_length d div rd_symbol d]
      in if rd_symbol d \<noteq> 0 \<and> rd_symbol d dvd rd_length d \<and>
            int (rd_length d div rd_symbol d) < 2 ^ 24 \<and> list_all (\<lambda>x. x \<noteq> None) symbols
         then (Some (concat (map the symbols)), d') else (None, d'))"

definition rep_code :: "(u16, u16, rep_encoder, rep_packet, rep_decoder) raptorq" where
  "rep_code =
     \<lparr>with_defaults = (\<lambda>len mps. mps - 4),
      symbol_size = (\<lambda>cfg. cfg),
      plan_generate = (\<lambda>n. n),
      with_encoding_plan = (\<lambda>i cfg data plan. (i, unat cfg, data)),
      source_packets = rep_source,
      repair_packets = rep_repair,
      decoder_new = (\<lambda>i cfg len. \<lparr>rd_symbol = unat cfg, rd_length = unat len, rd_got = []\<rparr>),
      decoder_decode = rep_decode,
      source_block_number = fst,
      pkt_serialize = (\<lambda>(i, e, s). i # to_be_bytes 3 e @ s),
      pkt_deserialize = (\<lambda>bs. (hd bs, from_be_bytes (take 3 (tl bs)), drop 3 (tl bs)))\<rparr>"

lemma rep_code_sel:
  "with_encoding_plan rep_code i cfg data plan = (i, unat cfg, data)"
  "source_packets rep_code = rep_source" "repair_packets rep_code = rep_repair"
  "decoder_new rep_code i cfg len = \<lparr>rd_symbol = unat cfg, rd_length = unat len, rd_got = []\<rparr>"
  "decoder_decode rep_code = rep_decode" "symbol_size rep_code cfg = cfg"
  by (simp_all add: rep_code_def)

lemma len24: "LENGTH(24) = 24"
  by simp

section \<open>It meets the assumptions\<close>

lemma rep_code_packets: "rq_packets rep_code"
  by (auto simp: rq_packets_def rep_code_def rep_source_def rep_repair_def Let_def)

lemma length_rep_symbol [simp]: "length (rep_symbol s data k) = s"
  by (simp add: rep_symbol_def)

lemma rep_code_wire: "rq_wire rep_code"
  by (auto simp: rq_wire_def rep_code_def rep_source_def rep_repair_def Let_def from_to_be_bytes)

lemma concat_rep_symbols:
  "s * n \<le> length data \<Longrightarrow> concat (map (rep_symbol s data) [0..<n]) = take (s * n) data"
proof (induction n)
  case (Suc n)
  then have "rep_symbol s data n = take s (drop (s * n) data)"
    by (simp add: rep_symbol_def mult.commute)
  moreover have "s * Suc n = s * n + s" by simp
  ultimately show ?case using Suc by (simp only: take_add) simp
qed simp

text \<open>The symbols a decoder holds are symbols of the block.\<close>

definition rep_inv :: "nat \<Rightarrow> bytes \<Rightarrow> rep_decoder \<Rightarrow> bool" where
  "rep_inv s data d \<longleftrightarrow> rd_symbol d = s \<and> rd_length d = length data \<and>
     (0 < length data div s \<longrightarrow>
        set (rd_got d) \<subseteq> (\<lambda>k. (of_nat k, rep_symbol s data k)) ` {0..<length data div s})"

lemma rep_decode_inv:
  assumes "rep_inv s data d" "rep_inv s data \<lparr>rd_symbol = s, rd_length = length data, rd_got = map snd ps\<rparr>"
    and "rep_decode d ps = (r, d')"
  shows "rep_inv s data d'" "r = Some b \<Longrightarrow> b = data"
proof -
  let ?K = "length data div s"
  have d': "d' = d\<lparr>rd_got := rd_got d @ map snd ps\<rparr>"
    using assms(3) by (auto simp: rep_decode_def Let_def split: if_splits)
  show inv: "rep_inv s data d'" using assms(1,2) d' by (auto simp: rep_inv_def)
  assume "r = Some b"
  then have ok: "s \<noteq> 0" "s dvd length data" "?K < 2 ^ 24"
      "\<And>k. k < ?K \<Longrightarrow> map_of (rd_got d') (of_nat k) \<noteq> None"
      "b = concat (map (\<lambda>k. the (map_of (rd_got d') (of_nat k))) [0..<?K])"
    using assms(1,3) d' by (auto simp: rep_decode_def rep_inv_def Let_def comp_def list_all_iff split: if_splits)
  have "the (map_of (rd_got d') (of_nat k)) = rep_symbol s data k" if k: "k < ?K" for k
  proof -
    obtain v where v: "map_of (rd_got d') (of_nat k) = Some v" using ok(4) [OF k] by auto
    then obtain j where "j < ?K" "(of_nat k :: 24 word) = of_nat j" "v = rep_symbol s data j"
      using inv k by (force simp: rep_inv_def dest: map_of_SomeD)
    moreover have "unat (of_nat m :: 24 word) = m" if "m < ?K" for m
      using that ok(3) by (intro unat_of_nat_less) (simp only: len24 less_trans)
    ultimately show ?thesis using v k by (metis option.sel)
  qed
  then have "b = concat (map (rep_symbol s data) [0..<?K])"
    unfolding ok(5) by (intro arg_cong [where f = concat] map_cong) auto
  then show "b = data" using ok(1,2) concat_rep_symbols [of s ?K data] by simp
qed

lemma rep_feed_sound:
  "\<lbrakk>rep_inv s data d;
    \<And>p. p \<in> set ps \<Longrightarrow>
      rep_inv s data \<lparr>rd_symbol = s, rd_length = length data, rd_got = [snd p]\<rparr>;
    rq_feed rep_code d ps = Some b\<rbrakk> \<Longrightarrow> b = data"
proof (induction ps arbitrary: d)
  case (Cons p ps)
  obtain r d' where r: "rep_decode d [p] = (r, d')" by (metis surj_pair)
  have "rep_inv s data d'" "r = Some b \<Longrightarrow> b = data"
    using rep_decode_inv [OF Cons.prems(1) _ r] Cons.prems(2) [of p] by simp_all
  then show ?case using Cons r by (cases r) (auto simp: rep_code_sel)
qed simp

lemma rep_code_sound: "rq_sound rep_code"
proof -
  have "b = data" if len: "length data < 2 ^ 64"
    and ps: "set ps \<subseteq> set (rep_source (i, s, data)) \<union> set (rep_repair (i, s, data) 0 n)"
    and feed: "rq_feed rep_code \<lparr>rd_symbol = s, rd_length = length data, rd_got = []\<rparr> ps = Some b"
    for i :: u8 and s data n ps b
  proof (rule rep_feed_sound [OF _ _ feed])
    show "rep_inv s data \<lparr>rd_symbol = s, rd_length = length data, rd_got = []\<rparr>"
      by (simp add: rep_inv_def)
    fix p assume "p \<in> set ps"
    then show "rep_inv s data \<lparr>rd_symbol = s, rd_length = length data, rd_got = [snd p]\<rparr>"
      using ps by (force simp: rep_inv_def rep_source_def rep_repair_def Let_def)
  qed
  moreover have "unat (of_nat (length data) :: u64) = length data" if "length data < 2 ^ 64" for data :: bytes
    using that by (simp add: unat_of_nat_less)
  ultimately show ?thesis
    unfolding rq_sound_def rep_code_sel by metis
qed

text \<open>A decoder that has seen every symbol has answered.\<close>

lemma rep_feed_complete:
  assumes "rd_symbol d \<noteq> 0" "rd_symbol d dvd rd_length d" "rd_length d div rd_symbol d < 2 ^ 24"
    and "\<forall>k < rd_length d div rd_symbol d. of_nat k \<in> fst ` set (rd_got d @ map snd ps)" "ps \<noteq> []"
  shows "rq_feed rep_code d ps \<noteq> None"
  using assms
proof (induction ps arbitrary: d)
  case (Cons p ps)
  let ?d = "d\<lparr>rd_got := rd_got d @ [snd p]\<rparr>"
  have step: "decoder_decode rep_code d [p] = (fst (rep_decode d [p]), ?d)"
    by (simp add: rep_code_sel rep_decode_def Let_def)
  show ?case
  proof (cases "fst (rep_decode d [p])")
    case None
    have "int (rd_length d div rd_symbol d) < 2 ^ 24" using Cons.prems(3) by simp
    then have "\<not> (\<forall>k < rd_length d div rd_symbol d. of_nat k \<in> fst ` set (rd_got ?d))"
      using None Cons.prems(1,2)
      by (auto simp: rep_decode_def Let_def list_all_iff map_of_eq_None_iff split: if_splits)
    then have "ps \<noteq> []" using Cons.prems(4) by auto
    then have "rq_feed rep_code ?d ps \<noteq> None" using Cons.prems by (intro Cons.IH) auto
    then show ?thesis using None step by simp
  qed (simp add: step)
qed simp

lemma rep_code_complete: "rq_complete rep_code"
proof -
  have "rq_feed rep_code \<lparr>rd_symbol = s, rd_length = unat (of_nat (length data) :: u64), rd_got = []\<rparr> ps \<noteq> None"
    if h: "data \<noteq> []" "length data < 2 ^ 64" "0 < s" "s dvd length data" "length data div s \<le> max_source_symbols"
      "set (rep_source (i, s, data)) \<subseteq> set ps"
    for i :: u8 and s data and ps :: "rep_packet list"
  proof -
    have len: "unat (of_nat (length data) :: u64) = length data" using h(2) by (simp add: unat_of_nat_less)
    have K: "0 < length data div s" using h(1,3,4) by (auto simp: div_greater_zero_iff dvd_imp_le)
    have "(i, of_nat k, rep_symbol s data k) \<in> set ps" if "k < length data div s" for k
      using that h(6) by (auto simp: rep_source_def)
    then have "of_nat k \<in> fst ` set (map snd ps)" if "k < length data div s" for k using that by force
    then show ?thesis
      unfolding len using h K by (intro rep_feed_complete) (auto simp: rep_source_def max_source_symbols_def)
  qed
  then show ?thesis unfolding rq_complete_def rep_code_sel by blast
qed

end
