(* ===== verification/Block_Encoder.thy ===== *)
theory Block_Encoder
  imports Raptorq Channel Vector_Interleave Repetition_Code
begin

text \<open>
  The model of \<open>garuda-codec-core/src/block_encoder.rs\<close>: the configuration of the code, the
  encoder of one block, the loop that encodes a stream of blocks, and the number of repair
  packets per block.
\<close>

section \<open>Data\<close>

record block =
  block_id :: u8
  block_data :: bytes

record ('oti, 'plan) block_encoder =
  be_block_size :: usize
  be_repair_packets_per_block :: u32
  be_config :: 'oti
  be_encoding_plan :: 'plan

datatype configuration_error = InvalidBlockSize usize usize

datatype 'pkt block_encoder_error =
    UnexpectedBlockSize | InvalidConfiguration string | SendError 'pkt

text \<open>\<open>Display\<close> of a natural number, and of the errors.\<close>

fun show_nat :: "nat \<Rightarrow> string" where
  "show_nat n = (if n < 10 then [char_of (48 + n)] else show_nat (n div 10) @ [char_of (48 + n mod 10)])"

declare show_nat.simps [simp del]

fun configuration_error_to_string :: "configuration_error \<Rightarrow> string" where
  "configuration_error_to_string (InvalidBlockSize block_size symbol) =
     ''Block size '' @ show_nat block_size @ '' is not a multiple of symbol size '' @
     show_nat symbol"

fun block_encoder_error_to_string :: "'pkt block_encoder_error \<Rightarrow> string" where
  "block_encoder_error_to_string UnexpectedBlockSize =
     ''Block size does not match encoder configuration''"
| "block_encoder_error_to_string (InvalidConfiguration s) = s"
| "block_encoder_error_to_string (SendError p) = ''sending on a closed channel''"

text \<open>\<open>impl From<ConfigurationError> for BlockEncoderError\<close>.\<close>

definition from_configuration_error :: "configuration_error \<Rightarrow> 'pkt block_encoder_error" where
  "from_configuration_error e = InvalidConfiguration (configuration_error_to_string e)"

text \<open>\<open>impl From<mpsc::SendError<EncodingPacket>> for BlockEncoderError\<close>.\<close>

definition from_packet_send_error :: "'pkt \<Rightarrow> 'pkt block_encoder_error" where
  [simp]: "from_packet_send_error p = SendError p"

section \<open>Operations\<close>

definition get_configuration ::
  "('oti, 'plan, 'enc, 'pkt, 'dec) raptorq \<Rightarrow> usize \<Rightarrow> u16 \<Rightarrow> (configuration_error, 'oti) outcome" where
  "get_configuration R block_size max_packet_size =
     (let config = with_defaults R (of_nat block_size) max_packet_size;
          symbol = unat (symbol_size R config)
      in if symbol dvd block_size then Ok config else Err (InvalidBlockSize block_size symbol))"

text \<open>\<open>a / b\<close> on \<open>usize\<close>, which panics for a zero divisor.\<close>

definition usize_div :: "usize \<Rightarrow> usize \<Rightarrow> usize or_panic" where
  "usize_div a b = (if b = 0 then Panic else Ok (a div b))"

definition block_encoder_new ::
  "('oti, 'plan, 'enc, 'pkt, 'dec) raptorq \<Rightarrow> usize \<Rightarrow> u16 \<Rightarrow> u32 \<Rightarrow>
   ('pkt block_encoder_error, ('oti, 'plan) block_encoder) outcome" where
  "block_encoder_new R block_size max_packet_size repair =
     bind_outcome (map_err from_configuration_error (get_configuration R block_size max_packet_size))
       (\<lambda>config. bind_panic (usize_div block_size (unat (symbol_size R config))) (\<lambda>symbol_count.
          if int symbol_count < 2 ^ 16
          then Ok \<lparr>be_block_size = block_size, be_repair_packets_per_block = repair,
                   be_config = config,
                   be_encoding_plan = plan_generate R (of_nat symbol_count)\<rparr>
          else Err (InvalidConfiguration ''Cannot safely cast symbol_count to u16'')))"

definition encode ::
  "('oti, 'plan, 'enc, 'pkt, 'dec) raptorq \<Rightarrow> ('oti, 'plan) block_encoder \<Rightarrow> block \<Rightarrow>
   ('pkt block_encoder_error, 'pkt list) outcome" where
  "encode R be block =
     (if length (block_data block) \<noteq> be_block_size be then Err UnexpectedBlockSize
      else
        let enc = with_encoding_plan R (block_id block) (be_config be) (block_data block)
                    (be_encoding_plan be)
        in Ok (interleave (source_packets R enc)
                 (repair_packets R enc 0 (be_repair_packets_per_block be))))"

text \<open>The inner and the outer loop of \<open>encode_stream\<close>.\<close>

fun send_packets ::
  "'pkt list \<Rightarrow> 'pkt sender \<Rightarrow> ('pkt block_encoder_error, unit) outcome \<times> 'pkt sender" where
  "send_packets [] out = (Ok (), out)"
| "send_packets (p # ps) out =
     (case send p out of
        Ok out' \<Rightarrow> send_packets ps out'
      | Err x \<Rightarrow> (Err (from_packet_send_error x), out)
      | Panic \<Rightarrow> (Panic, out))"

fun encode_stream ::
  "('oti, 'plan, 'enc, 'pkt, 'dec) raptorq \<Rightarrow> ('oti, 'plan) block_encoder \<Rightarrow> block list \<Rightarrow>
   'pkt sender \<Rightarrow> ('pkt block_encoder_error, unit) outcome \<times> 'pkt sender" where
  "encode_stream R be [] out = (Ok (), out)"
| "encode_stream R be (b # bs) out =
     (case encode R be b of
        Ok packets \<Rightarrow>
          (case send_packets packets out of
             (Ok _, out') \<Rightarrow> encode_stream R be bs out'
           | (Err e, out') \<Rightarrow> (Err e, out')
           | (Panic, out') \<Rightarrow> (Panic, out'))
      | Err e \<Rightarrow> (Err e, out)
      | Panic \<Rightarrow> (Panic, out))"

text \<open>The errors that \<open>compute_repair_packets_per_block\<close> boxes.\<close>

datatype repair_error = RepairConfiguration configuration_error | TryFromInt

definition u32_div_ceil :: "u32 \<Rightarrow> u32 \<Rightarrow> u32" where
  "u32_div_ceil a b = (if a mod b = 0 then a div b else a div b + 1)"

definition compute_repair_packets_per_block ::
  "('oti, 'plan, 'enc, 'pkt, 'dec) raptorq \<Rightarrow> usize \<Rightarrow> u16 \<Rightarrow> u32 \<Rightarrow> (repair_error, u32) outcome" where
  "compute_repair_packets_per_block R block_size max_packet_size redundancy_factor =
     bind_outcome (map_err RepairConfiguration (get_configuration R block_size max_packet_size))
       (\<lambda>config. bind_panic (usize_div block_size (unat (symbol_size R config))) (\<lambda>n.
          if int n < 2 ^ 32 then Ok (u32_div_ceil (of_nat n * redundancy_factor) 100)
          else Err TryFromInt))"

section \<open>Lemmas\<close>

text \<open>The packets \<open>encode\<close> produces for a block of the right size.\<close>

definition block_packets ::
  "('oti, 'plan, 'enc, 'pkt, 'dec) raptorq \<Rightarrow> ('oti, 'plan) block_encoder \<Rightarrow> block \<Rightarrow> 'pkt list" where
  "block_packets R be b =
     (let enc = with_encoding_plan R (block_id b) (be_config be) (block_data b) (be_encoding_plan be)
      in interleave (source_packets R enc) (repair_packets R enc 0 (be_repair_packets_per_block be)))"

definition well_sized :: "('oti, 'plan) block_encoder \<Rightarrow> block \<Rightarrow> bool" where
  "well_sized be b \<longleftrightarrow> length (block_data b) = be_block_size be"

lemma encode_eq:
  "encode R be b = (if well_sized be b then Ok (block_packets R be b) else Err UnexpectedBlockSize)"
  by (simp add: encode_def block_packets_def well_sized_def Let_def)

lemma block_encoder_new_Ok:
  assumes "block_encoder_new R bs mps rep = Ok be"
  shows "be_block_size be = bs" "be_repair_packets_per_block be = rep"
    "0 < unat (symbol_size R (be_config be))" "unat (symbol_size R (be_config be)) dvd bs"
    "bs div unat (symbol_size R (be_config be)) < 2 ^ 16"
    "be_config be = with_defaults R (of_nat bs) mps"
proof -
  have "\<exists>cfg. get_configuration R bs mps = Ok cfg" using assms
    by (cases "get_configuration R bs mps") (auto simp: block_encoder_new_def)
  then obtain cfg where cfg: "get_configuration R bs mps = Ok cfg"
      "cfg = with_defaults R (of_nat bs) mps" "unat (symbol_size R cfg) dvd bs"
    by (auto simp: get_configuration_def Let_def split: if_splits)
  then show "be_block_size be = bs" "be_repair_packets_per_block be = rep"
    "0 < unat (symbol_size R (be_config be))" "unat (symbol_size R (be_config be)) dvd bs"
    "bs div unat (symbol_size R (be_config be)) < 2 ^ 16"
    "be_config be = with_defaults R (of_nat bs) mps"
    using assms by (auto simp: block_encoder_new_def usize_div_def split: if_splits)
qed

text \<open>The symbol count is bounded by \<open>u16\<close>, so the index arithmetic of \<open>interleave\<close> fits.\<close>

lemma packets_fit:
  assumes "length src < 2 ^ 16" "length rep < 2 ^ 32"
  shows "interleave_fits src rep"
proof -
  have "min (length src) (length rep) * (length src + length rep) \<le> 2 ^ 16 * (2 ^ 16 + 2 ^ 32)"
    using assms by (intro mult_mono) auto
  then show ?thesis using assms by (auto simp: interleave_fits_def)
qed

lemma block_packets_shuffles:
  assumes "rq_packets R" "block_encoder_new R bs mps rep = Ok be" "well_sized be b"
  defines "enc \<equiv> with_encoding_plan R (block_id b) (be_config be) (block_data b) (be_encoding_plan be)"
  shows "block_packets R be b \<in> shuffles (rev (source_packets R enc)) (rev (repair_packets R enc 0 rep))"
    and "length (source_packets R enc) = bs div unat (symbol_size R (be_config be))"
    and "length (repair_packets R enc 0 rep) = unat rep"
proof -
  note new = block_encoder_new_Ok [OF assms(2)]
  show src: "length (source_packets R enc) = bs div unat (symbol_size R (be_config be))"
    using assms(1,3) new unfolding rq_packets_def enc_def well_sized_def by auto
  show rep: "length (repair_packets R enc 0 rep) = unat rep"
    using assms(1) unfolding rq_packets_def enc_def by auto
  have "interleave_fits (source_packets R enc) (repair_packets R enc 0 rep)"
    using src rep new unsigned_less [of rep] by (intro packets_fit) simp_all
  then show "block_packets R be b \<in> shuffles (rev (source_packets R enc)) (rev (repair_packets R enc 0 rep))"
    using interleave_shuffles new(2) by (simp add: block_packets_def enc_def Let_def)
qed

lemma block_packets_id:
  assumes "rq_packets R" "block_encoder_new R bs mps rep = Ok be" "well_sized be b"
    "p \<in> set (block_packets R be b)"
  shows "source_block_number R p = block_id b"
proof -
  let ?enc = "with_encoding_plan R (block_id b) (be_config be) (block_data b) (be_encoding_plan be)"
  have "p \<in> set (source_packets R ?enc) \<union> set (repair_packets R ?enc 0 rep)"
    using block_packets_shuffles(1) [OF assms(1-3)] assms(4) by (auto dest: set_shuffles)
  then show ?thesis using assms(1) unfolding rq_packets_def by blast
qed

lemma send_packets_deliver:
  "send_packets ps q =
     (case first_refused ps q of None \<Rightarrow> Ok () | Some p \<Rightarrow> Err (SendError p), deliver ps q)"
proof (induction ps arbitrary: q)
  case Nil
  show ?case by (simp add: first_refused_def split: option.splits)
next
  case (Cons p ps)
  then show ?case
    using deliver_Cons [where x = p and q = q and xs = ps] by (cases "first_refused [p] q") (auto simp: send_deliver)
qed

text \<open>What the loop over the blocks sends, and how it ends.\<close>

lemma encode_stream_eq:
  "encode_stream R be bs out =
     (let good = takeWhile (well_sized be) bs; ps = concat (map (block_packets R be) good)
      in (case first_refused ps out of
            Some p \<Rightarrow> Err (SendError p)
          | None \<Rightarrow> if good = bs then Ok () else Err UnexpectedBlockSize,
          deliver ps out))"
proof (induction bs arbitrary: out)
  case Nil
  show ?case by (simp add: first_refused_def split: option.splits)
next
  case (Cons b bs)
  show ?case
  proof (cases "well_sized be b")
    case True
    then show ?thesis
      using Cons deliver_append [where xs = "block_packets R be b" and q = out]
      by (cases "first_refused (block_packets R be b) out")
        (auto simp add: encode_eq send_packets_deliver Let_def split: option.splits)
  qed (simp add: encode_eq first_refused_def split: option.splits)
qed

lemma div_ceil_100: "(m + 99) div 100 = (if m mod 100 = 0 then m div 100 else m div 100 + 1)" for m :: nat
proof (cases "m mod 100 = 0")
  case True
  then obtain q where "m = 100 * q" by auto
  then show ?thesis by simp
next
  case False
  then obtain q r where m: "m = 100 * q + r" "0 < r" "r < 100"
    by (metis mod_less_divisor mult_div_mod_eq neq0_conv zero_less_numeral)
  then have "(m + 99) div 100 = q + 1" by (intro div_nat_eqI) simp_all
  then show ?thesis using m by simp
qed

lemma unat_u32_div_ceil: "unat (u32_div_ceil a 100) = (unat a + 99) div 100"
proof -
  have d: "unat (a div 100) = unat a div 100" and m: "unat (a mod 100) = unat a mod 100"
    by (simp_all add: unat_div unat_mod)
  have lt: "unat a div 100 + 1 < 2 ^ 32"
    using unsigned_less [of a, where 'a = nat] div_le_dividend [of "unat a" 100] by simp
  have z: "a mod 100 = 0 \<longleftrightarrow> unat a mod 100 = 0" by (metis m unat_eq_zero)
  moreover have "unat (a div 100 + 1) = unat a div 100 + 1"
    using d lt unat_add_lem [of "a div 100" 1] by simp
  ultimately show ?thesis by (simp add: u32_div_ceil_def d div_ceil_100)
qed

text \<open>An encoder of the repetition code, for the examples: blocks of two symbols of one byte.\<close>

definition rep_be :: "(u16, u16) block_encoder" where
  "rep_be = \<lparr>be_block_size = 2, be_repair_packets_per_block = 1, be_config = 1, be_encoding_plan = 2\<rparr>"

lemma rep_encoder: "block_encoder_new rep_code 2 5 1 = Ok rep_be"
  by code_simp

section \<open>Properties\<close>

text \<open>
  C27. \<open>encode\<close> on an encoder made by \<open>new\<close>: a block of another size is refused; for a block
  of the configured size it yields an interleaving of all its source and all its repair
  packets, as many as the block has symbols plus the number of repair packets, every one of
  them labelled with the id of the block.
\<close>

theorem encode_block:
  fixes b :: block
  assumes "rq_packets R" "block_encoder_new R bs mps rep = Ok be"
  defines "enc \<equiv> with_encoding_plan R (block_id b) (be_config be) (block_data b) (be_encoding_plan be)"
  shows "if length (block_data b) \<noteq> bs then encode R be b = Err UnexpectedBlockSize
    else \<exists>ps. encode R be b = Ok ps \<and>
           ps \<in> shuffles (rev (source_packets R enc)) (rev (repair_packets R enc 0 rep)) \<and>
           length ps = bs div unat (symbol_size R (be_config be)) + unat rep \<and>
           (\<forall>p \<in> set ps. source_block_number R p = block_id b)"
proof (cases "length (block_data b) = bs")
  case True
  then have wf: "well_sized be b"
    using block_encoder_new_Ok(1) [OF assms(2)] by (simp add: well_sized_def)
  note sh = block_packets_shuffles [OF assms(1,2) wf, folded enc_def]
  have "length (block_packets R be b) = bs div unat (symbol_size R (be_config be)) + unat rep"
    using length_shuffles [OF sh(1)] sh(2,3) by simp
  then show ?thesis
    using True wf sh(1) block_packets_id [OF assms(1,2) wf] by (simp add: encode_eq)
next
  case False
  then show ?thesis
    using block_encoder_new_Ok(1) [OF assms(2)] by (simp add: encode_eq well_sized_def)
qed

theorem encode_block_witness:
  "\<exists>be. block_encoder_new rep_code 8 6 1 = Ok be \<and>
     (\<exists>ps. encode rep_code be \<lparr>block_id = 7, block_data = [1,2,3,4,5,6,7,8]\<rparr> = Ok ps \<and> length ps = 5)"
proof -
  let ?b = "\<lparr>block_id = 7, block_data = [1,2,3,4,5,6,7,8]\<rparr> :: block"
  obtain be where be: "block_encoder_new rep_code 8 6 1 = Ok be" "symbol_size rep_code (be_config be) = 2"
    by (simp add: block_encoder_new_def get_configuration_def rep_code_def usize_div_def)
  show ?thesis using be encode_block [OF rep_code_packets be(1), of ?b] by auto
qed

text \<open>
  C28. \<open>encode_stream\<close> sends the packets of the blocks up to the first one of the wrong
  size, in order; it stops with \<open>Send\<close> and the refused packet when the receiver hangs up before,
  with \<open>UnexpectedBlockSize\<close> at the bad block, and otherwise returns \<open>Ok\<close>.
\<close>

theorem encode_stream_behaviour:
  "encode_stream R be bs out =
     (let good = takeWhile (well_sized be) bs; ps = concat (map (block_packets R be) good)
      in (case first_refused ps out of
            Some p \<Rightarrow> Err (SendError p)
          | None \<Rightarrow> if good = bs then Ok () else Err UnexpectedBlockSize,
          deliver ps out))"
  by (rule encode_stream_eq)

text \<open>
  C29. The number of repair packets per block: the redundancy percentage of the number of
  symbols, rounded up, as long as the product of the two fits 32 bits. Beyond that the product
  wraps.
\<close>

theorem repair_packets_formula:
  assumes "get_configuration R block_size max_packet_size = Ok cfg"
    and "0 < unat (symbol_size R cfg)" "block_size div unat (symbol_size R cfg) < 2 ^ 32"
  defines "k \<equiv> block_size div unat (symbol_size R cfg)"
  shows "\<exists>n. compute_repair_packets_per_block R block_size max_packet_size redundancy = Ok n \<and>
    unat n = (k * unat redundancy mod 2 ^ 32 + 99) div 100 \<and>
    (k * unat redundancy < 2 ^ 32 \<longrightarrow>
       k * unat redundancy \<le> 100 * unat n \<and> 100 * unat n < k * unat redundancy + 100)"
proof -
  have "unat (of_nat k * redundancy) = k * unat redundancy mod 2 ^ 32"
    by (simp add: unat_word_ariths unsigned_of_nat take_bit_eq_mod mod_mult_left_eq)
  then have n: "unat (u32_div_ceil (of_nat k * redundancy) 100) = (k * unat redundancy mod 2 ^ 32 + 99) div 100"
    by (simp add: unat_u32_div_ceil)
  have "int k < 2 ^ 32" using assms(3) by (simp add: k_def)
  then have c: "compute_repair_packets_per_block R block_size max_packet_size redundancy =
      Ok (u32_div_ceil (of_nat k * redundancy) 100)"
    using assms(1,2) by (simp add: compute_repair_packets_per_block_def usize_div_def k_def)
  have ceil: "m \<le> 100 * ((m + 99) div 100) \<and> 100 * ((m + 99) div 100) < m + 100" for m :: nat
    by linarith
  have "m \<le> 100 * ((m mod 2 ^ 32 + 99) div 100) \<and> 100 * ((m mod 2 ^ 32 + 99) div 100) < m + 100"
    if "m < 2 ^ 32" for m :: nat
    using ceil [of m] mod_less [OF that] by (simp only:)
  then show ?thesis using c n by metis
qed

theorem repair_packets_formula_witness:
  "(\<exists>n. compute_repair_packets_per_block rep_code 384 6 10 = Ok n \<and> unat n = 20) \<and>
   (\<exists>n. compute_repair_packets_per_block rep_code 384 6 22369622 = Ok n \<and> unat n = 2)"
proof -
  have c: "get_configuration rep_code 384 6 = Ok 2" "symbol_size rep_code 2 = 2"
    by (simp_all add: get_configuration_def rep_code_def)
  show ?thesis
    using repair_packets_formula [OF c(1), of 10] repair_packets_formula [OF c(1), of 22369622] c(2) by auto
qed

end
