(* ===== verification/Byte_Io.thy ===== *)
theory Byte_Io
  imports Garuda_Prelude
begin

text \<open>
  Byte streams. The environment of a reader is a script of what its successive \<open>read\<close> calls
  meet: bytes that are available (a call takes at most as many as its buffer holds, the rest
  stays), or a failure. With a failure comes the value the stop flag has when the code loads
  it right after that call, since another thread may set the flag at any time; \<open>loads\<close> gives
  these values for a flag in memory and calls of \<open>stop\<close> in the course of time. A script that
  is exhausted is at end of file. Every finite execution meets a finite script.

  On this model: \<open>read_exact\<close> of \<open>garuda-codec-core/src/io.rs\<close>, \<open>read_exact\<close> and
  \<open>write_all\<close> of the standard library, and \<open>random.rs\<close>. The locale \<open>exact_reader\<close> is the
  contract that both \<open>read_exact\<close> functions fulfil and on which the dispatchers rely.
\<close>

section \<open>Readers and writers\<close>

datatype error_kind =
    NotFound | PermissionDenied | ConnectionRefused | ConnectionReset | BrokenPipe
  | AlreadyExists | WouldBlock | InvalidInput | TimedOut | WriteZero | Interrupted
  | UnexpectedEof | Other

datatype read_event = Bytes bytes | Fails error_kind bool

type_synonym in_stream = "read_event list"

text \<open>
  One call \<open>reader.read(buf)\<close> with a buffer of \<open>n\<close> bytes: the error or the bytes, the value
  of the stop flag after it, and what is left.
\<close>

fun reader_read :: "usize \<Rightarrow> in_stream \<Rightarrow> (error_kind + bytes) \<times> bool \<times> in_stream" where
  "reader_read n [] = (Inr [], False, [])"
| "reader_read n (Bytes bs # r) =
     (if length bs \<le> n then (Inr bs, False, r)
      else (Inr (take n bs), False, Bytes (drop n bs) # r))"
| "reader_read n (Fails k stop # r) = (Inl k, stop, r)"

datatype write_event = Accepts nat | Refuses error_kind

text \<open>A writer: the chunks its successful \<open>write\<close> calls took, and the script of the calls to come.\<close>

record out_stream =
  writes :: "bytes list"
  wscript :: "write_event list"

definition written :: "out_stream \<Rightarrow> bytes" where
  "written w = concat (writes w)"

definition writer_write :: "bytes \<Rightarrow> out_stream \<Rightarrow> (error_kind + nat) \<times> out_stream" where
  "writer_write buf w =
     (case wscript w of
        [] \<Rightarrow> (Inr (length buf), w\<lparr>writes := writes w @ [buf]\<rparr>)
      | Accepts n # r \<Rightarrow>
          (Inr (min n (length buf)),
           w\<lparr>writes := writes w @ [take (min n (length buf)) buf], wscript := r\<rparr>)
      | Refuses k # r \<Rightarrow> (Inl k, w\<lparr>wscript := r\<rparr>))"

section \<open>The stop flag\<close>

text \<open>
  An \<open>Arc<AtomicBool>\<close> is the address of its flag, so a clone of it sees what is stored through the
  other. \<open>Encoder::new\<close> and \<open>Decoder::new\<close> make the flag \<open>None\<close>; the flag of a dispatcher is named
  after the thread that it moves into. \<open>flag_new\<close> is \<open>AtomicBool::new(false)\<close>, \<open>flag_store\<close> the store
  of \<open>true\<close>.
\<close>

type_synonym flag = "nat option"
type_synonym flags = "flag \<Rightarrow> bool"

definition flag_new :: "flag \<Rightarrow> flags \<Rightarrow> flags" where
  "flag_new a h = h(a := False)"

definition flag_store :: "flag \<Rightarrow> flags \<Rightarrow> flags" where
  "flag_store a h = h(a := True)"

text \<open>
  What happens at a reader in the course of time: bytes arrive, a \<open>read\<close> fails, another thread calls
  \<open>stop\<close>. \<open>loads\<close> gives the script that \<open>read_exact\<close> meets when it holds the flag \<open>a\<close>: after a failed
  \<open>read\<close> it loads what is stored at \<open>a\<close> at that time.
\<close>

datatype happening = Yields bytes | Refused error_kind | Stops

fun loads :: "(flags \<Rightarrow> flags) \<Rightarrow> flag \<Rightarrow> flags \<Rightarrow> happening list \<Rightarrow> in_stream" where
  "loads stop a h [] = []"
| "loads stop a h (Yields bs # es) = Bytes bs # loads stop a h es"
| "loads stop a h (Refused k # es) = Fails k (h a) # loads stop a h es"
| "loads stop a h (Stops # es) = loads stop a (stop h) es"

section \<open>\<open>read_exact\<close> of \<open>io.rs\<close>\<close>

definition retryable :: "error_kind \<Rightarrow> bool" where
  "retryable k \<longleftrightarrow> k = Interrupted \<or> k = WouldBlock \<or> k = TimedOut"

lemma reader_read_progress:
  "(Inl e, stop, inp') = reader_read n inp \<Longrightarrow> length inp' < length inp"
  "(Inr bs, stop, inp') = reader_read n inp \<Longrightarrow> bs \<noteq> [] \<Longrightarrow> 0 < n \<Longrightarrow>
     length inp' + (n - length bs) < length inp + n"
  by (cases "(n, inp)" rule: reader_read.cases; auto split: if_splits)+

text \<open>
  \<open>filled\<close> is the part of the caller's buffer already overwritten, \<open>buf\<close> the slice that is
  left. The result carries the whole buffer, also when the read is aborted.
\<close>

function read_exact_loop ::
  "bytes \<Rightarrow> bytes \<Rightarrow> in_stream \<Rightarrow> (error_kind, unit) outcome \<times> bytes \<times> in_stream" where
  "read_exact_loop filled buf inp =
     (if buf = [] then (Ok (), filled, inp)
      else
        (case reader_read (length buf) inp of
           (Inr bs, _, inp') \<Rightarrow>
             if bs = [] then (Err UnexpectedEof, filled @ buf, inp')
             else read_exact_loop (filled @ bs) (drop (length bs) buf) inp'
         | (Inl e, stop_reading, inp') \<Rightarrow>
             if retryable e
             then if stop_reading then (Err Interrupted, filled @ buf, inp')
                  else read_exact_loop filled buf inp'
             else (Err e, filled @ buf, inp')))"
  by pat_completeness auto
termination
  by (relation "measure (\<lambda>(filled, buf, inp). length inp + length buf)")
    (auto dest: reader_read_progress)

declare read_exact_loop.simps [simp del]

definition read_exact :: "bytes \<Rightarrow> in_stream \<Rightarrow> (error_kind, unit) outcome \<times> bytes \<times> in_stream" where
  "read_exact buf inp = read_exact_loop [] buf inp"

section \<open>\<open>read_exact\<close> and \<open>write_all\<close> of the standard library\<close>

function std_read_exact_loop ::
  "bytes \<Rightarrow> bytes \<Rightarrow> in_stream \<Rightarrow> (error_kind, unit) outcome \<times> bytes \<times> in_stream" where
  "std_read_exact_loop filled buf inp =
     (if buf = [] then (Ok (), filled, inp)
      else
        (case reader_read (length buf) inp of
           (Inr bs, _, inp') \<Rightarrow>
             if bs = [] then (Err UnexpectedEof, filled @ buf, inp')
             else std_read_exact_loop (filled @ bs) (drop (length bs) buf) inp'
         | (Inl e, _, inp') \<Rightarrow>
             if e = Interrupted then std_read_exact_loop filled buf inp'
             else (Err e, filled @ buf, inp')))"
  by pat_completeness auto
termination
  by (relation "measure (\<lambda>(filled, buf, inp). length inp + length buf)")
    (auto dest: reader_read_progress)

declare std_read_exact_loop.simps [simp del]

definition std_read_exact ::
  "bytes \<Rightarrow> in_stream \<Rightarrow> (error_kind, unit) outcome \<times> bytes \<times> in_stream" where
  "std_read_exact buf inp = std_read_exact_loop [] buf inp"

lemma writer_write_progress:
  "(Inl e, w') = writer_write buf w \<Longrightarrow> length (wscript w') < length (wscript w)"
  "(Inr n, w') = writer_write buf w \<Longrightarrow> buf \<noteq> [] \<Longrightarrow> 0 < n \<Longrightarrow>
     length (wscript w') + (length buf - n) < length (wscript w) + length buf"
  by (auto simp: writer_write_def split: list.splits write_event.splits)

function write_all :: "bytes \<Rightarrow> out_stream \<Rightarrow> (error_kind, unit) outcome \<times> out_stream" where
  "write_all buf w =
     (if buf = [] then (Ok (), w)
      else
        (case writer_write buf w of
           (Inr n, w') \<Rightarrow> if n = 0 then (Err WriteZero, w') else write_all (drop n buf) w'
         | (Inl e, w') \<Rightarrow> if e = Interrupted then write_all buf w' else (Err e, w')))"
  by pat_completeness auto
termination
  by (relation "measure (\<lambda>(buf, w). length (wscript w) + length buf)")
    (auto dest: writer_write_progress)

declare write_all.simps [simp del]

section \<open>\<open>random.rs\<close>\<close>

text \<open>
  \<open>/dev/urandom\<close> is what \<open>File::open\<close> gives: an error, or a reader.
\<close>

definition get_random_vec :: "error_kind + in_stream \<Rightarrow> usize \<Rightarrow> (error_kind, bytes) outcome" where
  "get_random_vec urandom n =
     (case urandom of
        Inl e \<Rightarrow> Err e
      | Inr rd \<Rightarrow>
          (case std_read_exact (replicate n 0) rd of
             (Ok _, data, _) \<Rightarrow> Ok data
           | (Err e, _, _) \<Rightarrow> Err e
           | (Panic, _, _) \<Rightarrow> Panic))"

definition get_random_u8 :: "error_kind + in_stream \<Rightarrow> (error_kind, u8) outcome" where
  "get_random_u8 urandom =
     bind_outcome (get_random_vec urandom 1)
       (\<lambda>data. case data of [] \<Rightarrow> Panic | x # _ \<Rightarrow> Ok x)"

section \<open>The contract of an exact reader\<close>

locale exact_reader =
  fixes rd :: "bytes \<Rightarrow> 's \<Rightarrow> (error_kind, unit) outcome \<times> bytes \<times> 's"
    and content :: "'s \<Rightarrow> bytes"
    and ending :: "'s \<Rightarrow> error_kind"
  assumes rd_enough: "length buf \<le> length (content s) \<Longrightarrow>
      \<exists>s'. rd buf s = (Ok (), take (length buf) (content s), s') \<and>
        content s' = drop (length buf) (content s) \<and> ending s' = ending s"
    and rd_short: "length (content s) < length buf \<Longrightarrow> \<exists>b s'. rd buf s = (Err (ending s), b, s')"

text \<open>
  What a script holds for a reader that retries the failures selected by \<open>retry\<close>: the bytes
  up to the event that ends the stream, and the error that event is reported as.
\<close>

fun flow :: "(error_kind \<Rightarrow> bool \<Rightarrow> bool) \<Rightarrow> in_stream \<Rightarrow> bytes" where
  "flow retry [] = []"
| "flow retry (Bytes bs # r) = (if bs = [] then [] else bs @ flow retry r)"
| "flow retry (Fails k stop # r) = (if retry k stop then flow retry r else [])"

fun flow_end ::
  "(error_kind \<Rightarrow> bool \<Rightarrow> bool) \<Rightarrow> (error_kind \<Rightarrow> error_kind) \<Rightarrow> in_stream \<Rightarrow> error_kind" where
  "flow_end retry report [] = UnexpectedEof"
| "flow_end retry report (Bytes bs # r) =
     (if bs = [] then UnexpectedEof else flow_end retry report r)"
| "flow_end retry report (Fails k stop # r) =
     (if retry k stop then flow_end retry report r else report k)"

lemma reader_read_flow:
  assumes "reader_read n inp = (Inr bs, stop, inp')" "bs \<noteq> []" "0 < n"
  shows "flow retry inp = bs @ flow retry inp' \<and> length bs \<le> n \<and>
    flow_end retry report inp' = flow_end retry report inp"
  using assms by (cases "(n, inp)" rule: reader_read.cases) (auto split: if_splits)

lemma reader_read_eof:
  assumes "reader_read n inp = (Inr [], stop, inp')" "0 < n"
  shows "flow retry inp = [] \<and> flow_end retry report inp = UnexpectedEof"
  using assms by (cases "(n, inp)" rule: reader_read.cases) (auto split: if_splits)

lemma reader_read_fails:
  assumes "reader_read n inp = (Inl k, stop, inp')"
  shows "inp = Fails k stop # inp'"
  using assms by (cases "(n, inp)" rule: reader_read.cases) (auto split: if_splits)


text \<open>
  A loop around \<open>read\<close> that fills a buffer, retries the failures selected by \<open>retry\<close> and
  reports the others through \<open>report\<close>. Both \<open>read_exact\<close> functions are such loops, and such
  a loop is an exact reader.
\<close>

locale retry_loop =
  fixes loop :: "bytes \<Rightarrow> bytes \<Rightarrow> in_stream \<Rightarrow> (error_kind, unit) outcome \<times> bytes \<times> in_stream"
    and retry :: "error_kind \<Rightarrow> bool \<Rightarrow> bool"
    and report :: "error_kind \<Rightarrow> error_kind"
  assumes loop_unfold: "loop filled buf inp =
     (if buf = [] then (Ok (), filled, inp)
      else
        (case reader_read (length buf) inp of
           (Inr bs, _, inp') \<Rightarrow>
             if bs = [] then (Err UnexpectedEof, filled @ buf, inp')
             else loop (filled @ bs) (drop (length bs) buf) inp'
         | (Inl e, stop, inp') \<Rightarrow>
             if retry e stop then loop filled buf inp' else (Err (report e), filled @ buf, inp')))"
begin

lemma loop_Fails:
  "buf \<noteq> [] \<Longrightarrow> loop filled buf (Fails k stop # r) =
     (if retry k stop then loop filled buf r else (Err (report k), filled @ buf, r))"
  by (simp add: loop_unfold [of filled buf "Fails k stop # r"])

lemma loop_enough:
  "length buf \<le> length (flow retry inp) \<Longrightarrow>
   \<exists>inp'. loop filled buf inp = (Ok (), filled @ take (length buf) (flow retry inp), inp') \<and>
     flow retry inp' = drop (length buf) (flow retry inp) \<and>
     flow_end retry report inp' = flow_end retry report inp"
proof (induction "length inp + length buf" arbitrary: filled buf inp rule: less_induct)
  case less
  obtain res stop inp' where r: "reader_read (length buf) inp = (res, stop, inp')"
    by (metis prod_cases3)
  show ?case
  proof (cases "buf = []")
    case True
    then show ?thesis by (simp add: loop_unfold)
  next
    case False
    show ?thesis
    proof (cases res)
      case (Inl k)
      then show ?thesis
        using less False r reader_read_fails [of "length buf" inp k stop inp']
        by (auto simp: loop_Fails split: if_splits)
    next
      case (Inr bs)
      then have "bs \<noteq> []" using less.prems False r reader_read_eof by fastforce
      then have fl: "flow retry inp = bs @ flow retry inp'" "length bs \<le> length buf"
          "flow_end retry report inp' = flow_end retry report inp"
        using r Inr False reader_read_flow by auto
      have "\<exists>inp''. loop (filled @ bs) (drop (length bs) buf) inp' =
          (Ok (), (filled @ bs) @ take (length (drop (length bs) buf)) (flow retry inp'), inp'') \<and>
        flow retry inp'' = drop (length (drop (length bs) buf)) (flow retry inp') \<and>
        flow_end retry report inp'' = flow_end retry report inp'"
        using less.prems fl reader_read_progress(2) [OF r [symmetric, unfolded Inr]] False \<open>bs \<noteq> []\<close>
        by (intro less.hyps) auto
      then show ?thesis using fl r Inr False \<open>bs \<noteq> []\<close>
        by (simp add: loop_unfold [of filled buf inp])
    qed
  qed
qed

lemma loop_short:
  "length (flow retry inp) < length buf \<Longrightarrow>
   \<exists>b inp'. loop filled buf inp = (Err (flow_end retry report inp), b, inp')"
proof (induction "length inp + length buf" arbitrary: filled buf inp rule: less_induct)
  case less
  obtain res stop inp' where r: "reader_read (length buf) inp = (res, stop, inp')"
    by (metis prod_cases3)
  have ne: "buf \<noteq> []" using less.prems by auto
  show ?case
  proof (cases res)
    case (Inl k)
    then show ?thesis
      using less ne r reader_read_fails [of "length buf" inp k stop inp']
      by (auto simp: loop_Fails split: if_splits)
  next
    case (Inr bs)
    show ?thesis
    proof (cases "bs = []")
      case True
      then show ?thesis using r Inr ne reader_read_eof [of "length buf" inp stop inp' retry report]
        by (simp add: loop_unfold [of filled buf inp])
    next
      case False
      then have fl: "flow retry inp = bs @ flow retry inp'" "length bs \<le> length buf"
          "flow_end retry report inp' = flow_end retry report inp"
        using r Inr ne reader_read_flow by auto
      have "\<exists>b inp''. loop (filled @ bs) (drop (length bs) buf) inp' =
          (Err (flow_end retry report inp'), b, inp'')"
        using less.prems fl reader_read_progress(2) [OF r [symmetric, unfolded Inr]] False ne by (intro less.hyps) auto
      then show ?thesis using fl r Inr False ne by (simp add: loop_unfold [of filled buf inp])
    qed
  qed
qed

end

sublocale retry_loop \<subseteq> exact: exact_reader "loop []" "flow retry" "flow_end retry report"
  using loop_enough [where filled = "[]"] loop_short [where filled = "[]"] by unfold_locales simp_all

abbreviation codec_retry :: "error_kind \<Rightarrow> bool \<Rightarrow> bool" where
  "codec_retry k stop \<equiv> retryable k \<and> \<not> stop"

abbreviation codec_report :: "error_kind \<Rightarrow> error_kind" where
  "codec_report k \<equiv> if retryable k then Interrupted else k"

abbreviation std_retry :: "error_kind \<Rightarrow> bool \<Rightarrow> bool" where
  "std_retry k stop \<equiv> k = Interrupted"

interpretation codec_rd: retry_loop read_exact_loop codec_retry codec_report
  by unfold_locales (subst read_exact_loop.simps, auto split: sum.splits prod.splits)

interpretation std_rd: retry_loop std_read_exact_loop std_retry "\<lambda>k. k"
  by unfold_locales (subst std_read_exact_loop.simps, auto split: sum.splits prod.splits)


lemmas read_exact_enough = codec_rd.exact.rd_enough [folded read_exact_def]
lemmas read_exact_short = codec_rd.exact.rd_short [folded read_exact_def]
lemmas std_read_exact_enough = std_rd.exact.rd_enough [folded std_read_exact_def]
lemmas std_read_exact_short = std_rd.exact.rd_short [folded std_read_exact_def]

interpretation codec_reader:
  exact_reader read_exact "flow codec_retry" "flow_end codec_retry codec_report"
  using read_exact_enough read_exact_short by unfold_locales

interpretation std_reader: exact_reader std_read_exact "flow std_retry" "flow_end std_retry (\<lambda>k. k)"
  using std_read_exact_enough std_read_exact_short by unfold_locales

section \<open>Writing\<close>

lemma writer_write_written:
  "writer_write buf w = (Inr n, w') \<Longrightarrow> written w' = written w @ take n buf"
  "writer_write buf w = (Inl e, w') \<Longrightarrow> written w' = written w"
  by (auto simp: writer_write_def written_def split: list.splits write_event.splits)

lemma write_all_Nil [simp]: "write_all [] w = (Ok (), w)"
  by (simp add: write_all.simps)

lemma write_all_written:
  "\<exists>k. written (snd (write_all buf w)) = written w @ take k buf \<and>
       (fst (write_all buf w) = Ok () \<longrightarrow> take k buf = buf)"
proof (induction buf w rule: write_all.induct)
  case (1 buf w)
  obtain res w' where r: "writer_write buf w = (res, w')" by (metis surj_pair)
  show ?case
  proof (cases "buf = []")
    case False
    show ?thesis
    proof (cases res)
      case (Inl e)
      then show ?thesis using 1 False r writer_write_written(2) [of buf w e w']
        by (auto simp: write_all.simps [of buf w] intro: exI [of _ 0])
    next
      case (Inr n)
      have wr: "written w' = written w @ take n buf" using r Inr writer_write_written by simp
      show ?thesis
      proof (cases "n = 0")
        case True
        then show ?thesis using False r Inr wr
          by (auto simp: write_all.simps [of buf w] intro: exI [of _ 0])
      next
        case n: False
        then obtain k where k: "written (snd (write_all (drop n buf) w')) = written w' @ take k (drop n buf)"
            "fst (write_all (drop n buf) w') = Ok () \<longrightarrow> take k (drop n buf) = drop n buf"
          using "1.IH"(2) [OF False r [symmetric] Inr n] by blast
        then show ?thesis using False r Inr wr n
          by (auto simp: write_all.simps [of buf w] take_add intro!: exI [of _ "n + k"])
      qed
    qed
  qed simp
qed

text \<open>A writer that takes something in every call, or reports an interrupt.\<close>

fun takes_some :: "write_event \<Rightarrow> bool" where
  "takes_some (Accepts n) = (0 < n)"
| "takes_some (Refuses k) = (k = Interrupted)"

definition benign :: "out_stream \<Rightarrow> bool" where
  "benign w \<longleftrightarrow> list_all takes_some (wscript w)"

lemma write_all_benign:
  "benign w \<Longrightarrow> fst (write_all buf w) = Ok () \<and> benign (snd (write_all buf w))"
proof (induction buf w rule: write_all.induct)
  case (1 buf w)
  obtain res w' where r: "writer_write buf w = (res, w')" by (metis surj_pair)
  show ?case
  proof (cases "buf = []")
    case False
    have "benign w' \<and> (case res of Inl e \<Rightarrow> e = Interrupted | Inr n \<Rightarrow> 0 < n)"
      using r 1(3) False by (auto simp: writer_write_def benign_def split: list.splits write_event.splits)
    then show ?thesis using 1 False r
      by (cases res) (auto simp: write_all.simps [of buf w])
  qed (simp add: 1)
qed

lemma get_random_u8_eq:
  "get_random_u8 urandom =
     (case urandom of
        Inl e \<Rightarrow> Err e
      | Inr f \<Rightarrow> (case flow std_retry f of
                      [] \<Rightarrow> Err (flow_end std_retry (\<lambda>k. k) f)
                    | x # _ \<Rightarrow> Ok x))"
proof (cases urandom)
  case (Inr f)
  show ?thesis
  proof (cases "flow std_retry f")
    case Nil
    then obtain b r where "std_read_exact [0] f = (Err (flow_end std_retry (\<lambda>k. k) f), b, r)"
      using std_reader.rd_short [of f "[0]"] by fastforce
    then show ?thesis using Inr Nil by (simp add: get_random_u8_def get_random_vec_def)
  next
    case (Cons x xs)
    then obtain r where "std_read_exact [0] f = (Ok (), [x], r)"
      using std_reader.rd_enough [of "[0]" f] by fastforce
    then show ?thesis using Inr Cons by (simp add: get_random_u8_def get_random_vec_def)
  qed
qed (simp add: get_random_u8_def get_random_vec_def)

lemma random_byte [simp]: "get_random_u8 (Inr [Bytes (i # bs)]) = Ok i"
  by (simp add: get_random_u8_eq)

section \<open>Properties\<close>

text \<open>
  C31. \<open>read_exact\<close> delivers exactly the next bytes of the stream, whatever the sizes of the single
  reads and however often it is interrupted, and leaves the rest for the next call. When the
  stream ends before the buffer is full, the whole read fails with the reason of that end:
  \<open>UnexpectedEof\<close>, \<open>Interrupted\<close> when an interrupt or timeout finds the stop flag set, or the
  error itself. It always returns.
\<close>

theorem read_exact_behaviour:
  "if length buf \<le> length (flow codec_retry inp)
   then \<exists>inp'. read_exact buf inp = (Ok (), take (length buf) (flow codec_retry inp), inp') \<and>
          flow codec_retry inp' = drop (length buf) (flow codec_retry inp) \<and>
          flow_end codec_retry codec_report inp' = flow_end codec_retry codec_report inp
   else \<exists>b inp'. read_exact buf inp = (Err (flow_end codec_retry codec_report inp), b, inp')"
  using codec_reader.rd_enough codec_reader.rd_short by simp

text \<open>
  The initial block id: if the entropy source opens and yields a byte, that byte; otherwise the
  error of the open or of the read. The index \<open>data[0]\<close> is never out of range.
\<close>

lemma get_random_u8_behaviour:
  "get_random_u8 urandom =
     (case urandom of
        Inl e \<Rightarrow> Err e
      | Inr f \<Rightarrow> (case flow std_retry f of
                      [] \<Rightarrow> Err (flow_end std_retry (\<lambda>k. k) f)
                    | x # _ \<Rightarrow> Ok x))"
  by (rule get_random_u8_eq)

end
