(* ===== verification/Pipeline.thy ===== *)
theory Pipeline
  imports Garuda_Prelude
begin

text \<open>
  The threads that \<open>Encoder::start_encoding\<close> and \<open>Decoder::start_decoding\<close> start have the
  same shape, which this theory models as a labelled step relation: a dispatcher that sends
  items to the bounded queues of the workers, workers that turn each item into a list of
  messages and send these to one bounded queue, and a forwarder that writes them out. The
  program of each thread is a parameter (the record \<open>machine\<close>); the encoder and the decoder
  instantiate it.

  A channel is a list of at most \<open>QUEUE_CAP\<close> messages. Sending to a full channel blocks, so
  the step is not enabled; sending to a receiver that has ended fails, and the sending thread
  ends; receiving from an empty channel ends the thread once every sender has ended.

  Shown here, for every schedule: the channels stay bounded, no message is lost, duplicated,
  altered or reordered within a worker, there is no deadlock, and every run ends.
\<close>

section \<open>Machines and their states\<close>

text \<open>The argument of \<open>sync_channel\<close> in \<open>encoder.rs\<close> and \<open>decoder.rs\<close>.\<close>

definition QUEUE_CAP :: nat where
  "QUEUE_CAP = 10"

text \<open>
  One round of the dispatcher: an item for the queue of worker \<open>j\<close>, or the end of its loop.
\<close>

datatype ('a, 'd, 'r) dispatch_step = Emit nat 'a 'd | Stop 'r

record ('d, 'a, 'w, 'b, 'f, 'r) machine =
  m_next :: "'d \<Rightarrow> ('a, 'd, 'r) dispatch_step"
  m_refused :: "'a \<Rightarrow> 'r"
  m_work :: "'w \<Rightarrow> 'a \<Rightarrow> 'b list \<times> 'w option"
  m_write :: "'f \<Rightarrow> 'b \<Rightarrow> bool \<times> 'f"

text \<open>
  A worker waits for an item, or still has messages to send (and afterwards goes on, or ends
  because of an error), or has ended.
\<close>

datatype ('w, 'b) phase = Idle 'w | Sending "'b list" "'w option" | Ended

record ('d, 'a, 'w, 'b, 'f, 'r) pstate =
  dispatcher :: "'d + 'r"
  cells :: "('a list \<times> ('w, 'b) phase) list"
  shared :: "'b list"
  forwarder :: 'f
  forwarding :: bool

datatype ('a, 'b) label = Dispatched nat 'a | Pushed nat 'b | Written 'b | Internal

inductive pstep ::
  "('d, 'a, 'w, 'b, 'f, 'r) machine \<Rightarrow> ('a, 'b) label \<Rightarrow>
   ('d, 'a, 'w, 'b, 'f, 'r) pstate \<Rightarrow> ('d, 'a, 'w, 'b, 'f, 'r) pstate \<Rightarrow> bool" for M where
  dispatch_send:
    "\<lbrakk>dispatcher s = Inl d; m_next M d = Emit j x d'; j < length (cells s);
      cells s ! j = (q, ph); ph \<noteq> Ended; length q < QUEUE_CAP\<rbrakk> \<Longrightarrow>
     pstep M (Dispatched j x) s (s\<lparr>dispatcher := Inl d', cells := (cells s)[j := (q @ [x], ph)]\<rparr>)"
| dispatch_refused:
    "\<lbrakk>dispatcher s = Inl d; m_next M d = Emit j x d'; j < length (cells s);
      cells s ! j = (q, Ended)\<rbrakk> \<Longrightarrow>
     pstep M Internal s (s\<lparr>dispatcher := Inr (m_refused M x)\<rparr>)"
| dispatch_stop:
    "\<lbrakk>dispatcher s = Inl d; m_next M d = Stop r\<rbrakk> \<Longrightarrow>
     pstep M Internal s (s\<lparr>dispatcher := Inr r\<rparr>)"
| worker_take:
    "\<lbrakk>j < length (cells s); cells s ! j = (x # q, Idle w); m_work M w x = (ys, k)\<rbrakk> \<Longrightarrow>
     pstep M Internal s (s\<lparr>cells := (cells s)[j := (q, Sending ys k)]\<rparr>)"
| worker_end:
    "\<lbrakk>j < length (cells s); cells s ! j = ([], Idle w); dispatcher s = Inr r\<rbrakk> \<Longrightarrow>
     pstep M Internal s (s\<lparr>cells := (cells s)[j := ([], Ended)]\<rparr>)"
| worker_push:
    "\<lbrakk>j < length (cells s); cells s ! j = (q, Sending (y # ys) k); forwarding s;
      length (shared s) < QUEUE_CAP\<rbrakk> \<Longrightarrow>
     pstep M (Pushed j y) s
       (s\<lparr>cells := (cells s)[j := (q, Sending ys k)], shared := shared s @ [y]\<rparr>)"
| worker_refused:
    "\<lbrakk>j < length (cells s); cells s ! j = (q, Sending (y # ys) k); \<not> forwarding s\<rbrakk> \<Longrightarrow>
     pstep M Internal s (s\<lparr>cells := (cells s)[j := (q, Ended)]\<rparr>)"
| worker_next:
    "\<lbrakk>j < length (cells s); cells s ! j = (q, Sending [] k)\<rbrakk> \<Longrightarrow>
     pstep M Internal s
       (s\<lparr>cells := (cells s)[j := (q, case k of None \<Rightarrow> Ended | Some w \<Rightarrow> Idle w)]\<rparr>)"
| forward_write:
    "\<lbrakk>forwarding s; shared s = y # ys; m_write M (forwarder s) y = (ok, f)\<rbrakk> \<Longrightarrow>
     pstep M (Written y) s (s\<lparr>shared := ys, forwarder := f, forwarding := ok\<rparr>)"
| forward_end:
    "\<lbrakk>forwarding s; shared s = []; \<forall>c \<in> set (cells s). snd c = Ended\<rbrakk> \<Longrightarrow>
     pstep M Internal s (s\<lparr>forwarding := False\<rparr>)"

text \<open>Runs, with the labels of their steps.\<close>

inductive psteps ::
  "('d, 'a, 'w, 'b, 'f, 'r) machine \<Rightarrow> ('a, 'b) label list \<Rightarrow>
   ('d, 'a, 'w, 'b, 'f, 'r) pstate \<Rightarrow> ('d, 'a, 'w, 'b, 'f, 'r) pstate \<Rightarrow> bool" for M where
  psteps_refl: "psteps M [] s s"
| psteps_step: "\<lbrakk>pstep M l s t; psteps M ls t u\<rbrakk> \<Longrightarrow> psteps M (l # ls) s u"

inductive_cases pstep_cases: "pstep M l s t"

text \<open>What \<open>start_encoding\<close> and \<open>start_decoding\<close> set up, and when all threads have ended.\<close>

definition pinit :: "'d \<Rightarrow> 'w list \<Rightarrow> 'f \<Rightarrow> ('d, 'a, 'w, 'b, 'f, 'r) pstate" where
  "pinit d ws f =
     \<lparr>dispatcher = Inl d, cells = map (\<lambda>w. ([], Idle w)) ws, shared = [], forwarder = f,
      forwarding = True\<rparr>"

definition all_ended :: "('d, 'a, 'w, 'b, 'f, 'r) pstate \<Rightarrow> bool" where
  "all_ended s \<longleftrightarrow>
     (\<exists>r. dispatcher s = Inr r) \<and> (\<forall>c \<in> set (cells s). snd c = Ended) \<and> \<not> forwarding s"

section \<open>Reference semantics\<close>

text \<open>What the dispatcher emits on its own, until it stops.\<close>

inductive emits ::
  "('d, 'a, 'w, 'b, 'f, 'r) machine \<Rightarrow> 'd \<Rightarrow> (nat \<times> 'a) list \<Rightarrow> 'r \<Rightarrow> bool" for M where
  emits_Stop: "m_next M d = Stop r \<Longrightarrow> emits M d [] r"
| emits_Emit: "\<lbrakk>m_next M d = Emit j x d'; emits M d' xs r\<rbrakk> \<Longrightarrow> emits M d ((j, x) # xs) r"

inductive_cases emits_cases: "emits M d xs r"

text \<open>What a worker makes of a list of items, and what the forwarder makes of messages.\<close>

fun outs :: "('d, 'a, 'w, 'b, 'f, 'r) machine \<Rightarrow> 'w \<Rightarrow> 'a list \<Rightarrow> 'b list" where
  "outs M w [] = []"
| "outs M w (x # xs) =
     (case m_work M w x of (ys, k) \<Rightarrow> ys @ (case k of None \<Rightarrow> [] | Some w' \<Rightarrow> outs M w' xs))"

definition routed :: "(nat \<times> 'a) list \<Rightarrow> nat \<Rightarrow> 'a list" where
  "routed xs j = map snd (filter (\<lambda>p. fst p = j) xs)"

fun pushed_by :: "nat \<Rightarrow> ('a, 'b) label \<Rightarrow> 'b list" where
  "pushed_by j (Pushed i y) = (if i = j then [y] else [])"
| "pushed_by j _ = []"

fun pushed :: "('a, 'b) label \<Rightarrow> 'b list" where
  "pushed (Pushed i y) = [y]"
| "pushed _ = []"

fun written_msg :: "('a, 'b) label \<Rightarrow> 'b list" where
  "written_msg (Written y) = [y]"
| "written_msg _ = []"

section \<open>The messages still to come\<close>

text \<open>
  \<open>backlog\<close> is what the dispatcher will still emit if nobody stops it, and \<open>future j\<close> what
  worker \<open>j\<close> will still push.
\<close>

definition backlog ::
  "('d, 'a, 'w, 'b, 'f, 'r) machine \<Rightarrow> ('d, 'a, 'w, 'b, 'f, 'r) pstate \<Rightarrow> (nat \<times> 'a) list \<Rightarrow> bool" where
  "backlog M s xs \<longleftrightarrow>
     (case dispatcher s of Inl d \<Rightarrow> (\<exists>r. emits M d xs r) | Inr r \<Rightarrow> xs = [])"

definition future ::
  "('d, 'a, 'w, 'b, 'f, 'r) machine \<Rightarrow> (nat \<times> 'a) list \<Rightarrow> ('d, 'a, 'w, 'b, 'f, 'r) pstate \<Rightarrow>
   nat \<Rightarrow> 'b list" where
  "future M xs s j =
     (case cells s ! j of (q, ph) \<Rightarrow>
        (case ph of
           Idle w \<Rightarrow> outs M w (q @ routed xs j)
         | Sending ys k \<Rightarrow> ys @ (case k of None \<Rightarrow> [] | Some w \<Rightarrow> outs M w (q @ routed xs j))
         | Ended \<Rightarrow> []))"

lemma routed_simps [simp]:
  "routed [] j = []" "routed ((i, x) # xs) j = (if i = j then x # routed xs j else routed xs j)"
  by (simp_all add: routed_def)

lemma outs_prefix: "prefix (outs M w xs) (outs M w (xs @ ys))"
  by (induction xs arbitrary: w) (auto split: prod.splits option.splits)

lemma future_cut: "prefix (future M [] s j) (future M xs s j)"
  unfolding future_def using outs_prefix by (auto split: prod.splits phase.splits option.splits)

lemma future_dispatcher [simp]: "future M xs (s\<lparr>dispatcher := d\<rparr>) j = future M xs s j"
  "future M xs (s\<lparr>shared := b\<rparr>) j = future M xs s j"
  "future M xs (s\<lparr>forwarder := f\<rparr>) j = future M xs s j"
  "future M xs (s\<lparr>forwarding := r\<rparr>) j = future M xs s j"
  by (simp_all add: future_def)

lemma future_other [simp]:
  "i \<noteq> j \<Longrightarrow> future M xs (s\<lparr>cells := (cells s)[i := c]\<rparr>) j = future M xs s j"
  by (simp add: future_def)

lemma backlog_Emit:
  assumes "backlog M s xs" "dispatcher s = Inl d" "m_next M d = Emit j x d'"
  obtains ys where "xs = (j, x) # ys" "\<exists>r. emits M d' ys r"
proof -
  obtain r where "emits M d xs r" using assms by (auto simp: backlog_def)
  then show ?thesis using assms(3) that by (cases rule: emits.cases) auto
qed

text \<open>The weight of a state, which every step lowers.\<close>

fun phase_weight :: "('w, 'b) phase \<Rightarrow> nat" where
  "phase_weight (Idle w) = 1"
| "phase_weight (Sending ys k) = 2"
| "phase_weight Ended = 0"

definition cell_weight ::
  "('d, 'a, 'w, 'b, 'f, 'r) machine \<Rightarrow> (nat \<times> 'a) list \<Rightarrow> ('d, 'a, 'w, 'b, 'f, 'r) pstate \<Rightarrow> nat \<Rightarrow> nat" where
  "cell_weight M xs s j =
     2 * length (future M xs s j) + 2 * length (fst (cells s ! j)) + phase_weight (snd (cells s ! j))"

definition weight ::
  "('d, 'a, 'w, 'b, 'f, 'r) machine \<Rightarrow> (nat \<times> 'a) list \<Rightarrow> ('d, 'a, 'w, 'b, 'f, 'r) pstate \<Rightarrow> nat" where
  "weight M xs s =
     3 * length xs + (case dispatcher s of Inl _ \<Rightarrow> 1 | Inr _ \<Rightarrow> 0) +
     (\<Sum>j<length (cells s). cell_weight M xs s j) + length (shared s) + (if forwarding s then 1 else 0)"

lemma sum_change_one:
  fixes f g :: "nat \<Rightarrow> nat"
  assumes "k < n" "\<And>j. j \<noteq> k \<Longrightarrow> g j = f j"
  shows "(\<Sum>j<n. g j) + f k = (\<Sum>j<n. f j) + g k"
proof -
  have "(\<Sum>j<n. g j) = g k + (\<Sum>j\<in>{..<n} - {k}. g j)" "(\<Sum>j<n. f j) = f k + (\<Sum>j\<in>{..<n} - {k}. f j)"
    using assms(1) by (auto intro: sum.remove)
  moreover have "(\<Sum>j\<in>{..<n} - {k}. g j) = (\<Sum>j\<in>{..<n} - {k}. f j)"
    using assms(2) by (intro sum.cong) auto
  ultimately show ?thesis by simp
qed

text \<open>A step that changes only cell \<open>j\<close> and lowers its weight lowers the weight of the state.\<close>

lemma cell_step_weight:
  assumes "j < length (cells s)" "t = s\<lparr>cells := (cells s)[j := c]\<rparr>"
    and "cell_weight M xs t j < cell_weight M xs s j"
  shows "weight M xs t < weight M xs s"
proof -
  have "cell_weight M xs t i = cell_weight M xs s i" if "i \<noteq> j" for i
    using that assms(2) by (simp add: cell_weight_def)
  then have "(\<Sum>i<length (cells s). cell_weight M xs t i) + cell_weight M xs s j =
      (\<Sum>i<length (cells s). cell_weight M xs s i) + cell_weight M xs t j"
    using sum_change_one [OF assms(1)] by blast
  then show ?thesis using assms by (simp add: weight_def)
qed

lemma weight_cut:
  assumes "dispatcher s = Inl d"
  shows "weight M [] (s\<lparr>dispatcher := Inr r\<rparr>) < weight M xs s"
proof -
  have "cell_weight M [] (s\<lparr>dispatcher := Inr r\<rparr>) j \<le> cell_weight M xs s j" for j
    using future_cut [of M s j xs] by (simp add: cell_weight_def prefix_length_le)
  then have "(\<Sum>j<length (cells s). cell_weight M [] (s\<lparr>dispatcher := Inr r\<rparr>) j) \<le>
      (\<Sum>j<length (cells s). cell_weight M xs s j)"
    by (rule sum_mono)
  then show ?thesis using assms by (simp add: weight_def)
qed

text \<open>
  What of the items is left to emit after a step. The dispatcher has taken the first one when the
  step is labelled with it, and gives up all of them when it ends.
\<close>

definition left_over ::
  "('a, 'b) label \<Rightarrow> ('d, 'a, 'w, 'b, 'f, 'r) pstate \<Rightarrow> (nat \<times> 'a) list \<Rightarrow> (nat \<times> 'a) list" where
  "left_over l t xs =
     (case dispatcher t of Inr _ \<Rightarrow> [] | Inl _ \<Rightarrow> (case l of Dispatched j x \<Rightarrow> tl xs | _ \<Rightarrow> xs))"

lemma left_over_same:
  "\<lbrakk>backlog M s xs; dispatcher t = dispatcher s; \<And>j x. l \<noteq> Dispatched j x\<rbrakk> \<Longrightarrow> left_over l t xs = xs"
  by (auto simp: left_over_def backlog_def split: sum.splits label.splits)

lemma left_over_end [simp]: "dispatcher t = Inr r \<Longrightarrow> left_over l t xs = []"
  by (simp add: left_over_def)

lemma pstep_sent:
  assumes "backlog M s xs" "dispatcher s = Inl d" "m_next M d = Emit j x d'" "dispatcher t = Inl d'"
  obtains ys where "xs = (j, x) # ys" "left_over (Dispatched j x) t xs = ys" "backlog M t ys"
proof -
  obtain ys where "xs = (j, x) # ys" "\<exists>r. emits M d' ys r" by (rule backlog_Emit [OF assms(1-3)])
  then show ?thesis using assms(4) that by (simp add: left_over_def backlog_def)
qed

lemma future_sent:
  assumes "i < length (cells s)" "cells s ! i = (q, ph)"
  shows "future M ys (s\<lparr>dispatcher := d, cells := (cells s)[i := (q @ [x], ph)]\<rparr>) j = future M ((i, x) # ys) s j"
  using assms by (cases "i = j") (auto simp: future_def split: prod.splits phase.splits option.splits)

lemma pstep_backlog:
  assumes "pstep M l s t" "backlog M s xs"
  shows "backlog M t (left_over l t xs)" "suffix (left_over l t xs) xs"
proof -
  have "backlog M t (left_over l t xs) \<and> suffix (left_over l t xs) xs"
    using assms(1)
  proof (cases rule: pstep.cases)
    case (dispatch_send d j x d' q ph)
    then have "dispatcher t = Inl d'" by simp
    then obtain ys where "xs = (j, x) # ys" "left_over (Dispatched j x) t xs = ys" "backlog M t ys"
      by (rule pstep_sent [OF assms(2) dispatch_send(3,4)])
    then show ?thesis using dispatch_send(1) by (simp add: suffix_ConsI)
  qed (use assms(2) in \<open>simp_all add: backlog_def left_over_same [OF assms(2)]\<close>)
  then show "backlog M t (left_over l t xs)" "suffix (left_over l t xs) xs" by simp_all
qed

text \<open>
  Nothing has failed: a worker has ended only after the dispatcher, the forwarder only after the
  workers.
\<close>

definition intact :: "('d, 'a, 'w, 'b, 'f, 'r) pstate \<Rightarrow> bool" where
  "intact s \<longleftrightarrow>
     (\<forall>c \<in> set (cells s). snd c = Ended \<longrightarrow> (\<exists>r. dispatcher s = Inr r)) \<and>
     (\<not> forwarding s \<longrightarrow> (\<forall>c \<in> set (cells s). snd c = Ended))"

text \<open>
  One step: what is pushed comes out of the future of that worker, and no future grows; as long as
  nothing has failed, none shrinks either.
\<close>

lemma pstep_future:
  assumes "pstep M l s t" "backlog M s xs"
  shows "prefix (pushed_by j l @ future M (left_over l t xs) t j) (future M xs s j)"
    and "intact s \<Longrightarrow> pushed_by j l @ future M (left_over l t xs) t j = future M xs s j"
proof -
  have "prefix (pushed_by j l @ future M (left_over l t xs) t j) (future M xs s j) \<and>
      (intact s \<longrightarrow> pushed_by j l @ future M (left_over l t xs) t j = future M xs s j)"
    using assms(1)
  proof (cases rule: pstep.cases)
    case (dispatch_send d i x d' q ph)
    then have "dispatcher t = Inl d'" by simp
    then obtain ys where "xs = (i, x) # ys" "left_over (Dispatched i x) t xs = ys"
      by (rule pstep_sent [OF assms(2) dispatch_send(3,4)])
    then show ?thesis using dispatch_send future_sent [OF dispatch_send(5,6)] by simp
  next
    case (dispatch_refused d i x d' q)
    have "(q, Ended) \<in> set (cells s)" using dispatch_refused(5,6) by (metis nth_mem)
    then have "\<not> intact s" using dispatch_refused(3) by (force simp: intact_def)
    then show ?thesis using dispatch_refused future_cut [of M s j xs] by simp
  next
    case (dispatch_stop d r)
    then have "xs = []" using assms(2) by (auto simp: backlog_def elim: emits_cases)
    then show ?thesis using dispatch_stop by simp
  next
    case (worker_refused i q y ys k)
    have "(q, Sending (y # ys) k) \<in> set (cells s)" using worker_refused(3,4) by (metis nth_mem)
    then have "\<not> intact s" using worker_refused(5) by (force simp: intact_def)
    then show ?thesis
      using worker_refused by (cases "i = j") (simp_all add: left_over_same [OF assms(2)] future_def)
  next
    case (worker_end i w r)
    then show ?thesis
      using assms(2) by (cases "i = j") (simp_all add: left_over_same [OF assms(2)] future_def backlog_def)
  next
    case (worker_take i x q w ys k)
    then show ?thesis by (cases "i = j") (simp_all add: left_over_same [OF assms(2)] future_def)
  next
    case (worker_push i q y ys k)
    then show ?thesis by (cases "i = j") (simp_all add: left_over_same [OF assms(2)] future_def)
  next
    case (worker_next i q k)
    then show ?thesis
      by (cases "i = j") (auto simp: left_over_same [OF assms(2)] future_def split: option.splits)
  qed (simp_all add: left_over_same [OF assms(2)])
  then show "prefix (pushed_by j l @ future M (left_over l t xs) t j) (future M xs s j)"
    "intact s \<Longrightarrow> pushed_by j l @ future M (left_over l t xs) t j = future M xs s j"
    by simp_all
qed

text \<open>Every step lowers the weight.\<close>

lemma sending_weight:
  assumes "i < length (cells s)" "\<And>j. j \<noteq> i \<Longrightarrow> cell_weight M ys t j = cell_weight M xs s j"
  shows "(\<Sum>j<length (cells s). cell_weight M ys t j) + cell_weight M xs s i =
    (\<Sum>j<length (cells s). cell_weight M xs s j) + cell_weight M ys t i"
  using sum_change_one [OF assms(1)] assms(2) by blast

lemma pstep_weight:
  assumes "pstep M l s t" "backlog M s xs"
  shows "weight M (left_over l t xs) t < weight M xs s"
  using assms(1)
proof (cases rule: pstep.cases)
  case (dispatch_send d i x d' q ph)
  then have "dispatcher t = Inl d'" by simp
  then obtain ys where ys: "xs = (i, x) # ys" "left_over (Dispatched i x) t xs = ys"
    by (rule pstep_sent [OF assms(2) dispatch_send(3,4)])
  have fut: "future M ys t j = future M xs s j" for j
    using dispatch_send(2) future_sent [OF dispatch_send(5,6)] ys(1) by simp
  have "(\<Sum>j<length (cells s). cell_weight M ys t j) + cell_weight M xs s i =
      (\<Sum>j<length (cells s). cell_weight M xs s j) + cell_weight M ys t i"
    using fut dispatch_send by (intro sending_weight) (simp_all add: cell_weight_def)
  moreover have "cell_weight M ys t i = cell_weight M xs s i + 2"
    using fut dispatch_send by (simp add: cell_weight_def)
  ultimately show ?thesis using dispatch_send ys by (simp add: weight_def)
next
  case (worker_push i q y zs k)
  have "future M xs s i = y # future M xs t i" using worker_push by (simp add: future_def)
  moreover have "(\<Sum>j<length (cells s). cell_weight M xs t j) + cell_weight M xs s i =
      (\<Sum>j<length (cells s). cell_weight M xs s j) + cell_weight M xs t i"
    using worker_push by (intro sending_weight) (simp_all add: cell_weight_def future_def)
  ultimately show ?thesis
    using worker_push by (simp add: left_over_same [OF assms(2)] weight_def cell_weight_def)
next
  case (worker_take i x q w ys k)
  then show ?thesis
    using cell_step_weight [OF worker_take(3,2)] by (simp add: left_over_same [OF assms(2)] cell_weight_def future_def)
next
  case (worker_end i w r)
  moreover from this have "xs = []" using assms(2) by (simp add: backlog_def)
  ultimately show ?thesis
    using cell_step_weight [OF worker_end(3,2)] by (simp add: cell_weight_def future_def)
next
  case (worker_refused i q y ys k)
  then show ?thesis
    using cell_step_weight [OF worker_refused(3,2)]
    by (simp add: left_over_same [OF assms(2)] cell_weight_def future_def)
next
  case (worker_next i q k)
  then show ?thesis
    using cell_step_weight [OF worker_next(3,2)]
    by (simp add: left_over_same [OF assms(2)] cell_weight_def future_def split: option.splits)
next
  case (dispatch_refused d j x d' q)
  then show ?thesis using weight_cut [of s d] by simp
next
  case (dispatch_stop d r)
  then show ?thesis using weight_cut [of s d] by simp
qed (simp_all add: left_over_same [OF assms(2)] weight_def cell_weight_def)

section \<open>Every schedule\<close>

definition pushes :: "nat \<Rightarrow> ('a, 'b) label list \<Rightarrow> 'b list" where
  "pushes j ls = concat (map (pushed_by j) ls)"

lemma pstep_cells [simp]: "pstep M l s t \<Longrightarrow> length (cells t) = length (cells s)"
  by (auto elim!: pstep_cases)

lemma psteps_cells [simp]: "psteps M ls s t \<Longrightarrow> length (cells t) = length (cells s)"
  by (induction rule: psteps.induct) simp_all

lemma psteps_future:
  assumes "psteps M ls s t" "backlog M s xs"
  shows "\<exists>ys. backlog M t ys \<and> weight M ys t + length ls \<le> weight M xs s \<and> suffix ys xs \<and>
    (\<forall>j < length (cells s). prefix (pushes j ls @ future M ys t j) (future M xs s j))"
  using assms
proof (induction arbitrary: xs rule: psteps.induct)
  case (psteps_refl s)
  then show ?case by (auto simp: pushes_def)
next
  case (psteps_step l s t ls u)
  let ?ys = "left_over l t xs"
  note ys = pstep_backlog(1) [OF psteps_step(1,4)] pstep_weight [OF psteps_step(1,4)]
    pstep_backlog(2) [OF psteps_step(1,4)] pstep_future(1) [OF psteps_step(1,4)]
  obtain zs where zs: "backlog M u zs" "weight M zs u + length ls \<le> weight M ?ys t" "suffix zs ?ys"
      "\<forall>j < length (cells t). prefix (pushes j ls @ future M zs u j) (future M ?ys t j)"
    using psteps_step.IH [OF ys(1)] by blast
  have "prefix (pushes j (l # ls) @ future M zs u j) (future M xs s j)" if "j < length (cells s)" for j
  proof -
    have "prefix (pushed_by j l @ pushes j ls @ future M zs u j) (pushed_by j l @ future M ?ys t j)"
      using zs(4) that pstep_cells [OF psteps_step(1)] by simp
    then have "prefix (pushed_by j l @ pushes j ls @ future M zs u j) (future M xs s j)"
      using ys(4) by (rule prefix_order.trans)
    then show ?thesis by (simp add: pushes_def)
  qed
  then show ?case using zs ys(2) suffix_order.trans [OF zs(3) ys(3)] by (intro exI [of _ zs]) simp
qed

text \<open>The shared queue is first in, first out, and every queue is bounded.\<close>

lemma psteps_fifo:
  assumes "psteps M ls s t"
  shows "shared s @ concat (map pushed ls) = concat (map written_msg ls) @ shared t"
  using assms by (induction rule: psteps.induct) (auto elim!: pstep_cases)

definition bounded :: "('d, 'a, 'w, 'b, 'f, 'r) pstate \<Rightarrow> bool" where
  "bounded s \<longleftrightarrow> length (shared s) \<le> QUEUE_CAP \<and> (\<forall>c \<in> set (cells s). length (fst c) \<le> QUEUE_CAP)"

lemma bounded_cells:
  "\<lbrakk>bounded s; length q \<le> QUEUE_CAP\<rbrakk> \<Longrightarrow> bounded (s\<lparr>cells := (cells s)[j := (q, ph)]\<rparr>)"
  using set_update_subset_insert [of "cells s" j "(q, ph)"] by (auto simp: bounded_def)

lemma bounded_nth: "\<lbrakk>bounded s; j < length (cells s); cells s ! j = (q, ph)\<rbrakk> \<Longrightarrow> length q \<le> QUEUE_CAP"
  by (auto simp: bounded_def dest!: nth_mem)

lemma pstep_bounded:
  assumes "pstep M l s t" "bounded s"
  shows "bounded t"
  using assms
proof (cases rule: pstep.cases)
  case (dispatch_send d j x d' q ph)
  then show ?thesis using bounded_cells [OF assms(2), of "q @ [x]" j ph] by (simp add: bounded_def)
next
  case (worker_take j x q w ys k)
  then show ?thesis
    using bounded_cells [OF assms(2), of q j "Sending ys k"] bounded_nth [OF assms(2), of j "x # q"] by simp
next
  case (worker_push j q y ys k)
  then show ?thesis
    using bounded_cells [OF assms(2), of q j "Sending ys k"] bounded_nth [OF assms(2), of j q]
    by (simp add: bounded_def)
next
  case (worker_refused j q y ys k)
  then show ?thesis using bounded_cells [OF assms(2), of q j] bounded_nth [OF assms(2), of j q] by simp
next
  case (worker_next j q k)
  then show ?thesis using bounded_cells [OF assms(2), of q j] bounded_nth [OF assms(2), of j q] by simp
next
  case worker_end
  then show ?thesis using bounded_cells [OF assms(2), of "[]"] by simp
qed (auto simp: bounded_def)

lemma psteps_bounded: "\<lbrakk>psteps M ls s t; bounded s\<rbrakk> \<Longrightarrow> bounded t"
  by (induction rule: psteps.induct) (auto intro: pstep_bounded)

text \<open>Progress: as long as some thread runs, some thread can take a step.\<close>

lemma worker_progress:
  assumes "j < length (cells s)" "cells s ! j = (q, Sending ys k)"
    and "forwarding s \<Longrightarrow> shared s = []"
  shows "\<exists>l t. pstep M l s t"
proof (cases ys)
  case Nil
  then show ?thesis using assms worker_next [OF assms(1), of q k M] by auto
next
  case (Cons y ys')
  then show ?thesis
    using assms worker_push [of j s q y ys' k M] worker_refused [of j s q y ys' k M]
    by (cases "forwarding s") (auto simp: QUEUE_CAP_def)
qed

lemma idle_progress:
  assumes "j < length (cells s)" "cells s ! j = (q, Idle w)" "q = [] \<Longrightarrow> dispatcher s = Inr r"
  shows "\<exists>l t. pstep M l s t"
proof (cases q)
  case Nil
  then show ?thesis using assms worker_end [OF assms(1), of w r M] by auto
next
  case (Cons x q')
  obtain ys k where "m_work M w x = (ys, k)" by fastforce
  then show ?thesis using assms Cons worker_take [OF assms(1), of x q' w M ys k] by auto
qed

lemma dispatcher_progress:
  assumes "dispatcher s = Inl d" "\<And>j x d'. m_next M d = Emit j x d' \<Longrightarrow> j < length (cells s)"
    and "\<And>j. j < length (cells s) \<Longrightarrow> length (fst (cells s ! j)) < QUEUE_CAP \<or> snd (cells s ! j) = Ended"
  shows "\<exists>l t. pstep M l s t"
proof (cases "m_next M d")
  case (Stop r)
  then show ?thesis using dispatch_stop [OF assms(1), of M r] by auto
next
  case (Emit j x d')
  obtain q ph where c: "cells s ! j = (q, ph)" by fastforce
  show ?thesis
  proof (cases "ph = Ended")
    case True
    then show ?thesis
      using dispatch_refused [OF assms(1) Emit assms(2) [OF Emit], of q] c by auto
  next
    case False
    then show ?thesis
      using dispatch_send [OF assms(1) Emit assms(2) [OF Emit] c False] assms(3) [OF assms(2) [OF Emit]] c by auto
  qed
qed

lemma progress:
  assumes "\<not> all_ended s"
    and "\<And>d j x d'. dispatcher s = Inl d \<Longrightarrow> m_next M d = Emit j x d' \<Longrightarrow> j < length (cells s)"
  shows "\<exists>l t. pstep M l s t"
proof (rule ccontr)
  assume stuck: "\<not> ?thesis"
  have sh: "forwarding s \<Longrightarrow> shared s = []"
  proof (rule ccontr)
    assume "forwarding s" "shared s \<noteq> []"
    then obtain y ys where "shared s = y # ys" by (meson neq_Nil_conv)
    moreover obtain ok f where "m_write M (forwarder s) y = (ok, f)" by fastforce
    ultimately show False using stuck forward_write [OF \<open>forwarding s\<close>, of y ys M ok f] by auto
  qed
  have cell: "snd (cells s ! j) = Ended \<or> (\<exists>w d. cells s ! j = ([], Idle w) \<and> dispatcher s = Inl d)"
    if j: "j < length (cells s)" for j
  proof (cases "cells s ! j")
    case (Pair q ph)
    show ?thesis
    proof (cases ph)
      case (Idle w)
      then show ?thesis
        using stuck idle_progress [OF j, where q = q and w = w and M = M] Pair
        by (cases "dispatcher s"; cases "q = []") auto
    next
      case (Sending ys k)
      then show ?thesis using stuck worker_progress [OF j, of q ys k M] sh Pair by blast
    qed (simp add: Pair)
  qed
  show False
  proof (cases "dispatcher s")
    case (Inl d)
    have "length (fst (cells s ! j)) < QUEUE_CAP \<or> snd (cells s ! j) = Ended" if "j < length (cells s)" for j
      using cell [OF that] by (auto simp: QUEUE_CAP_def)
    then show ?thesis using dispatcher_progress [OF Inl] assms(2) [OF Inl] stuck by blast
  next
    case (Inr r)
    then have ended: "\<forall>c \<in> set (cells s). snd c = Ended" using cell by (fastforce simp: in_set_conv_nth)
    then have "forwarding s" using assms(1) Inr by (auto simp: all_ended_def)
    then show ?thesis using stuck forward_end [of s M] sh ended by auto
  qed
qed

section \<open>Interleavings\<close>

text \<open>\<open>zs\<close> is an interleaving of the lists \<open>parts 0\<close> to \<open>parts (n - 1)\<close>.\<close>

definition merge_of :: "nat \<Rightarrow> (nat \<Rightarrow> 'b list) \<Rightarrow> 'b list \<Rightarrow> bool" where
  "merge_of n parts zs \<longleftrightarrow>
     (\<exists>ts. map snd ts = zs \<and> (\<forall>p \<in> set ts. fst p < n) \<and> (\<forall>j < n. routed ts j = parts j))"

fun tagged :: "('a, 'b) label \<Rightarrow> (nat \<times> 'b) list" where
  "tagged (Pushed i y) = [(i, y)]"
| "tagged _ = []"

lemma routed_append [simp]: "routed (xs @ ys) j = routed xs j @ routed ys j"
  by (simp add: routed_def)

lemma tagged_pushed: "map snd (tagged l) = pushed l" "routed (tagged l) j = pushed_by j l"
  by (cases l; simp)+

lemma pushes_merge:
  assumes "psteps M ls s t"
  shows "merge_of (length (cells s)) (\<lambda>j. pushes j ls) (concat (map pushed ls))"
proof -
  have "map snd (concat (map tagged ls)) = concat (map pushed ls)"
    by (simp add: map_concat comp_def tagged_pushed)
  moreover have "routed (concat (map tagged ls)) j = pushes j ls" for j
    by (induction ls) (simp_all add: pushes_def tagged_pushed)
  moreover have "\<forall>p \<in> set (concat (map tagged ls)). fst p < length (cells s)"
    using assms by (induction rule: psteps.induct) (auto elim!: pstep_cases)
  ultimately show ?thesis unfolding merge_of_def by blast
qed

text \<open>The forwarder has written the messages in the order of their labels.\<close>

definition write_seq :: "('d, 'a, 'w, 'b, 'f, 'r) machine \<Rightarrow> 'f \<Rightarrow> 'b list \<Rightarrow> 'f" where
  "write_seq M f ys = foldl (\<lambda>f y. snd (m_write M f y)) f ys"

lemma psteps_forwarder:
  assumes "psteps M ls s t"
  shows "forwarder t = write_seq M (forwarder s) (concat (map written_msg ls))"
  using assms by (induction rule: psteps.induct) (auto elim!: pstep_cases simp: write_seq_def)

text \<open>It stops at the first message that is not written.\<close>

fun forward_all :: "('d, 'a, 'w, 'b, 'f, 'r) machine \<Rightarrow> 'f \<Rightarrow> 'b list \<Rightarrow> 'f" where
  "forward_all M f [] = f"
| "forward_all M f (y # ys) =
     (case m_write M f y of (ok, f') \<Rightarrow> if ok then forward_all M f' ys else f')"

lemma psteps_silent:
  "\<lbrakk>psteps M ls s t; \<not> forwarding s\<rbrakk> \<Longrightarrow> concat (map written_msg ls) = [] \<and> forwarder t = forwarder s"
  by (induction rule: psteps.induct) (auto elim!: pstep_cases)

lemma psteps_forward_all:
  "\<lbrakk>psteps M ls s t; forwarding s\<rbrakk> \<Longrightarrow>
     forwarder t = forward_all M (forwarder s) (concat (map written_msg ls))"
proof (induction rule: psteps.induct)
  case (psteps_step l s t ls u)
  show ?case
    using psteps_step(1)
  proof (cases rule: pstep.cases)
    case (forward_write y ys ok f)
    then show ?thesis
      using psteps_step psteps_silent [OF psteps_step(2)] by (cases ok) (auto simp del: concat_eq_Nil_conv)
  next
    case forward_end
    then show ?thesis using psteps_silent [OF psteps_step(2)] by (auto simp del: concat_eq_Nil_conv)
  qed (use psteps_step in auto)
qed simp

section \<open>Runs without failures\<close>

text \<open>How the dispatcher can have ended.\<close>

lemma psteps_dispatcher_end:
  assumes "psteps M ls s t" "dispatcher s = Inl d" "dispatcher t = Inr r"
  shows "(\<exists>d'. m_next M d' = Stop r) \<or> (\<exists>x. r = m_refused M x)"
proof -
  have "\<forall>r. dispatcher t = Inr r \<longrightarrow> dispatcher s = Inr r \<or> (\<exists>d'. m_next M d' = Stop r) \<or> (\<exists>x. r = m_refused M x)"
    using assms(1) by (induction rule: psteps.induct) (auto elim!: pstep_cases)
  then show ?thesis using assms(2,3) by auto
qed

text \<open>
  A state in which nothing has failed: the writer accepts, no worker has stopped on an error,
  and threads have ended only because their input ended.
\<close>

definition sound_cell :: "('w \<Rightarrow> bool) \<Rightarrow> 'a set \<Rightarrow> bool \<Rightarrow> 'a list \<times> ('w, 'b) phase \<Rightarrow> bool" where
  "sound_cell I X stopped c \<longleftrightarrow>
     (case snd c of
        Idle w \<Rightarrow> I w \<and> set (fst c) \<subseteq> X
      | Sending ys k \<Rightarrow> set (fst c) \<subseteq> X \<and> (\<exists>w. k = Some w \<and> I w)
      | Ended \<Rightarrow> stopped)"

definition healthy ::
  "('w \<Rightarrow> bool) \<Rightarrow> ('f \<Rightarrow> bool) \<Rightarrow> 'a set \<Rightarrow> ('d, 'a, 'w, 'b, 'f, 'r) pstate \<Rightarrow> bool" where
  "healthy I P X s \<longleftrightarrow>
     cells s \<noteq> [] \<and> P (forwarder s) \<and>
     (\<forall>c \<in> set (cells s). sound_cell I X (\<exists>r. dispatcher s = Inr r) c) \<and>
     (\<not> forwarding s \<longrightarrow> all_ended s \<and> shared s = [])"

lemma healthy_cells:
  assumes "healthy I P X s" "sound_cell I X (\<exists>r. dispatcher s = Inr r) c" "forwarding s"
  shows "healthy I P X (s\<lparr>cells := (cells s)[j := c]\<rparr>)"
  using assms set_update_subset_insert [of "cells s" j c] by (auto simp: healthy_def)

lemma healthy_nth:
  "\<lbrakk>healthy I P X s; j < length (cells s); cells s ! j = c\<rbrakk> \<Longrightarrow>
     sound_cell I X (\<exists>r. dispatcher s = Inr r) c"
  by (auto simp: healthy_def)

lemma healthy_ended:
  "\<lbrakk>healthy I P X s; j < length (cells s); cells s ! j = (q, ph); ph \<noteq> Ended\<rbrakk> \<Longrightarrow> forwarding s"
  by (auto simp: healthy_def all_ended_def dest!: nth_mem)

lemma healthy_intact: "healthy I P X s \<Longrightarrow> intact s"
  by (auto simp: healthy_def intact_def all_ended_def sound_cell_def split: phase.splits)

lemma pstep_healthy:
  assumes step: "pstep M l s t" and h: "healthy I P X s" and b: "backlog M s xs" "snd ` set xs \<subseteq> X"
    and work: "\<And>w x. I w \<Longrightarrow> x \<in> X \<Longrightarrow> \<exists>ys w'. m_work M w x = (ys, Some w') \<and> I w'"
    and wr: "\<And>f y. P f \<Longrightarrow> fst (m_write M f y) \<and> P (snd (m_write M f y))"
  shows "healthy I P X t"
  using step
proof (cases rule: pstep.cases)
  case (dispatch_send d i x d' q ph)
  then have "dispatcher t = Inl d'" by simp
  then have "(i, x) \<in> set xs" using pstep_sent [OF b(1) dispatch_send(3,4)] by (metis list.set_intros(1))
  then have "sound_cell I X (\<exists>r. dispatcher s = Inr r) (q @ [x], ph)"
    using healthy_nth [OF h dispatch_send(5,6)] b(2) dispatch_send by (auto simp: sound_cell_def split: phase.splits)
  then have "healthy I P X (s\<lparr>cells := (cells s)[i := (q @ [x], ph)]\<rparr>)"
    using healthy_cells [OF h] healthy_ended [OF h dispatch_send(5-7)] by blast
  then show ?thesis
    using dispatch_send healthy_ended [OF h dispatch_send(5-7)] by (auto simp: healthy_def)
next
  case (dispatch_refused d i x d' q)
  then show ?thesis using healthy_nth [OF h dispatch_refused(5,6)] by (simp add: sound_cell_def)
next
  case (dispatch_stop d r)
  then show ?thesis
    using h by (auto simp: healthy_def all_ended_def sound_cell_def split: phase.splits)
next
  case (worker_take i x q w ys k)
  have "I w" "x \<in> X" "set q \<subseteq> X" using healthy_nth [OF h worker_take(3,4)] by (auto simp: sound_cell_def)
  then show ?thesis
    using worker_take healthy_ended [OF h worker_take(3,4)] work [of w x]
    by (auto simp: sound_cell_def intro!: healthy_cells [OF h])
next
  case (worker_end i w r)
  then show ?thesis
    using healthy_ended [OF h worker_end(3,4)] by (auto simp: sound_cell_def intro!: healthy_cells [OF h])
next
  case (worker_push i q y ys k)
  then have "healthy I P X (s\<lparr>cells := (cells s)[i := (q, Sending ys k)]\<rparr>)"
    using healthy_nth [OF h worker_push(3,4)] by (auto simp: sound_cell_def intro!: healthy_cells [OF h])
  then show ?thesis using worker_push by (auto simp: healthy_def)
next
  case (worker_refused i q y ys k)
  then show ?thesis using healthy_ended [OF h worker_refused(3,4)] by simp
next
  case (worker_next i q k)
  then show ?thesis
    using healthy_nth [OF h worker_next(3,4)] healthy_ended [OF h worker_next(3,4)]
    by (auto simp: sound_cell_def intro!: healthy_cells [OF h])
next
  case (forward_write y ys ok f)
  then show ?thesis using h wr [of "forwarder s" y] by (auto simp: healthy_def)
next
  case forward_end
  then show ?thesis using h by (auto simp: healthy_def all_ended_def sound_cell_def neq_Nil_conv)
qed

lemma psteps_healthy:
  assumes "psteps M ls s t" "healthy I P X s" "backlog M s xs" "snd ` set xs \<subseteq> X"
    and work: "\<And>w x. I w \<Longrightarrow> x \<in> X \<Longrightarrow> \<exists>ys w'. m_work M w x = (ys, Some w') \<and> I w'"
    and wr: "\<And>f y. P f \<Longrightarrow> fst (m_write M f y) \<and> P (snd (m_write M f y))"
  shows "\<exists>ys. healthy I P X t \<and> backlog M t ys \<and>
    (\<forall>j < length (cells s). pushes j ls @ future M ys t j = future M xs s j)"
  using assms(1-4)
proof (induction arbitrary: xs rule: psteps.induct)
  case (psteps_refl s)
  then show ?case by (auto simp: pushes_def)
next
  case (psteps_step l s t ls u)
  let ?ys = "left_over l t xs"
  note ys = pstep_healthy [OF psteps_step(1,4,5,6) work wr] pstep_backlog [OF psteps_step(1,5)]
    pstep_future(2) [OF psteps_step(1,5) healthy_intact [OF psteps_step(4)]]
  have "snd ` set ?ys \<subseteq> X" using set_mono_suffix [OF ys(3)] psteps_step(6) by blast
  from psteps_step.IH [OF ys(1,2) this]
  obtain zs where zs: "healthy I P X u" "backlog M u zs"
      "\<forall>j < length (cells t). pushes j ls @ future M zs u j = future M ?ys t j" by blast
  have "pushes j (l # ls) @ future M zs u j = future M xs s j" if "j < length (cells s)" for j
  proof -
    have "pushes j (l # ls) @ future M zs u j = pushed_by j l @ pushes j ls @ future M zs u j"
      by (simp add: pushes_def)
    also have "pushes j ls @ future M zs u j = future M ?ys t j"
      using zs(3) that pstep_cells [OF psteps_step(1)] by simp
    finally show ?thesis using ys(4) by simp
  qed
  then show ?case using zs by blast
qed

section \<open>The contract of a pipeline\<close>

lemma psteps_snoc: "\<lbrakk>psteps M ls s t; pstep M l t u\<rbrakk> \<Longrightarrow> psteps M (ls @ [l]) s u"
  by (induction rule: psteps.induct) (auto intro: psteps.intros)

lemma merge_of_one: "merge_of (Suc 0) parts zs \<longleftrightarrow> zs = parts 0"
proof
  assume "merge_of (Suc 0) parts zs"
  then obtain ts where "map snd ts = zs" "\<forall>p \<in> set ts. fst p = 0" "routed ts 0 = parts 0"
    by (auto simp: merge_of_def)
  then show "zs = parts 0" by (simp add: routed_def)
next
  assume "zs = parts 0"
  then show "merge_of (Suc 0) parts zs"
    by (auto simp: merge_of_def routed_def comp_def intro!: exI [of _ "map (Pair 0) zs"])
qed

lemma cells_pinit [simp]: "length (cells (pinit d ws f)) = length ws"
  by (simp add: pinit_def)

text \<open>
  What the dispatcher owes the other threads: from a valid state it ends after emitting
  \<open>items\<close>, each for one of the \<open>n\<close> workers.
\<close>

locale worker_pipeline =
  fixes M :: "('d, 'a, 'w, 'b, 'f, 'r) machine" and n :: nat
    and valid :: "'d \<Rightarrow> bool" and items :: "'d \<Rightarrow> (nat \<times> 'a) list" and result :: "'d \<Rightarrow> 'r"
  assumes dispatcher_ends: "valid d \<Longrightarrow> emits M d (items d) (result d)"
    and items_in_range: "\<lbrakk>valid d; j \<in> fst ` set (items d)\<rbrakk> \<Longrightarrow> j < n"
begin

lemma start_facts:
  assumes "valid d"
  shows "backlog M (pinit d ws f) (items d)" "bounded (pinit d ws f)"
    "j < length ws \<Longrightarrow> future M (items d) (pinit d ws f) j = outs M (ws ! j) (routed (items d) j)"
  using dispatcher_ends [OF assms] by (auto simp: backlog_def pinit_def bounded_def future_def)

lemma run_bounded: "\<lbrakk>valid d; psteps M ls (pinit d ws f) s\<rbrakk> \<Longrightarrow> bounded s"
  using psteps_bounded start_facts(2) by blast

lemma run_length:
  "\<lbrakk>valid d; psteps M ls (pinit d ws f) s\<rbrakk> \<Longrightarrow> length ls \<le> weight M (items d) (pinit d ws f)"
  using psteps_future [OF _ start_facts(1)] by fastforce

lemma no_deadlock:
  assumes "valid d0" "length ws = n" "psteps M ls (pinit d0 ws f) s" "\<not> all_ended s"
  shows "\<exists>l t. pstep M l s t"
proof (rule progress [OF assms(4)])
  fix d j x d' assume d: "dispatcher s = Inl d" "m_next M d = Emit j x d'"
  obtain ys where ys: "backlog M s ys" "suffix ys (items d0)"
    using psteps_future [OF assms(3) start_facts(1) [OF assms(1)]] by blast
  obtain zs where "ys = (j, x) # zs" by (rule backlog_Emit [OF ys(1) d])
  then have "j \<in> fst ` set (items d0)" using set_mono_suffix [OF ys(2)] by force
  then show "j < length (cells s)"
    using items_in_range [OF assms(1)] psteps_cells [OF assms(3)] assms(2) by simp
qed

text \<open>Every run can be continued until all threads have ended.\<close>

lemma run_completes:
  assumes "valid d" "length ws = n" "psteps M ls (pinit d ws f) s"
  shows "\<exists>ls' t. psteps M (ls @ ls') (pinit d ws f) t \<and> all_ended t"
  using assms
proof (induction "weight M (items d) (pinit d ws f) - length ls" arbitrary: ls s rule: less_induct)
  case less
  show ?case
  proof (cases "all_ended s")
    case True
    then show ?thesis using less.prems(3) by (metis append_Nil2)
  next
    case False
    then obtain l t where "pstep M l s t" using no_deadlock less.prems by blast
    then have run: "psteps M (ls @ [l]) (pinit d ws f) t" using psteps_snoc less.prems(3) by blast
    then have "length (ls @ [l]) \<le> weight M (items d) (pinit d ws f)"
      using run_length less.prems(1) by blast
    then have "weight M (items d) (pinit d ws f) - length (ls @ [l]) <
        weight M (items d) (pinit d ws f) - length ls"
      by simp
    from less.hyps [OF this less.prems(1,2) run] show ?thesis by (metis append_assoc)
  qed
qed

lemma every_run:
  assumes "valid d" "length ws = n"
  shows "(\<exists>N. \<forall>ls s. psteps M ls (pinit d ws f) s \<longrightarrow> length ls \<le> N) \<and>
    (\<forall>ls s. psteps M ls (pinit d ws f) s \<longrightarrow>
       bounded s \<and> (all_ended s \<or> (\<exists>l t. pstep M l s t)) \<and>
       (\<exists>ls' t. psteps M (ls @ ls') (pinit d ws f) t \<and> all_ended t))"
  using run_length [OF assms(1)] run_bounded [OF assms(1)] no_deadlock [OF assms] run_completes [OF assms]
  by metis

lemma some_run:
  assumes "valid d" "length ws = n"
  shows "\<exists>ls t. psteps M ls (pinit d ws f) t \<and> all_ended t"
  using run_completes [OF assms psteps_refl] by simp

lemma pushes_prefix:
  assumes "valid d" "psteps M ls (pinit d ws f) s" "j < length ws"
  shows "prefix (pushes j ls) (outs M (ws ! j) (routed (items d) j))"
  using psteps_future [OF assms(2) start_facts(1)] assms start_facts(3) cells_pinit append_prefixD by metis

text \<open>Whatever fails and whenever: what is written is a prefix of an interleaving of prefixes.\<close>

lemma run_prefix:
  assumes "valid d" "length ws = n" "psteps M ls (pinit d ws f) s"
  obtains parts ys where "merge_of n parts (ys @ shared s)" "forwarder s = forward_all M f ys"
    "\<forall>j < n. prefix (parts j) (outs M (ws ! j) (routed (items d) j))"
proof -
  let ?ys = "concat (map written_msg ls)"
  have "concat (map pushed ls) = ?ys @ shared s"
    using psteps_fifo [OF assms(3)] by (simp add: pinit_def)
  then have "merge_of n (\<lambda>j. pushes j ls) (?ys @ shared s)"
    using pushes_merge [OF assms(3)] assms(2) by simp
  moreover have "forwarder s = forward_all M f ?ys"
    using psteps_forward_all [OF assms(3)] by (simp add: pinit_def)
  ultimately show ?thesis using that pushes_prefix [OF assms(1,3)] assms(2) by blast
qed

end

text \<open>
  In addition, no worker stops on an error and the writer accepts everything: \<open>okw\<close>, \<open>okx\<close>
  and \<open>okf\<close> are the workers, the items and the writers for which this holds.
\<close>

locale healthy_pipeline = worker_pipeline +
  fixes okw :: "'c \<Rightarrow> bool" and okx :: "'b \<Rightarrow> bool" and okf :: "'e \<Rightarrow> bool"
  assumes some_worker: "0 < n"
    and items_ok: "\<lbrakk>valid d; x \<in> snd ` set (items d)\<rbrakk> \<Longrightarrow> okx x"
    and works: "\<lbrakk>okw w; okx x\<rbrakk> \<Longrightarrow> \<exists>ys w'. m_work M w x = (ys, Some w') \<and> okw w'"
    and writes: "okf f \<Longrightarrow> fst (m_write M f y) \<and> okf (snd (m_write M f y))"
begin

lemma start_healthy:
  assumes "length ws = n" "\<And>w. w \<in> set ws \<Longrightarrow> okw w" "okf f"
  shows "healthy okw okf {x. okx x} (pinit d ws f)"
  using assms some_worker by (auto simp: healthy_def pinit_def sound_cell_def)

lemma complete_run:
  assumes d: "valid d" and ws: "length ws = n" "\<And>w. w \<in> set ws \<Longrightarrow> okw w" and f: "okf f"
    and run: "psteps M ls (pinit d ws f) s" and ended: "all_ended s"
  obtains ys where "merge_of n (\<lambda>j. outs M (ws ! j) (routed (items d) j)) ys"
    and "forwarder s = write_seq M f ys"
proof -
  note start = start_facts [OF d, where ws = ws and f = f]
  have "snd ` set (items d) \<subseteq> {x. okx x}" using items_ok [OF d] by auto
  then obtain ys where ys: "healthy okw okf {x. okx x} s" "backlog M s ys"
      "\<forall>j < n. pushes j ls @ future M ys s j = future M (items d) (pinit d ws f) j"
    using psteps_healthy [OF run start_healthy [OF ws f] start(1) _ _ writes] works ws(1) by auto
  have "snd (cells s ! j) = Ended" if "j < n" for j
    using ended that psteps_cells [OF run] ws(1) by (simp add: all_ended_def)
  then have "future M ys s j = []" if "j < n" for j
    using that by (simp add: future_def split_beta)
  then have parts: "pushes j ls = outs M (ws ! j) (routed (items d) j)" if "j < n" for j
    using ys(3) that start(3) ws(1) by auto
  have "shared s = []" using ys(1) ended by (auto simp: healthy_def all_ended_def)
  then have "concat (map written_msg ls) = concat (map pushed ls)"
    using psteps_fifo [OF run] by (simp add: pinit_def)
  then have "merge_of n (\<lambda>j. outs M (ws ! j) (routed (items d) j)) (concat (map written_msg ls))"
    using pushes_merge [OF run] parts ws(1) by (simp add: merge_of_def)
  moreover have "forwarder s = write_seq M f (concat (map written_msg ls))"
    using psteps_forwarder [OF run] by (simp add: pinit_def)
  ultimately show ?thesis using that by blast
qed

end

end
