(* ===== verification/Encoder.thy ===== *)
theory Encoder
  imports Block_Encoder Byte_Io Pipeline
begin

text \<open>
  The model of \<open>garuda-codec-core/src/encoder.rs\<close>: the block dispatcher, the packet forwarder,
  and the life cycle of an \<open>Encoder\<close>, whose threads are an instance of theory \<open>Pipeline\<close>.
\<close>

section \<open>Errors\<close>

datatype block_dispatcher_error = DispatchSend block | DispatchIO error_kind

datatype 'pkt encoder_error =
    EncoderBlockEncoder "'pkt block_encoder_error" | EncoderBlockDispatcher block_dispatcher_error
  | EncoderIO error_kind | EncoderInvalidState string

text \<open>\<open>Display\<close>; \<open>show_io\<close> is the \<open>Display\<close> of \<open>io::Error\<close> in the standard library.\<close>

fun block_dispatcher_error_to_string ::
  "(error_kind \<Rightarrow> string) \<Rightarrow> block_dispatcher_error \<Rightarrow> string" where
  "block_dispatcher_error_to_string show_io (DispatchSend b) = ''sending on a closed channel''"
| "block_dispatcher_error_to_string show_io (DispatchIO e) = show_io e"

fun encoder_error_to_string :: "(error_kind \<Rightarrow> string) \<Rightarrow> 'pkt encoder_error \<Rightarrow> string" where
  "encoder_error_to_string show_io (EncoderBlockEncoder e) = block_encoder_error_to_string e"
| "encoder_error_to_string show_io (EncoderBlockDispatcher e) =
     block_dispatcher_error_to_string show_io e"
| "encoder_error_to_string show_io (EncoderIO e) = show_io e"
| "encoder_error_to_string show_io (EncoderInvalidState s) = s"

text \<open>\<open>impl From<BlockEncoderError> for EncoderError\<close>.\<close>

definition encoder_from_block_encoder_error :: "'pkt block_encoder_error \<Rightarrow> 'pkt encoder_error" where
  [simp]: "encoder_from_block_encoder_error e = EncoderBlockEncoder e"

text \<open>\<open>impl From<BlockDispatcherError> for EncoderError\<close>.\<close>

definition encoder_from_block_dispatcher_error :: "block_dispatcher_error \<Rightarrow> 'pkt encoder_error" where
  [simp]: "encoder_from_block_dispatcher_error e = EncoderBlockDispatcher e"

text \<open>\<open>impl From<io::Error> for EncoderError\<close>, which nothing uses\<open>\<close>.\<close>

definition encoder_from_io_error :: "error_kind \<Rightarrow> 'pkt encoder_error" where
  [simp]: "encoder_from_io_error e = EncoderIO e"

text \<open>\<open>impl From<mpsc::SendError<Block>> for BlockDispatcherError\<close>.\<close>

definition dispatcher_from_send_error :: "block \<Rightarrow> block_dispatcher_error" where
  [simp]: "dispatcher_from_send_error b = DispatchSend b"

text \<open>\<open>impl From<io::Error> for BlockDispatcherError\<close>.\<close>

definition dispatcher_from_io_error :: "error_kind \<Rightarrow> block_dispatcher_error" where
  [simp]: "dispatcher_from_io_error e = DispatchIO e"

section \<open>The block dispatcher\<close>

record block_dispatcher =
  bdisp_block_size :: usize
  bdisp_block_id :: u8
  bdisp_should_stop :: flag

type_synonym block_dispatch_result = "(block_dispatcher_error, unit) outcome"

text \<open>The address of the new flag is an argument.\<close>

definition block_dispatcher_new ::
  "error_kind + in_stream \<Rightarrow> flag \<Rightarrow> usize \<Rightarrow> (block_dispatcher_error, block_dispatcher) outcome" where
  "block_dispatcher_new urandom flag block_size =
     bind_outcome (map_err dispatcher_from_io_error (get_random_u8 urandom))
       (\<lambda>i. Ok \<lparr>bdisp_block_size = block_size, bdisp_block_id = i, bdisp_should_stop = flag\<rparr>)"

text \<open>
  One round of the loop of \<open>dispatch\<close>, up to the \<open>send\<close>: the queue that is chosen, the
  block, and the state after the send; or the value the loop returns.
\<close>

definition block_dispatch_round ::
  "nat \<Rightarrow> block_dispatcher \<times> in_stream \<Rightarrow>
   (block, block_dispatcher \<times> in_stream, block_dispatch_result) dispatch_step" where
  "block_dispatch_round num_queues s =
     (case s of (bd, inp) \<Rightarrow>
        (case read_exact (replicate (bdisp_block_size bd) 0) inp of
           (Ok _, buffer, inp') \<Rightarrow>
             if num_queues = 0 then Stop Panic
             else Emit (unat (bdisp_block_id bd) mod num_queues)
                    \<lparr>block_id = bdisp_block_id bd, block_data = buffer\<rparr>
                    (bd\<lparr>bdisp_block_id := bdisp_block_id bd + 1\<rparr>, inp')
         | (Err e, _, _) \<Rightarrow>
             if e = UnexpectedEof \<or> e = Interrupted then Stop (Ok ()) else Stop (Err (DispatchIO e))
         | (Panic, _, _) \<Rightarrow> Stop Panic))"

text \<open>The whole loop, which for a block size of zero never ends (then it has no value).\<close>

partial_function (option) block_dispatch ::
  "block_dispatcher \<Rightarrow> in_stream \<Rightarrow> block sender list \<Rightarrow>
   (block_dispatch_result \<times> block_dispatcher \<times> block sender list) option" where
  "block_dispatch bd inp queues =
     (case block_dispatch_round (length queues) (bd, inp) of
        Stop r \<Rightarrow> Some (r, bd, queues)
      | Emit j b s \<Rightarrow>
          (case send b (queues ! j) of
             Ok q \<Rightarrow> block_dispatch (fst s) (snd s) (queues[j := q])
           | Err x \<Rightarrow> Some (Err (dispatcher_from_send_error x), bd, queues)
           | Panic \<Rightarrow> Some (Panic, bd, queues)))"

section \<open>The packet forwarder\<close>

fun forward_packets ::
  "('oti, 'plan, 'enc, 'pkt, 'dec) raptorq \<Rightarrow> 'pkt list \<Rightarrow> out_stream \<Rightarrow>
   (error_kind, unit) outcome \<times> out_stream" where
  "forward_packets R [] w = (Ok (), w)"
| "forward_packets R (p # ps) w =
     (case write_all (pkt_serialize R p) w of
        (Ok _, w') \<Rightarrow> forward_packets R ps w'
      | (Err e, w') \<Rightarrow> (Err e, w')
      | (Panic, w') \<Rightarrow> (Panic, w'))"

section \<open>The encoder\<close>

text \<open>
  A \<open>JoinHandle\<close> is the number of its thread, in the order in which threads are spawned.
\<close>

record encoder =
  enc_block_size :: usize
  enc_max_packet_size :: u16
  enc_repair_packets_per_block :: u32
  enc_num_block_encoders :: usize
  enc_block_dispatcher :: "nat option"
  enc_should_stop :: flag
  enc_block_encoders :: "nat list"
  enc_packet_forwarder :: "nat option"

definition encoder_new :: "usize \<Rightarrow> u16 \<Rightarrow> u32 \<Rightarrow> usize \<Rightarrow> encoder" where
  "encoder_new block_size max_packet_size repair_packets_per_block num_block_encoders =
     \<lparr>enc_block_size = block_size, enc_max_packet_size = max_packet_size,
      enc_repair_packets_per_block = repair_packets_per_block,
      enc_num_block_encoders = num_block_encoders,
      enc_block_dispatcher = None, enc_should_stop = None, enc_block_encoders = [],
      enc_packet_forwarder = None\<rparr>"

text \<open>
  What one worker thread does with one block (the body of the loop of \<open>encode_stream\<close>), what
  the forwarder does with one packet, and the machine of the threads of an encoder.
\<close>

definition encode_work ::
  "('oti, 'plan, 'enc, 'pkt, 'dec) raptorq \<Rightarrow> ('oti, 'plan) block_encoder \<Rightarrow> block \<Rightarrow>
   'pkt list \<times> ('oti, 'plan) block_encoder option" where
  "encode_work R be b = (case encode R be b of Ok ps \<Rightarrow> (ps, Some be) | _ \<Rightarrow> ([], None))"

definition write_packet ::
  "('oti, 'plan, 'enc, 'pkt, 'dec) raptorq \<Rightarrow> out_stream \<Rightarrow> 'pkt \<Rightarrow> bool \<times> out_stream" where
  "write_packet R w p =
     (case write_all (pkt_serialize R p) w of (Ok _, w') \<Rightarrow> (True, w') | (_, w') \<Rightarrow> (False, w'))"

type_synonym ('oti, 'plan, 'pkt) encoder_machine =
  "(block_dispatcher \<times> in_stream, block, ('oti, 'plan) block_encoder, 'pkt, out_stream,
    block_dispatch_result) machine"

type_synonym ('oti, 'plan, 'pkt) encoder_threads =
  "(block_dispatcher \<times> in_stream, block, ('oti, 'plan) block_encoder, 'pkt, out_stream,
    block_dispatch_result) pstate"

definition encoder_machine ::
  "('oti, 'plan, 'enc, 'pkt, 'dec) raptorq \<Rightarrow> nat \<Rightarrow> ('oti, 'plan, 'pkt) encoder_machine" where
  "encoder_machine R n =
     \<lparr>m_next = block_dispatch_round n, m_refused = (\<lambda>b. Err (dispatcher_from_send_error b)),
      m_work = encode_work R, m_write = write_packet R\<rparr>"

text \<open>The loop that creates the block encoders and spawns their threads.\<close>

fun spawn_block_encoders ::
  "('oti, 'plan, 'enc, 'pkt, 'dec) raptorq \<Rightarrow> nat \<Rightarrow> nat \<Rightarrow> encoder \<Rightarrow> ('oti, 'plan) block_encoder list \<Rightarrow>
   ('pkt encoder_error, ('oti, 'plan) block_encoder list) outcome \<times> nat \<times> encoder" where
  "spawn_block_encoders R 0 tid e bes = (Ok bes, tid, e)"
| "spawn_block_encoders R (Suc n) tid e bes =
     (case block_encoder_new R (enc_block_size e) (enc_max_packet_size e)
             (enc_repair_packets_per_block e) of
        Ok be \<Rightarrow>
          spawn_block_encoders R n (tid + 1)
            (e\<lparr>enc_block_encoders := enc_block_encoders e @ [tid]\<rparr>) (bes @ [be])
      | Err x \<Rightarrow> (Err (encoder_from_block_encoder_error x), tid, e)
      | Panic \<Rightarrow> (Panic, tid, e))"

text \<open>
  \<open>tid\<close> is the number of threads spawned so far. On success the threads run, from the state
  that is returned.
\<close>

definition start_encoding ::
  "('oti, 'plan, 'enc, 'pkt, 'dec) raptorq \<Rightarrow> error_kind + in_stream \<Rightarrow> nat \<Rightarrow> in_stream \<Rightarrow> out_stream \<Rightarrow>
   encoder \<Rightarrow> ('pkt encoder_error, ('oti, 'plan, 'pkt) encoder_threads) outcome \<times> encoder" where
  "start_encoding R urandom tid inp out e =
     (case spawn_block_encoders R (enc_num_block_encoders e) (tid + 1)
             (e\<lparr>enc_packet_forwarder := Some tid\<rparr>) [] of
        (Err x, _, e1) \<Rightarrow> (Err x, e1)
      | (Panic, _, e1) \<Rightarrow> (Panic, e1)
      | (Ok bes, tid1, e1) \<Rightarrow>
          (case block_dispatcher_new urandom (Some tid1) (enc_block_size e1) of
             Err x \<Rightarrow> (Err (encoder_from_block_dispatcher_error x), e1)
           | Panic \<Rightarrow> (Panic, e1)
           | Ok bd \<Rightarrow>
               (Ok (pinit (bd, inp) bes out),
                e1\<lparr>enc_should_stop := bdisp_should_stop bd, enc_block_dispatcher := Some tid1\<rparr>)))"

definition encoder_stop :: "encoder \<Rightarrow> flags \<Rightarrow> flags" where
  "encoder_stop e h = flag_store (enc_should_stop e) h"

text \<open>
  What the dispatcher \<open>bd\<close> of the encoder \<open>e\<close> reads in the course of time: it loads its own flag, new
  since the start whatever was stored before, and every \<open>Stops\<close> is a call of \<open>stop\<close> on \<open>e\<close>.
\<close>

definition encoder_observes :: "encoder \<Rightarrow> block_dispatcher \<Rightarrow> flags \<Rightarrow> happening list \<Rightarrow> in_stream" where
  "encoder_observes e bd h es =
     loads (encoder_stop e) (bdisp_should_stop bd) (flag_new (bdisp_should_stop bd) h) es"

text \<open>\<open>joined t\<close> says that thread \<open>t\<close> ended without a panic.\<close>

definition encoder_wait ::
  "(nat \<Rightarrow> bool) \<Rightarrow> encoder \<Rightarrow> ('pkt encoder_error, unit) outcome \<times> encoder" where
  "encoder_wait joined e =
     (case enc_block_dispatcher e of
        None \<Rightarrow> (Err (EncoderInvalidState ''Block dispatcher not initialized''), e)
      | Some d \<Rightarrow>
          let e = e\<lparr>enc_block_dispatcher := None\<rparr>
          in case enc_packet_forwarder e of
               None \<Rightarrow> (Err (EncoderInvalidState ''Packet forwarder not initialized''), e)
             | Some f \<Rightarrow>
                 let e = e\<lparr>enc_packet_forwarder := None\<rparr>
                 in if \<not> joined d then (Panic, e)
                    else
                      let handles = enc_block_encoders e; e = e\<lparr>enc_block_encoders := []\<rparr>
                      in if \<not> list_all joined handles then (Panic, e)
                         else if \<not> joined f then (Panic, e)
                         else (Ok (), e))"

section \<open>Specification of the dispatcher\<close>

text \<open>The blocks of a byte sequence: pieces of the block size under consecutive ids.\<close>

function cut_blocks :: "usize \<Rightarrow> u8 \<Rightarrow> bytes \<Rightarrow> block list" where
  "cut_blocks bs i c =
     (if bs = 0 \<or> length c < bs then []
      else \<lparr>block_id = i, block_data = take bs c\<rparr> # cut_blocks bs (i + 1) (drop bs c))"
  by pat_completeness auto
termination
  by (relation "measure (\<lambda>(bs, i, c). length c)") auto

declare cut_blocks.simps [simp del]

definition block_route :: "nat \<Rightarrow> block \<Rightarrow> nat" where
  "block_route n b = unat (block_id b) mod n"

text \<open>What the dispatcher returns for the way in which its input ended.\<close>

definition dispatch_end :: "error_kind \<Rightarrow> block_dispatch_result" where
  "dispatch_end e = (if e = UnexpectedEof \<or> e = Interrupted then Ok () else Err (DispatchIO e))"

section \<open>Lemmas\<close>

lemma cut_blocks_short: "length c < bs \<Longrightarrow> cut_blocks bs i c = []"
  by (simp add: cut_blocks.simps)

lemma cut_blocks_step:
  "\<lbrakk>0 < bs; bs \<le> length c\<rbrakk> \<Longrightarrow>
   cut_blocks bs i c = \<lparr>block_id = i, block_data = take bs c\<rparr> # cut_blocks bs (i + 1) (drop bs c)"
  by (subst cut_blocks.simps) simp

lemma length_cut_blocks: "0 < bs \<Longrightarrow> length (cut_blocks bs i c) = length c div bs"
proof (induction bs i c rule: cut_blocks.induct)
  case (1 bs i c)
  then show ?case by (cases "length c < bs") (simp_all add: cut_blocks_short cut_blocks_step le_div_geq)
qed

lemma cut_blocks_nth:
  "\<lbrakk>0 < bs; k < length c div bs\<rbrakk> \<Longrightarrow>
   cut_blocks bs i c ! k = \<lparr>block_id = i + of_nat k, block_data = take bs (drop (k * bs) c)\<rparr>"
proof (induction k arbitrary: i c)
  case 0
  then show ?case by (simp add: cut_blocks_step div_greater_zero_iff)
next
  case (Suc k)
  then have "bs \<le> length c" by (metis div_greater_zero_iff gr_implies_not0 not_gr_zero)
  then show ?case using Suc by (simp add: cut_blocks_step le_div_geq algebra_simps)
qed

lemma cut_blocks_data:
  "0 < bs \<Longrightarrow> concat (map block_data (cut_blocks bs i c)) = take (bs * (length c div bs)) c"
proof (induction bs i c rule: cut_blocks.induct)
  case (1 bs i c)
  then show ?case
    by (cases "length c < bs") (simp_all add: cut_blocks_short cut_blocks_step le_div_geq take_add)
qed

lemma cut_blocks_sized: "b \<in> set (cut_blocks bs i c) \<Longrightarrow> length (block_data b) = bs"
proof (induction bs i c rule: cut_blocks.induct)
  case (1 bs i c)
  then show ?case by (subst (asm) (2) cut_blocks.simps) (auto split: if_splits)
qed

text \<open>One round, and then the whole loop, in terms of the content of the input.\<close>

lemma block_dispatch_round_full:
  assumes "bdisp_block_size bd \<le> length (flow codec_retry inp)" "0 < n"
  shows "\<exists>inp'. block_dispatch_round n (bd, inp) =
      Emit (unat (bdisp_block_id bd) mod n)
        \<lparr>block_id = bdisp_block_id bd, block_data = take (bdisp_block_size bd) (flow codec_retry inp)\<rparr>
        (bd\<lparr>bdisp_block_id := bdisp_block_id bd + 1\<rparr>, inp') \<and>
      flow codec_retry inp' = drop (bdisp_block_size bd) (flow codec_retry inp) \<and>
      flow_end codec_retry codec_report inp' = flow_end codec_retry codec_report inp"
  using codec_reader.rd_enough [of "replicate (bdisp_block_size bd) 0" inp] assms
  by (auto simp: block_dispatch_round_def)

lemma block_dispatch_round_short:
  assumes "length (flow codec_retry inp) < bdisp_block_size bd"
  shows "block_dispatch_round n (bd, inp) = Stop (dispatch_end (flow_end codec_retry codec_report inp))"
  using codec_reader.rd_short [of inp "replicate (bdisp_block_size bd) 0"] assms
  by (auto simp: block_dispatch_round_def dispatch_end_def)

definition routed_blocks :: "nat \<Rightarrow> block_dispatcher \<Rightarrow> in_stream \<Rightarrow> (nat \<times> block) list" where
  "routed_blocks n bd inp = map (\<lambda>b. (block_route n b, b))
     (cut_blocks (bdisp_block_size bd) (bdisp_block_id bd) (flow codec_retry inp))"

lemma dispatcher_emits:
  assumes "0 < n" "0 < bdisp_block_size bd" "m_next M = block_dispatch_round n"
  shows "emits M (bd, inp) (routed_blocks n bd inp) (dispatch_end (flow_end codec_retry codec_report inp))"
  using assms
proof (induction "length (flow codec_retry inp)" arbitrary: bd inp rule: less_induct)
  case less
  let ?bs = "bdisp_block_size bd"
  show ?case
  proof (cases "length (flow codec_retry inp) < ?bs")
    case True
    then show ?thesis
      using less.prems by (auto simp: routed_blocks_def cut_blocks_short block_dispatch_round_short intro: emits_Stop)
  next
    case False
    then obtain inp' where r: "block_dispatch_round n (bd, inp) =
        Emit (unat (bdisp_block_id bd) mod n)
          \<lparr>block_id = bdisp_block_id bd, block_data = take ?bs (flow codec_retry inp)\<rparr>
          (bd\<lparr>bdisp_block_id := bdisp_block_id bd + 1\<rparr>, inp')"
        "flow codec_retry inp' = drop ?bs (flow codec_retry inp)"
        "flow_end codec_retry codec_report inp' = flow_end codec_retry codec_report inp"
      using block_dispatch_round_full [of bd inp n] less.prems(1) by fastforce
    have "emits M (bd\<lparr>bdisp_block_id := bdisp_block_id bd + 1\<rparr>, inp')
        (routed_blocks n (bd\<lparr>bdisp_block_id := bdisp_block_id bd + 1\<rparr>) inp')
        (dispatch_end (flow_end codec_retry codec_report inp'))"
      using less.prems False r(2) by (intro less.hyps) auto
    moreover have "routed_blocks n bd inp = (unat (bdisp_block_id bd) mod n,
        \<lparr>block_id = bdisp_block_id bd, block_data = take ?bs (flow codec_retry inp)\<rparr>) #
        routed_blocks n (bd\<lparr>bdisp_block_id := bdisp_block_id bd + 1\<rparr>) inp'"
      using False less.prems r(2) by (simp add: routed_blocks_def cut_blocks_step block_route_def)
    ultimately show ?thesis using r less.prems(3) by (auto intro: emits_Emit)
  qed
qed

lemma routed_blocks_range: "\<lbrakk>0 < n; j \<in> fst ` set (routed_blocks n bd inp)\<rbrakk> \<Longrightarrow> j < n"
  by (auto simp: routed_blocks_def block_route_def)

lemma routed_routed_blocks:
  "routed (routed_blocks n bd inp) j =
     filter (\<lambda>b. block_route n b = j)
       (cut_blocks (bdisp_block_size bd) (bdisp_block_id bd) (flow codec_retry inp))"
  by (simp add: routed_def routed_blocks_def filter_map comp_def)

text \<open>The sequential loop does to open queues what the emissions say.\<close>

lemma block_dispatch_emits:
  assumes "emits M s items r" "m_next M = block_dispatch_round (length queues)"
    and "\<forall>q \<in> set queues. hangup q = None" "\<forall>p \<in> set items. fst p < length queues"
  shows "\<exists>bd'. block_dispatch (fst s) (snd s) queues = Some (r, bd',
     map (\<lambda>j. (queues ! j)\<lparr>sent := sent (queues ! j) @ routed items j\<rparr>) [0..<length queues])"
  using assms
proof (induction arbitrary: queues rule: emits.induct)
  case (emits_Stop s r)
  then show ?case
    by (subst block_dispatch.simps) (auto intro!: nth_equalityI)
next
  case (emits_Emit s j x s' items r)
  let ?q = "(queues ! j)\<lparr>sent := sent (queues ! j) @ [x]\<rparr>"
  have j: "j < length queues" using emits_Emit.prems by simp
  have "send x (queues ! j) = Ok ?q" using emits_Emit.prems(2) j by simp
  then have "block_dispatch (fst s) (snd s) queues = block_dispatch (fst s') (snd s') (queues[j := ?q])"
    using emits_Emit.hyps emits_Emit.prems(1) by (subst block_dispatch.simps) simp
  moreover have "\<forall>q \<in> set (queues[j := ?q]). hangup q = None"
    using emits_Emit.prems(2) j set_update_subset_insert [of queues j ?q] by auto
  then have "\<exists>bd'. block_dispatch (fst s') (snd s') (queues[j := ?q]) = Some (r, bd',
     map (\<lambda>k. (queues[j := ?q] ! k)\<lparr>sent := sent (queues[j := ?q] ! k) @ routed items k\<rparr>)
       [0..<length (queues[j := ?q])])"
    using emits_Emit.prems by (intro emits_Emit.IH) auto
  moreover have "map (\<lambda>k. (queues[j := ?q] ! k)\<lparr>sent := sent (queues[j := ?q] ! k) @ routed items k\<rparr>)
       [0..<length (queues[j := ?q])] =
     map (\<lambda>k. (queues ! k)\<lparr>sent := sent (queues ! k) @ routed ((j, x) # items) k\<rparr>) [0..<length queues]"
    using j by (auto simp: nth_list_update)
  ultimately show ?case by (simp only:)
qed

section \<open>The threads of an encoder\<close>

lemma encoder_machine_sel [simp]:
  "m_next (encoder_machine R n) = block_dispatch_round n"
  "m_work (encoder_machine R n) = encode_work R" "m_write (encoder_machine R n) = write_packet R"
  by (simp_all add: encoder_machine_def)

text \<open>What the dispatcher emits, also when there is no queue at all.\<close>

definition encoder_items :: "nat \<Rightarrow> block_dispatcher \<times> in_stream \<Rightarrow> (nat \<times> block) list" where
  "encoder_items n s = (if n = 0 then [] else routed_blocks n (fst s) (snd s))"

definition encoder_result :: "nat \<Rightarrow> block_dispatcher \<times> in_stream \<Rightarrow> block_dispatch_result" where
  "encoder_result n s =
     (if n = 0 \<and> bdisp_block_size (fst s) \<le> length (flow codec_retry (snd s)) then Panic
      else dispatch_end (flow_end codec_retry codec_report (snd s)))"

lemma encoder_emits:
  assumes "0 < bdisp_block_size (fst s)"
  shows "emits (encoder_machine R n) s (encoder_items n s) (encoder_result n s)"
proof (cases "n = 0")
  case True
  obtain bd inp where s: "s = (bd, inp)" by fastforce
  show ?thesis
  proof (cases "bdisp_block_size bd \<le> length (flow codec_retry inp)")
    case full: True
    then have "block_dispatch_round 0 s = Stop Panic"
      using codec_reader.rd_enough [of "replicate (bdisp_block_size bd) 0" inp]
      by (auto simp: block_dispatch_round_def s)
    then show ?thesis using True full s by (simp add: encoder_items_def encoder_result_def emits_Stop)
  next
    case False
    then show ?thesis
      using True s block_dispatch_round_short [of inp bd 0]
      by (auto simp: encoder_items_def encoder_result_def intro: emits_Stop)
  qed
next
  case False
  then show ?thesis
    using assms dispatcher_emits [of n "fst s" "encoder_machine R n" "snd s"]
    by (simp add: encoder_items_def encoder_result_def)
qed

lemma encoder_items_range: "j \<in> fst ` set (encoder_items n s) \<Longrightarrow> j < n"
  using routed_blocks_range by (auto simp: encoder_items_def split: if_splits)

lemma write_packet_ok:
  "benign w \<Longrightarrow> fst (write_packet R w p) \<and> benign (snd (write_packet R w p))"
  using write_all_benign [of w "pkt_serialize R p"]
  by (auto simp: write_packet_def split: prod.splits outcome.splits)

lemma write_packet_written:
  assumes "benign w"
  shows "written (snd (write_packet R w p)) = written w @ pkt_serialize R p"
proof -
  obtain w' where "write_all (pkt_serialize R p) w = (Ok (), w')"
    using write_all_benign [OF assms, of "pkt_serialize R p"] by (metis prod.collapse)
  then show ?thesis
    using write_all_written [of "pkt_serialize R p" w] by (auto simp: write_packet_def)
qed

lemma write_packets_written:
  "benign w \<Longrightarrow>
   written (write_seq (encoder_machine R n) w ps) = written w @ concat (map (pkt_serialize R) ps)"
  by (induction ps arbitrary: w) (simp_all add: write_seq_def write_packet_ok write_packet_written)

text \<open>The threads of an encoder with \<open>n\<close> workers fulfil the contract of a pipeline.\<close>

interpretation enc_pipe:
  worker_pipeline "encoder_machine R n" n "\<lambda>s. 0 < bdisp_block_size (fst s)"
    "encoder_items n" "encoder_result n"
  by unfold_locales (auto simp only: encoder_emits encoder_items_range)

interpretation enc_ok:
  healthy_pipeline "encoder_machine R (Suc m)" "Suc m"
    "\<lambda>s. bdisp_block_size (fst s) = Suc k"
    "encoder_items (Suc m)" "encoder_result (Suc m)" "\<lambda>be. be_block_size be = Suc k"
    "\<lambda>b. length (block_data b) = Suc k" benign
proof (unfold_locales, goal_cases)
  case (1 d)
  then show ?case by (simp add: encoder_emits)
next
  case (2 d j)
  then show ?case by (simp only: encoder_items_range)
next
  case (4 d x)
  then show ?case by (auto simp: encoder_items_def routed_blocks_def cut_blocks_sized)
next
  case (5 w x)
  then show ?case by (simp add: encode_work_def encode_eq well_sized_def)
next
  case (6 f y)
  then show ?case by (simp add: write_packet_ok)
qed simp

lemma encoder_outs:
  "\<forall>b \<in> set bs. well_sized be b \<Longrightarrow>
   outs (encoder_machine R n) be bs = concat (map (block_packets R be) bs)"
  by (induction bs) (simp_all add: encode_work_def encode_eq)

text \<open>The same for one worker thread on its own: \<open>encode_stream\<close> sends what the machine says.\<close>

lemma encode_stream_outs:
  "sent (snd (encode_stream R be bs \<lparr>sent = [], hangup = None\<rparr>)) = outs (encoder_machine R n) be bs"
proof -
  have "sent (snd (encode_stream R be bs \<lparr>sent = xs, hangup = None\<rparr>)) =
      xs @ outs (encoder_machine R n) be bs" for xs
  proof (induction bs arbitrary: xs)
    case (Cons b bs)
    then show ?case
      by (simp add: encode_work_def encode_eq send_packets_deliver first_refused_def deliver_def)
  qed simp
  then show ?thesis by simp
qed

lemma forward_packets_write_seq:
  "benign w \<Longrightarrow> forward_packets R ps w = (Ok (), write_seq (encoder_machine R n) w ps)"
proof (induction ps arbitrary: w)
  case (Cons p ps)
  obtain w' where "write_all (pkt_serialize R p) w = (Ok (), w')" "benign w'"
    using write_all_benign [OF Cons.prems, of "pkt_serialize R p"] by (metis prod.collapse)
  then show ?case using Cons by (simp add: write_seq_def write_packet_def)
qed (simp add: write_seq_def)

text \<open>
  The packet forwarder writes a prefix of the serialised packets, all of them exactly when it
  reports success, each byte once and in order; on a writer that never refuses for good it
  succeeds.
\<close>

lemma forward_packets_behaviour:
  "(\<exists>k. written (snd (forward_packets R ps w)) = written w @ take k (concat (map (pkt_serialize R) ps))) \<and>
   (fst (forward_packets R ps w) = Ok () \<longrightarrow>
      written (snd (forward_packets R ps w)) = written w @ concat (map (pkt_serialize R) ps)) \<and>
   (benign w \<longrightarrow> fst (forward_packets R ps w) = Ok ())"
proof (induction ps arbitrary: w)
  case (Cons p ps)
  obtain r w' where r: "write_all (pkt_serialize R p) w = (r, w')" by fastforce
  note wr = write_all_written [of "pkt_serialize R p" w] write_all_benign [of w "pkt_serialize R p"]
  obtain k0 k1 where k: "written w' = written w @ take k0 (pkt_serialize R p)" "take k0 (pkt_serialize R p) = take k1 (pkt_serialize R p @ concat (map (pkt_serialize R) ps))"
    using wr(1) r take_take_append [of _ "pkt_serialize R p" "concat (map (pkt_serialize R) ps)"] by (metis snd_conv)
  show ?case
  proof (cases r)
    case (Ok u)
    then have w': "written w' = written w @ pkt_serialize R p" using wr(1) r by auto
    obtain k where "written (snd (forward_packets R ps w')) = written w' @ take k (concat (map (pkt_serialize R) ps))"
      using Cons.IH by blast
    then show ?thesis
      using Ok r w' wr(2) Cons.IH [of w'] by (auto intro!: exI [of _ "length (pkt_serialize R p) + k"])
  qed (use r wr(2) k in \<open>auto intro!: exI [of _ k1]\<close>)+
qed simp

lemma forward_packets_forward_all:
  "snd (forward_packets R ps w) = forward_all (encoder_machine R n) w ps"
  by (induction ps arbitrary: w) (simp_all add: write_packet_def split: prod.splits outcome.splits)

text \<open>Starting.\<close>

lemma spawn_block_encoders_Ok:
  assumes "block_encoder_new R (enc_block_size e) (enc_max_packet_size e)
      (enc_repair_packets_per_block e) = Ok be"
  shows "spawn_block_encoders R n tid e bes =
    (Ok (bes @ replicate n be), tid + n, e\<lparr>enc_block_encoders := enc_block_encoders e @ [tid..<tid + n]\<rparr>)"
  using assms
  by (induction n arbitrary: tid e bes)
    (simp_all add: upt_conv_Cons replicate_app_Cons_same)

lemma start_encoding_Ok:
  assumes "start_encoding R urandom tid inp out (encoder_new bs mps rep n) = (Ok s, e)"
  obtains i bes where "get_random_u8 urandom = Ok i" "length bes = n"
    "0 < n \<Longrightarrow> \<exists>be. block_encoder_new R bs mps rep = Ok be \<and> bes = replicate n be"
    "s = pinit (\<lparr>bdisp_block_size = bs, bdisp_block_id = i, bdisp_should_stop = Some (tid + 1 + n)\<rparr>, inp) bes out"
    "e = (encoder_new bs mps rep n)
       \<lparr>enc_packet_forwarder := Some tid, enc_block_encoders := [tid + 1..<tid + 1 + n],
        enc_should_stop := Some (tid + 1 + n), enc_block_dispatcher := Some (tid + 1 + n)\<rparr>"
proof -
  let ?e = "(encoder_new bs mps rep n)\<lparr>enc_packet_forwarder := Some tid\<rparr>"
  have "\<exists>bes. length bes = n \<and> (0 < n \<longrightarrow> (\<exists>be. block_encoder_new R bs mps rep = Ok be \<and> bes = replicate n be)) \<and>
      spawn_block_encoders R n (tid + 1) ?e [] =
        (Ok bes, tid + 1 + n, ?e\<lparr>enc_block_encoders := [tid + 1..<tid + 1 + n]\<rparr>)"
  proof (cases "block_encoder_new R bs mps rep")
    case (Ok be)
    then show ?thesis
      using spawn_block_encoders_Ok [of R ?e be n "tid + 1" "[]"] by (simp add: encoder_new_def)
  qed (use assms in \<open>cases n; auto simp: start_encoding_def encoder_new_def\<close>)+
  then obtain bes where bes: "length bes = n"
      "0 < n \<Longrightarrow> \<exists>be. block_encoder_new R bs mps rep = Ok be \<and> bes = replicate n be"
      "spawn_block_encoders R n (tid + 1) ?e [] =
        (Ok bes, tid + 1 + n, ?e\<lparr>enc_block_encoders := [tid + 1..<tid + 1 + n]\<rparr>)"
    by blast
  moreover obtain i where "get_random_u8 urandom = Ok i"
    using assms bes(3) by (cases "get_random_u8 urandom")
      (auto simp: start_encoding_def block_dispatcher_new_def encoder_new_def simp del: upt_Suc)
  ultimately show ?thesis
    using assms by (intro that [of i bes])
      (auto simp: start_encoding_def block_dispatcher_new_def encoder_new_def simp del: upt_Suc)
qed

text \<open>An encoder with a valid configuration starts, and can run to its end.\<close>

lemma start_encoding_runs:
  assumes "block_encoder_new R bs mps rep = Ok be" "get_random_u8 urandom = Ok i" "0 < bs"
  obtains s0 e ls s where "start_encoding R urandom tid inp out (encoder_new bs mps rep n) = (Ok s0, e)"
    "psteps (encoder_machine R n) ls s0 s" "all_ended s"
proof -
  let ?d = "(\<lparr>bdisp_block_size = bs, bdisp_block_id = i, bdisp_should_stop = Some (tid + 1 + n)\<rparr>, inp)"
  have "fst (start_encoding R urandom tid inp out (encoder_new bs mps rep n)) = Ok (pinit ?d (replicate n be) out)"
    using spawn_block_encoders_Ok [of R "(encoder_new bs mps rep n)\<lparr>enc_packet_forwarder := Some tid\<rparr>" be n "tid + 1" "[]"]
      assms(1,2) by (simp add: start_encoding_def block_dispatcher_new_def encoder_new_def)
  moreover obtain ls s where "psteps (encoder_machine R n) ls (pinit ?d (replicate n be) out) s" "all_ended s"
    using enc_pipe.some_run [of ?d "replicate n be" n R out] assms(3) by auto
  ultimately show ?thesis using that by (metis prod.collapse)
qed

text \<open>The blocks of a stream in closed form.\<close>

lemma cut_blocks_eq:
  assumes "0 < bs"
  shows "cut_blocks bs i c =
    map (\<lambda>k. \<lparr>block_id = i + of_nat k, block_data = take bs (drop (k * bs) c)\<rparr>) [0..<length c div bs]"
  using assms by (intro nth_equalityI) (simp_all add: length_cut_blocks cut_blocks_nth)

text \<open>What a worker makes of its share of the blocks.\<close>

lemma encoder_share:
  assumes "block_encoder_new R bs mps rep = Ok be" "j < n"
  shows "outs (encoder_machine R n) be
      (routed (encoder_items n (\<lparr>bdisp_block_size = bs, bdisp_block_id = i, bdisp_should_stop = fl\<rparr>, inp)) j) =
    concat (map (block_packets R be) (filter (\<lambda>b. block_route n b = j) (cut_blocks bs i (flow codec_retry inp))))"
proof -
  have "\<forall>b \<in> set (filter (\<lambda>b. block_route n b = j) (cut_blocks bs i (flow codec_retry inp))). well_sized be b"
    using block_encoder_new_Ok(1) [OF assms(1)] by (auto simp: well_sized_def cut_blocks_sized)
  then show ?thesis using assms(2) by (simp add: encoder_items_def routed_routed_blocks encoder_outs)
qed

text \<open>All threads of an encoder together, from the state in which they start.\<close>

lemma encoder_threads_output:
  assumes be: "block_encoder_new R bs mps rep = Ok be" and pos: "0 < bs" "0 < n" and out: "benign out"
    and run: "psteps (encoder_machine R n) ls
      (pinit (\<lparr>bdisp_block_size = bs, bdisp_block_id = i, bdisp_should_stop = fl\<rparr>, inp) (replicate n be) out) s" "all_ended s"
  obtains packets where "merge_of n (\<lambda>j. concat (map (block_packets R be)
       (filter (\<lambda>b. block_route n b = j) (cut_blocks bs i (flow codec_retry inp))))) packets"
    and "written (forwarder s) = written out @ concat (map (pkt_serialize R) packets)"
proof -
  obtain m k where mk: "n = Suc m" "bs = Suc k" using pos by (metis Suc_pred)
  let ?bd = "\<lparr>bdisp_block_size = bs, bdisp_block_id = i, bdisp_should_stop = fl\<rparr>"
  let ?blocks = "cut_blocks bs i (flow codec_retry inp)"
  have size: "be_block_size be = bs" using block_encoder_new_Ok(1) [OF be] .
  obtain packets where p: "merge_of n (\<lambda>j. outs (encoder_machine R n) (replicate n be ! j)
       (routed (encoder_items n (?bd, inp)) j)) packets"
      "forwarder s = write_seq (encoder_machine R n) out packets"
    by (rule enc_ok.complete_run [of "(?bd, inp)" k "replicate n be" m out R ls s, folded mk])
      (use out run size mk in auto)
  have "merge_of n (\<lambda>j. concat (map (block_packets R be) (filter (\<lambda>b. block_route n b = j) ?blocks))) packets"
    using p(1) encoder_share [OF be] by (simp add: merge_of_def)
  then show ?thesis using that p(2) write_packets_written [OF out] by auto
qed

lemma write_packets_benign: "benign w \<Longrightarrow> benign (write_seq (encoder_machine R n) w ps)"
  by (induction ps arbitrary: w) (simp_all add: write_seq_def write_packet_ok)

lemma encoder_no_panic:
  assumes "psteps (encoder_machine R n) ls (pinit d ws out) t" "0 < n"
  shows "dispatcher t \<noteq> Inr Panic"
proof
  assume t: "dispatcher t = Inr Panic"
  have "dispatcher (pinit d ws out) = Inl d" by (simp add: pinit_def)
  from psteps_dispatcher_end [OF assms(1) this t]
  obtain d' where d: "block_dispatch_round n d' = Stop Panic" by (auto simp: encoder_machine_def)
  obtain bd inp where s: "d' = (bd, inp)" by fastforce
  show False
  proof (cases "bdisp_block_size bd \<le> length (flow codec_retry inp)")
    case True
    then show ?thesis using d block_dispatch_round_full [of bd inp n] assms(2) by (auto simp: s)
  next
    case False
    then show ?thesis using d block_dispatch_round_short [of inp bd n]
      by (auto simp: s dispatch_end_def split: if_splits)
  qed
qed

section \<open>Properties\<close>

text \<open>
  C14. The dispatcher: whatever the reads look like, it cuts the input into blocks of the
  configured size with consecutive ids (modulo 256), drops an incomplete last block, appends
  block \<open>k\<close> to the queue with the index of its id modulo the number of queues, in order, and
  returns \<open>Ok\<close> at the end of the stream or when it is stopped, and the error otherwise. It
  terminates for every positive block size.
\<close>

theorem block_dispatch_correct:
  fixes bd :: block_dispatcher and inp :: in_stream
  assumes "queues \<noteq> []" "\<forall>q \<in> set queues. hangup q = None" "0 < bdisp_block_size bd"
  defines "bs \<equiv> bdisp_block_size bd" and "c \<equiv> flow codec_retry inp"
  shows "\<exists>bd' queues'. block_dispatch bd inp queues =
      Some (dispatch_end (flow_end codec_retry codec_report inp), bd', queues') \<and>
    length queues' = length queues \<and>
    (\<forall>j < length queues. sent (queues' ! j) = sent (queues ! j) @
       filter (\<lambda>b. unat (block_id b) mod length queues = j)
         (map (\<lambda>k. \<lparr>block_id = bdisp_block_id bd + of_nat k, block_data = take bs (drop (k * bs) c)\<rparr>)
            [0..<length c div bs]))"
proof -
  let ?n = "length queues"
  let ?M = "\<lparr>m_next = block_dispatch_round ?n, m_refused = (\<lambda>b. Err (DispatchSend b)),
    m_work = \<lambda>(w::unit) x. ([] :: unit list, None), m_write = \<lambda>(f::unit) y. (True, ())\<rparr>"
  have "emits ?M (bd, inp) (routed_blocks ?n bd inp) (dispatch_end (flow_end codec_retry codec_report inp))"
    using assms(1,3) by (intro dispatcher_emits) auto
  from block_dispatch_emits [OF this _ assms(2)] obtain bd' where
    "block_dispatch bd inp queues = Some (dispatch_end (flow_end codec_retry codec_report inp), bd',
      map (\<lambda>j. (queues ! j)\<lparr>sent := sent (queues ! j) @ routed (routed_blocks ?n bd inp) j\<rparr>) [0..<?n])"
    using routed_blocks_range [of ?n] assms(1) by fastforce
  then show ?thesis
    by (simp add: routed_routed_blocks cut_blocks_eq [OF assms(3)] block_route_def bs_def c_def)
qed

theorem block_dispatch_correct_witness:
  "\<exists>bd' queues'. block_dispatch \<lparr>bdisp_block_size = 2, bdisp_block_id = 255, bdisp_should_stop = None\<rparr>
       [Bytes [1, 2, 3], Fails Interrupted False, Bytes [4, 5]]
       [\<lparr>sent = [], hangup = None\<rparr>, \<lparr>sent = [], hangup = None\<rparr>] = Some (Ok (), bd', queues') \<and>
     map sent queues' = [[\<lparr>block_id = 0, block_data = [3, 4]\<rparr>], [\<lparr>block_id = 255, block_data = [1, 2]\<rparr>]]"
proof -
  let ?q = "\<lparr>sent = [], hangup = None\<rparr> :: block sender"
  let ?bd = "\<lparr>bdisp_block_size = 2, bdisp_block_id = 255, bdisp_should_stop = None\<rparr> :: block_dispatcher"
  let ?inp = "[Bytes [1, 2, 3], Fails Interrupted False, Bytes [4, 5]]"
  let ?blocks = "[\<lparr>block_id = 255, block_data = [1, 2]\<rparr>, \<lparr>block_id = 0, block_data = [3, 4]\<rparr>] :: block list"
  have c: "flow codec_retry ?inp = [1, 2, 3, 4, 5]" "flow_end codec_retry codec_report ?inp = UnexpectedEof"
    by (simp_all add: retryable_def)
  have b: "map (\<lambda>k. \<lparr>block_id = bdisp_block_id ?bd + of_nat k,
      block_data = take 2 (drop (k * 2) [1, 2, 3, 4, 5])\<rparr>) [0..<length [1, 2, 3, 4, 5 :: u8] div 2] = ?blocks"
    by code_simp
  have "\<forall>q \<in> set [?q, ?q]. hangup q = None" by simp
  from block_dispatch_correct [OF _ this, of ?bd ?inp, unfolded c]
  obtain bd' qs where r: "block_dispatch ?bd ?inp [?q, ?q] = Some (dispatch_end UnexpectedEof, bd', qs)"
      "length qs = length [?q, ?q]"
      "\<forall>j < length [?q, ?q]. sent (qs ! j) = sent ([?q, ?q] ! j) @
        filter (\<lambda>b. unat (block_id b) mod length [?q, ?q] = j) ?blocks"
    unfolding block_dispatcher.simps b by auto
  have "sent (qs ! 0) = filter (\<lambda>b. unat (block_id b) mod 2 = 0) ?blocks"
      "sent (qs ! 1) = filter (\<lambda>b. unat (block_id b) mod 2 = 1) ?blocks"
    using r(3) by (simp_all add: numeral_2_eq_2)
  then have "sent (qs ! 0) = [\<lparr>block_id = 0, block_data = [3, 4]\<rparr>]"
      "sent (qs ! 1) = [\<lparr>block_id = 255, block_data = [1, 2]\<rparr>]"
    by simp_all
  moreover have "map sent qs = [sent (qs ! 0), sent (qs ! 1)]"
    using r(2) by (intro nth_equalityI) (auto simp: less_Suc_eq)
  ultimately show ?thesis using r(1) by (auto simp: dispatch_end_def)
qed


text \<open>
  C12. The encoder under every schedule of its threads: when all of them have ended, the output
  holds the serialised packets of all blocks, each packet once, the packets of the blocks of
  one worker in order, and those of different workers interleaved.
\<close>

theorem encoder_output:
  assumes "start_encoding R urandom tid inp out (encoder_new bs mps rep n) = (Ok s0, e)"
    and "0 < bs" "0 < n" "benign out"
    and "psteps (encoder_machine R n) ls s0 s" "all_ended s"
  shows "\<exists>be i packets. block_encoder_new R bs mps rep = Ok be \<and> get_random_u8 urandom = Ok i \<and>
    merge_of n (\<lambda>j. concat (map (block_packets R be)
       (filter (\<lambda>b. block_route n b = j) (cut_blocks bs i (flow codec_retry inp))))) packets \<and>
    written (forwarder s) = written out @ concat (map (pkt_serialize R) packets)"
proof -
  obtain i be where "get_random_u8 urandom = Ok i" "block_encoder_new R bs mps rep = Ok be"
      "s0 = pinit (\<lparr>bdisp_block_size = bs, bdisp_block_id = i, bdisp_should_stop = Some (tid + 1 + n)\<rparr>, inp) (replicate n be) out"
    using start_encoding_Ok [OF assms(1)] assms(3) by metis
  then show ?thesis using encoder_threads_output [OF _ assms(2-4) _ assms(6)] assms(5) by metis
qed

theorem encoder_output_witness:
  "\<exists>s0 e ls s. start_encoding rep_code (Inr [Bytes [7]]) 0 [Bytes [1, 2, 3]] \<lparr>writes = [], wscript = []\<rparr>
       (encoder_new 2 5 1 1) = (Ok s0, e) \<and>
     psteps (encoder_machine rep_code 1) ls s0 s \<and> all_ended s \<and>
     written (forwarder s) = [7, 0, 0, 0, 1, 7, 0, 0, 1, 2, 7, 0, 0, 0, 1]"
proof -
  let ?out = "\<lparr>writes = [], wscript = []\<rparr> :: out_stream"
  obtain s0 e ls s where e: "start_encoding rep_code (Inr [Bytes [7]]) 0 [Bytes [1, 2, 3]] ?out (encoder_new 2 5 1 1) =
      (Ok s0, e)" and run: "psteps (encoder_machine rep_code 1) ls s0 s" "all_ended s"
    by (rule start_encoding_runs [OF rep_encoder random_byte, where n = 1]) simp
  have "benign ?out" by (simp add: benign_def)
  moreover have "concat (map (pkt_serialize rep_code) (concat (map (block_packets rep_code rep_be)
      (filter (\<lambda>b. block_route 1 b = 0) (cut_blocks 2 7 [1, 2, 3]))))) =
      [7, 0, 0, 0, 1, 7, 0, 0, 1, 2, 7, 0, 0, 0, 1]"
    by code_simp
  ultimately have "written (forwarder s) = [7, 0, 0, 0, 1, 7, 0, 0, 1, 2, 7, 0, 0, 0, 1]"
    using encoder_output [OF e _ _ _ run] rep_encoder by (auto simp: merge_of_one written_def)
  then show ?thesis using e run by blast
qed

text \<open>
  C9. What holds of an encoder in every state it can reach, whatever the schedule and whenever a
  write fails: no queue holds more than ten messages; what has been handed to the packet forwarder
  and what waits for it are together an interleaving of prefixes of the packets of the workers'
  blocks; the forwarder has treated its packets as \<open>forward_packets\<close> does, so the output holds the
  serialised packets in order, up to the first that could not be written.
\<close>

theorem encoder_invariant:
  assumes "start_encoding R urandom tid inp out (encoder_new bs mps rep n) = (Ok s0, e)" "0 < bs" "0 < n"
    and "psteps (encoder_machine R n) ls s0 s"
  shows "bounded s \<and>
    (\<exists>be i parts ps k. block_encoder_new R bs mps rep = Ok be \<and> get_random_u8 urandom = Ok i \<and>
       merge_of n parts (ps @ shared s) \<and>
       (\<forall>j < n. prefix (parts j) (concat (map (block_packets R be)
          (filter (\<lambda>b. block_route n b = j) (cut_blocks bs i (flow codec_retry inp)))))) \<and>
       forwarder s = snd (forward_packets R ps out) \<and>
       written (forwarder s) = written out @ take k (concat (map (pkt_serialize R) ps)))"
proof -
  let ?d = "\<lambda>i. (\<lparr>bdisp_block_size = bs, bdisp_block_id = i, bdisp_should_stop = Some (tid + 1 + n)\<rparr>, inp)"
  obtain i be where st: "get_random_u8 urandom = Ok i" "block_encoder_new R bs mps rep = Ok be"
      "s0 = pinit (?d i) (replicate n be) out"
    using start_encoding_Ok [OF assms(1)] assms(3) by metis
  have d: "0 < bdisp_block_size (fst (?d i))" "length (replicate n be) = n" using assms(2) by simp_all
  note run = assms(4) [unfolded st(3)]
  obtain parts ps where p: "merge_of n parts (ps @ shared s)" "forwarder s = forward_all (encoder_machine R n) out ps"
      "\<forall>j < n. prefix (parts j) (outs (encoder_machine R n) (replicate n be ! j) (routed (encoder_items n (?d i)) j))"
    by (rule enc_pipe.run_prefix [OF d run])
  have "prefix (parts j) (concat (map (block_packets R be)
      (filter (\<lambda>b. block_route n b = j) (cut_blocks bs i (flow codec_retry inp)))))" if "j < n" for j
    using p(3) [rule_format, OF that] that by (simp only: nth_replicate encoder_share [OF st(2) that])
  moreover have f: "forwarder s = snd (forward_packets R ps out)"
    using p(2) forward_packets_forward_all [of R ps out n] by simp
  moreover obtain k where "written (forwarder s) = written out @ take k (concat (map (pkt_serialize R) ps))"
    using forward_packets_behaviour [of R ps out] f by auto
  ultimately show ?thesis using enc_pipe.run_bounded [OF d(1) run] st p(1) by blast
qed

theorem encoder_invariant_witness:
  "\<exists>s0 e ls s. start_encoding rep_code (Inr [Bytes [7]]) 0 [Bytes [1, 2, 3]]
       \<lparr>writes = [], wscript = [Accepts 3, Refuses BrokenPipe]\<rparr> (encoder_new 2 5 1 1) = (Ok s0, e) \<and>
     psteps (encoder_machine rep_code 1) ls s0 s \<and> all_ended s \<and> bounded s \<and>
     (\<exists>k. written (forwarder s) = take k [7, 0, 0, 0, 1, 7, 0, 0, 1, 2, 7, 0, 0, 0, 1])"
proof -
  let ?out = "\<lparr>writes = [], wscript = [Accepts 3, Refuses BrokenPipe]\<rparr> :: out_stream"
  let ?all = "[7, 0, 0, 0, 1, 7, 0, 0, 1, 2, 7, 0, 0, 0, 1] :: bytes"
  obtain s0 e ls s where e: "start_encoding rep_code (Inr [Bytes [7]]) 0 [Bytes [1, 2, 3]] ?out (encoder_new 2 5 1 1) =
      (Ok s0, e)" and run: "psteps (encoder_machine rep_code 1) ls s0 s" "all_ended s"
    by (rule start_encoding_runs [OF rep_encoder random_byte, where n = 1]) simp
  have all: "concat (map (pkt_serialize rep_code) (concat (map (block_packets rep_code rep_be)
      (filter (\<lambda>b. block_route 1 b = 0) (cut_blocks 2 7 [1, 2, 3]))))) = ?all"
    by code_simp
  obtain parts ps k where p: "bounded s" "merge_of 1 parts (ps @ shared s)"
      "prefix (parts 0) (concat (map (block_packets rep_code rep_be)
         (filter (\<lambda>b. block_route 1 b = 0) (cut_blocks 2 7 [1, 2, 3]))))"
      "written (forwarder s) = take k (concat (map (pkt_serialize rep_code) ps))"
    using encoder_invariant [OF e _ _ run(1)] rep_encoder by (auto simp: written_def)
  have "prefix ps (concat (map (block_packets rep_code rep_be)
      (filter (\<lambda>b. block_route 1 b = 0) (cut_blocks 2 7 [1, 2, 3]))))"
    using p(2,3) merge_of_one [of parts "ps @ shared s"] by (metis One_nat_def append_prefixD)
  then obtain qs where "concat (map (block_packets rep_code rep_be)
      (filter (\<lambda>b. block_route 1 b = 0) (cut_blocks 2 7 [1, 2, 3]))) = ps @ qs" by (rule prefixE)
  then have all': "concat (map (pkt_serialize rep_code) ps) @ concat (map (pkt_serialize rep_code) qs) = ?all"
    using all by simp
  have "written (forwarder s) = take (min k (length (concat (map (pkt_serialize rep_code) ps)))) ?all"
    unfolding p(4) all' [symmetric] by (simp add: min_def)
  then show ?thesis using e run p(1) by blast
qed

text \<open>
  C5. Whatever the input, the output stream and the schedule: the queues of an encoder never
  hold more than ten messages, its threads never deadlock, and every run is finite; so every
  run can be continued until all threads have ended, and \<open>wait\<close> returns.
\<close>

theorem encoder_terminates:
  assumes "start_encoding R urandom tid inp out (encoder_new bs mps rep n) = (Ok s0, e)" "0 < bs"
  shows "(\<exists>N. \<forall>ls s. psteps (encoder_machine R n) ls s0 s \<longrightarrow> length ls \<le> N) \<and>
    (\<forall>ls s. psteps (encoder_machine R n) ls s0 s \<longrightarrow>
       bounded s \<and> (all_ended s \<or> (\<exists>l t. pstep (encoder_machine R n) l s t)) \<and>
       (\<exists>ls' t. psteps (encoder_machine R n) (ls @ ls') s0 t \<and> all_ended t))"
proof -
  obtain i bes where s0: "length bes = n" "s0 = pinit (\<lparr>bdisp_block_size = bs, bdisp_block_id = i, bdisp_should_stop = Some (tid + 1 + n)\<rparr>, inp) bes out"
    using start_encoding_Ok [OF assms(1)] by metis
  let ?d = "(\<lparr>bdisp_block_size = bs, bdisp_block_id = i, bdisp_should_stop = Some (tid + 1 + n)\<rparr>, inp)"
  have d: "0 < bdisp_block_size (fst ?d)" using assms(2) by simp
  show ?thesis
    unfolding s0(2)
    using enc_pipe.every_run [OF d s0(1)] .
qed

theorem encoder_terminates_witness:
  "\<exists>s0 e ls s. start_encoding rep_code (Inr [Bytes [7]]) 0 [Bytes [1, 2, 3]]
       \<lparr>writes = [], wscript = [Refuses BrokenPipe]\<rparr> (encoder_new 2 5 1 3) = (Ok s0, e) \<and>
     psteps (encoder_machine rep_code 3) ls s0 s \<and> all_ended s"
proof -
  obtain s0 e ls s where e: "start_encoding rep_code (Inr [Bytes [7]]) 0 [Bytes [1, 2, 3]]
      \<lparr>writes = [], wscript = [Refuses BrokenPipe]\<rparr> (encoder_new 2 5 1 3) = (Ok s0, e)"
    by (rule start_encoding_runs [OF rep_encoder random_byte, where n = 3]) (auto intro: that)
  then show ?thesis using encoder_terminates [OF e] psteps_refl by fastforce
qed

text \<open>
  \<open>wait\<close> after a successful start: it reports success exactly when no thread panicked, and
  passes a panic on; afterwards the encoder is as new except for its flag, and a second \<open>wait\<close> is refused.
\<close>

lemma encoder_wait_after_start:
  fixes R :: "('oti, 'plan, 'enc, 'pkt, 'dec) raptorq"
    and joined :: "nat \<Rightarrow> bool" and wait :: "encoder \<Rightarrow> ('pkt encoder_error, unit) outcome \<times> encoder"
  defines "wait \<equiv> encoder_wait joined"
  assumes "start_encoding R urandom tid inp out (encoder_new bs mps rep n) = (Ok s0, e)"
  shows "\<exists>e'. wait e = (if \<forall>t \<in> {tid..tid + 1 + n}. joined t then Ok () else Panic, e') \<and>
    ((\<forall>t \<in> {tid..tid + 1 + n}. joined t) \<longrightarrow> e' = (encoder_new bs mps rep n)\<lparr>enc_should_stop := Some (tid + 1 + n)\<rparr>) \<and>
    wait e' = (Err (EncoderInvalidState ''Block dispatcher not initialized''), e')"
proof -
  have "e = (encoder_new bs mps rep n)
       \<lparr>enc_packet_forwarder := Some tid, enc_block_encoders := [tid + 1..<tid + 1 + n],
        enc_should_stop := Some (tid + 1 + n), enc_block_dispatcher := Some (tid + 1 + n)\<rparr>"
    using start_encoding_Ok [OF assms(2)] by metis
  moreover have "{tid..tid + 1 + n} = insert tid (insert (tid + 1 + n) {tid + 1..<tid + 1 + n})" by auto
  ultimately show ?thesis
    by (auto simp: wait_def encoder_wait_def encoder_new_def Let_def list_all_iff simp del: upt_Suc)
qed

end
