(* ===== verification/Block_Decoder.thy ===== *)
theory Block_Decoder
  imports Block_Encoder
begin

text \<open>
  The model of \<open>garuda-codec-core/src/block_decoder.rs\<close>: the decoder of one block after the
  other, the loop over a stream of packets, and the inference of the packet size. The
  refinement lemma shows that the state machine of \<open>decode\<close> computes what its specification
  says: one decoding attempt per maximal run of packets with the same block id.
\<close>

section \<open>Data\<close>

record ('oti, 'dec) block_decoder =
  bd_block_size :: usize
  bd_config :: 'oti
  current_block_id :: "u8 option"
  current_decoder :: 'dec
  current_block_is_decoded :: bool

datatype block_decoder_error = BdInvalidConfiguration string | BdSendError bytes

fun block_decoder_error_to_string :: "block_decoder_error \<Rightarrow> string" where
  "block_decoder_error_to_string (BdInvalidConfiguration s) = s"
| "block_decoder_error_to_string (BdSendError b) = ''sending on a closed channel''"

text \<open>\<open>impl From<ConfigurationError> for BlockDecoderError\<close>.\<close>

definition bd_from_configuration_error :: "configuration_error \<Rightarrow> block_decoder_error" where
  "bd_from_configuration_error e = BdInvalidConfiguration (configuration_error_to_string e)"

text \<open>\<open>impl From<mpsc::SendError<Vec<u8>>> for BlockDecoderError\<close>.\<close>

definition bd_from_send_error :: "bytes \<Rightarrow> block_decoder_error" where
  [simp]: "bd_from_send_error b = BdSendError b"

section \<open>Operations\<close>

definition block_decoder_new ::
  "('oti, 'plan, 'enc, 'pkt, 'dec) raptorq \<Rightarrow> usize \<Rightarrow> u16 \<Rightarrow>
   (block_decoder_error, ('oti, 'dec) block_decoder) outcome" where
  "block_decoder_new R block_size max_packet_size =
     bind_outcome
       (map_err bd_from_configuration_error (get_configuration R block_size max_packet_size))
       (\<lambda>config. Ok \<lparr>bd_block_size = block_size, bd_config = config, current_block_id = None,
                     current_decoder = decoder_new R 0 config (of_nat block_size),
                     current_block_is_decoded = False\<rparr>)"

definition reset_current_decoder ::
  "('oti, 'plan, 'enc, 'pkt, 'dec) raptorq \<Rightarrow> u8 \<Rightarrow> ('oti, 'dec) block_decoder \<Rightarrow>
   ('oti, 'dec) block_decoder" where
  "reset_current_decoder R i d =
     d\<lparr>current_block_id := Some i, current_block_is_decoded := False,
       current_decoder := decoder_new R i (bd_config d) (of_nat (bd_block_size d))\<rparr>"

definition try_decode ::
  "('oti, 'plan, 'enc, 'pkt, 'dec) raptorq \<Rightarrow> 'pkt \<Rightarrow> ('oti, 'dec) block_decoder \<Rightarrow>
   bytes option \<times> ('oti, 'dec) block_decoder" where
  "try_decode R packet d =
     (let (decoded, dec) = decoder_decode R (current_decoder d) [packet];
          d = d\<lparr>current_decoder := dec\<rparr>
      in if decoded \<noteq> None then (decoded, d\<lparr>current_block_is_decoded := True\<rparr>) else (None, d))"

definition decode ::
  "('oti, 'plan, 'enc, 'pkt, 'dec) raptorq \<Rightarrow> 'pkt \<Rightarrow> ('oti, 'dec) block_decoder \<Rightarrow>
   bytes option \<times> ('oti, 'dec) block_decoder" where
  "decode R packet d =
     (let received_block_id = source_block_number R packet
      in case current_block_id d of
           Some current \<Rightarrow>
             if received_block_id = current then
               if current_block_is_decoded d then (None, d) else try_decode R packet d
             else try_decode R packet (reset_current_decoder R received_block_id d)
         | None \<Rightarrow> try_decode R packet (reset_current_decoder R received_block_id d))"

fun decode_stream ::
  "('oti, 'plan, 'enc, 'pkt, 'dec) raptorq \<Rightarrow> ('oti, 'dec) block_decoder \<Rightarrow> 'pkt list \<Rightarrow>
   bytes sender \<Rightarrow> (block_decoder_error, unit) outcome \<times> bytes sender" where
  "decode_stream R d [] out = (Ok (), out)"
| "decode_stream R d (p # ps) out =
     (case decode R p d of
        (Some b, d') \<Rightarrow>
          (case send b out of
             Ok out' \<Rightarrow> decode_stream R d' ps out'
           | Err x \<Rightarrow> (Err (bd_from_send_error x), out)
           | Panic \<Rightarrow> (Panic, out))
      | (None, d') \<Rightarrow> decode_stream R d' ps out)"

definition infer_packet_size ::
  "('oti, 'plan, 'enc, 'pkt, 'dec) raptorq \<Rightarrow> usize \<Rightarrow> u16 \<Rightarrow> (block_decoder_error, usize) outcome" where
  "infer_packet_size R block_size max_packet_size =
     (case block_encoder_new R block_size max_packet_size 1 of
        Err e \<Rightarrow> Err (BdInvalidConfiguration (block_encoder_error_to_string e))
      | Panic \<Rightarrow> Panic
      | Ok encoder \<Rightarrow>
          (case encode R encoder \<lparr>block_id = 1, block_data = replicate block_size 0\<rparr> of
             Err e \<Rightarrow> Err (BdInvalidConfiguration (block_encoder_error_to_string e))
           | Panic \<Rightarrow> Panic
           | Ok [] \<Rightarrow> Err (BdInvalidConfiguration ''No packet was generated'')
           | Ok (p # _) \<Rightarrow> Ok (length (pkt_serialize R p))))"

section \<open>Specification\<close>

text \<open>The maximal runs of equal keys of a list.\<close>

function runs :: "('a \<Rightarrow> 'b) \<Rightarrow> 'a list \<Rightarrow> 'a list list" where
  "runs f [] = []"
| "runs f (x # xs) =
     (x # takeWhile (\<lambda>y. f y = f x) xs) # runs f (dropWhile (\<lambda>y. f y = f x) xs)"
  by pat_completeness auto
termination
  by (relation "measure (length \<circ> snd)") (auto simp: length_dropWhile_le le_imp_less_Suc)

text \<open>One decoding attempt for one run of packets, and the blocks of a stream of packets.\<close>

definition run_block ::
  "('oti, 'plan, 'enc, 'pkt, 'dec) raptorq \<Rightarrow> 'oti \<Rightarrow> usize \<Rightarrow> 'pkt list \<Rightarrow> bytes option" where
  "run_block R cfg bs run =
     rq_feed R (decoder_new R (source_block_number R (hd run)) cfg (of_nat bs)) run"

definition stream_blocks ::
  "('oti, 'plan, 'enc, 'pkt, 'dec) raptorq \<Rightarrow> 'oti \<Rightarrow> usize \<Rightarrow> 'pkt list \<Rightarrow> bytes list" where
  "stream_blocks R cfg bs ps = List.map_filter (run_block R cfg bs) (runs (source_block_number R) ps)"

text \<open>What \<open>decode\<close> returns along a stream, without the channel.\<close>

fun decode_seq ::
  "('oti, 'plan, 'enc, 'pkt, 'dec) raptorq \<Rightarrow> ('oti, 'dec) block_decoder \<Rightarrow> 'pkt list \<Rightarrow>
   bytes list \<times> ('oti, 'dec) block_decoder" where
  "decode_seq R d [] = ([], d)"
| "decode_seq R d (p # ps) =
     (case decode R p d of (r, d') \<Rightarrow>
        (case decode_seq R d' ps of (bs, d'') \<Rightarrow> ((case r of None \<Rightarrow> bs | Some b \<Rightarrow> b # bs), d'')))"

section \<open>Lemmas\<close>

lemma decode_stream_seq:
  "decode_stream R d ps out =
     (case first_refused (fst (decode_seq R d ps)) out of None \<Rightarrow> Ok () | Some b \<Rightarrow> Err (BdSendError b),
      deliver (fst (decode_seq R d ps)) out)"
proof (induction ps arbitrary: d out)
  case (Cons p ps)
  obtain r d' where dec: "decode R p d = (r, d')" by fastforce
  show ?case
  proof (cases r)
    case (Some b)
    have "fst (decode_seq R d (p # ps)) = b # fst (decode_seq R d' ps)"
      by (simp add: dec Some split_beta)
    then show ?thesis
      using Cons deliver_Cons [where x = b and q = out and xs = "fst (decode_seq R d' ps)"]
      by (cases "first_refused [b] out") (auto simp: dec Some send_deliver simp del: decode_seq.simps)
  qed (simp add: dec Cons split_beta)
qed (simp add: first_refused_def split: option.splits)

lemma decode_frame:
  "decode R p d = (r, d') \<Longrightarrow> bd_config d' = bd_config d \<and> bd_block_size d' = bd_block_size d \<and>
     current_block_id d' = Some (source_block_number R p)"
  by (auto simp: decode_def try_decode_def reset_current_decoder_def Let_def
      split: option.splits if_splits prod.splits)

text \<open>The packets of the current block, before and after it is decoded.\<close>

lemma decode_seq_done:
  assumes "current_block_id d = Some i" "current_block_is_decoded d"
    and "\<forall>p \<in> set run. source_block_number R p = i"
  shows "decode_seq R d (run @ ps) = decode_seq R d ps"
  using assms by (induction run) (simp_all add: decode_def Let_def)

lemma decode_seq_run:
  assumes "current_block_id d = Some i" "\<not> current_block_is_decoded d"
    and "\<forall>p \<in> set run. source_block_number R p = i"
  shows "\<exists>d'. current_block_id d' = Some i \<and> bd_config d' = bd_config d \<and>
    bd_block_size d' = bd_block_size d \<and>
    fst (decode_seq R d (run @ ps)) =
      (case rq_feed R (current_decoder d) run of None \<Rightarrow> [] | Some b \<Rightarrow> [b]) @ fst (decode_seq R d' ps)"
  using assms
proof (induction run arbitrary: d)
  case Nil
  then show ?case by auto
next
  case (Cons p run)
  obtain r dec where rd: "decoder_decode R (current_decoder d) [p] = (r, dec)" by fastforce
  let ?d = "d\<lparr>current_decoder := dec, current_block_is_decoded := (r \<noteq> None)\<rparr>"
  have step: "decode R p d = (r, ?d)"
    using Cons.prems rd by (cases d) (auto simp: decode_def try_decode_def Let_def)
  show ?case
  proof (cases r)
    case None
    then show ?thesis using Cons.IH [of ?d] Cons.prems rd step by (simp add: split_beta)
  next
    case (Some b)
    then show ?thesis
      using Cons.prems rd step decode_seq_done [of ?d i run R ps]
      by (intro exI [of _ ?d]) (simp add: split_beta)
  qed
qed

text \<open>
  A packet that starts a new block behaves as if a fresh decoder were already in place.
\<close>

lemma decode_reset:
  assumes "current_block_id d \<noteq> Some (source_block_number R p)"
  shows "decode R p d = decode R p (reset_current_decoder R (source_block_number R p) d)"
  using assms by (auto simp: decode_def reset_current_decoder_def Let_def split: option.splits)

lemma decode_seq_blocks:
  assumes "ps = [] \<or> current_block_id d \<noteq> Some (source_block_number R (hd ps))"
  shows "fst (decode_seq R d ps) = stream_blocks R (bd_config d) (bd_block_size d) ps"
  using assms
proof (induction "source_block_number R" ps arbitrary: d rule: runs.induct)
  case 1
  show ?case by (simp add: stream_blocks_def map_filter_def)
next
  case (2 p ps)
  let ?i = "source_block_number R p" and ?same = "\<lambda>q. source_block_number R q = source_block_number R p"
  let ?r = "reset_current_decoder R ?i d"
  let ?run = "p # takeWhile ?same ps" and ?rest = "dropWhile ?same ps"
  have split: "p # ps = ?run @ ?rest" by simp
  have r: "current_block_id ?r = Some ?i" "\<not> current_block_is_decoded ?r"
      "current_decoder ?r = decoder_new R ?i (bd_config d) (of_nat (bd_block_size d))"
      "bd_config ?r = bd_config d" "bd_block_size ?r = bd_block_size d"
    by (simp_all add: reset_current_decoder_def)
  have "decode R p d = decode R p ?r" using 2 by (intro decode_reset) simp
  then have "fst (decode_seq R d (p # ps)) = fst (decode_seq R ?r (p # ps))" by simp
  moreover obtain d' where d': "current_block_id d' = Some ?i" "bd_config d' = bd_config d"
      "bd_block_size d' = bd_block_size d"
      "fst (decode_seq R ?r (?run @ ?rest)) =
        (case rq_feed R (current_decoder ?r) ?run of None \<Rightarrow> [] | Some b \<Rightarrow> [b]) @ fst (decode_seq R d' ?rest)"
    using decode_seq_run [OF r(1,2), of ?run R ?rest] r(4,5) set_takeWhileD by fastforce
  moreover have "?rest = [] \<or> current_block_id d' \<noteq> Some (source_block_number R (hd ?rest))"
    using d'(1) hd_dropWhile [of ?same ps] by (metis option.inject)
  then have "fst (decode_seq R d' ?rest) = stream_blocks R (bd_config d) (bd_block_size d) ?rest"
    using 2(1) d' by simp
  ultimately show ?case
    using r by (simp add: stream_blocks_def map_filter_def run_block_def split: option.splits)
qed

lemma block_decoder_new_Ok:
  assumes "block_decoder_new R bs mps = Ok d"
  shows "bd_block_size d = bs" "bd_config d = with_defaults R (of_nat bs) mps" "current_block_id d = None"
proof -
  have "\<exists>cfg. get_configuration R bs mps = Ok cfg"
    using assms by (cases "get_configuration R bs mps") (auto simp: block_decoder_new_def)
  then show "bd_block_size d = bs" "bd_config d = with_defaults R (of_nat bs) mps" "current_block_id d = None"
    using assms by (auto simp: block_decoder_new_def get_configuration_def Let_def split: if_splits)
qed

text \<open>The runs of a concatenation whose neighbours have different keys.\<close>

lemma runs_append:
  assumes "run \<noteq> []" "\<forall>x \<in> set run. f x = k" "xs = [] \<or> f (hd xs) \<noteq> k"
  shows "runs f (run @ xs) = run # runs f xs"
proof -
  obtain x run' where run: "run = x # run'" using assms(1) by (cases run) auto
  have "takeWhile (\<lambda>y. f y = f x) (run' @ xs) = run'" "dropWhile (\<lambda>y. f y = f x) (run' @ xs) = xs"
    using assms(2,3) run by (cases xs; force simp: takeWhile_append dropWhile_append)+
  then show ?thesis by (simp add: run)
qed

lemma runs_concat:
  assumes "distinct_adj (map key rs)" "\<forall>r \<in> set rs. seg r \<noteq> [] \<and> (\<forall>x \<in> set (seg r). f x = key r)"
  shows "runs f (concat (map seg rs)) = map seg rs"
  using assms
proof (induction rs)
  case (Cons r rs)
  have "concat (map seg rs) = [] \<or> f (hd (concat (map seg rs))) \<noteq> key r"
    using Cons.prems by (cases rs) (auto simp: hd_append)
  then have "runs f (seg r @ concat (map seg rs)) = seg r # runs f (concat (map seg rs))"
    using Cons.prems(2) by (intro runs_append) auto
  then show ?case using Cons by (cases rs) auto
qed simp

text \<open>A run of packets of one block decodes to that block or to nothing.\<close>

lemma run_block_sound:
  assumes "rq_packets R" "rq_sound R" "block_encoder_new R bs mps rep = Ok be" "well_sized be b"
    and "bs < 2 ^ 64" "run \<noteq> []" "set run \<subseteq> set (block_packets R be b)"
    and "run_block R (be_config be) bs run = Some x"
  shows "x = block_data b"
proof -
  let ?enc = "with_encoding_plan R (block_id b) (be_config be) (block_data b) (be_encoding_plan be)"
  have "source_block_number R (hd run) = block_id b"
    using block_packets_id [OF assms(1,3,4)] assms(6,7) by (metis hd_in_set subsetD)
  moreover have "length (block_data b) = bs"
    using assms(4) block_encoder_new_Ok(1) [OF assms(3)] by (simp add: well_sized_def)
  moreover have "set run \<subseteq> set (source_packets R ?enc) \<union> set (repair_packets R ?enc 0 rep)"
    using set_shuffles [OF block_packets_shuffles(1) [OF assms(1,3,4)]] assms(7) by auto
  ultimately show ?thesis
    using assms(2,5,8) unfolding rq_sound_def run_block_def by metis
qed

text \<open>Runs of packets of encoded blocks are decoded to those of the blocks that can be decoded.\<close>

lemma decode_stream_recovers:
  assumes "rq_packets R" "rq_sound R" "block_size < 2 ^ 64"
    and "block_encoder_new R block_size max_packet_size repair = Ok be"
    and "block_decoder_new R block_size max_packet_size = Ok d"
    and "\<forall>(b, run) \<in> set received. \<exists>ps. encode R be b = Ok ps \<and> run \<noteq> [] \<and> set run \<subseteq> set ps"
    and "distinct_adj (map (block_id \<circ> fst) received)"
  shows "decode_stream R d (concat (map snd received)) \<lparr>sent = [], hangup = None\<rparr> =
    (Ok (), \<lparr>sent = [block_data b. (b, run) \<leftarrow> received, run_block R (be_config be) block_size run \<noteq> None],
            hangup = None\<rparr>)"
proof -
  have rc: "\<forall>(b, run) \<in> set received. well_sized be b \<and> run \<noteq> [] \<and> set run \<subseteq> set (block_packets R be b)"
    using assms(6) by (fastforce simp: encode_eq split: if_splits)
  note new = block_decoder_new_Ok [OF assms(5)] block_encoder_new_Ok [OF assms(4)]
  have ids: "\<forall>r \<in> set received. snd r \<noteq> [] \<and>
      (\<forall>p \<in> set (snd r). source_block_number R p = (block_id \<circ> fst) r)"
    using rc block_packets_id [OF assms(1,4)] by fastforce
  have "stream_blocks R (be_config be) block_size (concat (map snd received)) =
      List.map_filter (run_block R (be_config be) block_size) (map snd received)"
    unfolding stream_blocks_def by (subst runs_concat [OF assms(7) ids]) simp
  also have "\<dots> = [block_data b. (b, run) \<leftarrow> received, run_block R (be_config be) block_size run \<noteq> None]"
    using rc
  proof (induction received)
    case (Cons r rs)
    then show ?case
      using run_block_sound [OF assms(1,2,4) _ assms(3), of "fst r" "snd r"]
      by (cases "run_block R (be_config be) block_size (snd r)") (auto simp: map_filter_def split_beta)
  qed (simp add: map_filter_def)
  finally show ?thesis
    using new decode_seq_blocks [of "concat (map snd received)" d R]
    by (simp add: decode_stream_seq first_refused_def deliver_def)
qed

text \<open>The size of serialised packets.\<close>

lemma block_packets_wire:
  assumes "rq_packets R" "rq_wire R" "block_encoder_new R bs mps r = Ok e" "well_sized e b"
    and "p \<in> set (block_packets R e b)"
  shows "length (pkt_serialize R p) = unat (symbol_size R (be_config e)) + 4"
  using set_shuffles [OF block_packets_shuffles(1) [OF assms(1,3,4)]] assms(2,5)
  unfolding rq_wire_def by auto

lemma infer_packet_size_eq:
  assumes "rq_packets R" "rq_wire R" "block_encoder_new R bs mps repair = Ok be"
  shows "infer_packet_size R bs mps = Ok (unat (symbol_size R (be_config be)) + 4)"
proof -
  obtain e where e: "block_encoder_new R bs mps 1 = Ok e" "be_config e = be_config be"
    using assms(3) by (auto simp: block_encoder_new_def bind_outcome_Ok_iff usize_div_def split: if_splits)
  let ?b = "\<lparr>block_id = 1, block_data = replicate bs 0\<rparr> :: block"
  have ws: "well_sized e ?b" using block_encoder_new_Ok(1) [OF e(1)] by (simp add: well_sized_def)
  have "block_packets R e ?b \<noteq> []"
    using block_packets_shuffles [OF assms(1) e(1) ws] length_shuffles by force
  then obtain p ps where "block_packets R e ?b = p # ps" by (meson neq_Nil_conv)
  then show ?thesis
    using block_packets_wire [OF assms(1,2) e(1) ws, of p] e ws by (simp add: infer_packet_size_def encode_eq)
qed

section \<open>The invariant of the decoder\<close>

text \<open>
  What the state of the decoder is after a history of packets: the id of the last packet, and
  either the verdict that its run is decoded, or the decoder of \<open>raptorq\<close> that has been fed with
  exactly this run.
\<close>

fun fed :: "('oti, 'plan, 'enc, 'pkt, 'dec) raptorq \<Rightarrow> 'dec \<Rightarrow> 'pkt list \<Rightarrow> 'dec" where
  "fed R d [] = d"
| "fed R d (p # ps) = fed R (snd (decoder_decode R d [p])) ps"

definition last_run :: "('oti, 'plan, 'enc, 'pkt, 'dec) raptorq \<Rightarrow> 'pkt list \<Rightarrow> 'pkt list" where
  "last_run R h = (if h = [] then [] else last (runs (source_block_number R) h))"

definition decoder_inv ::
  "('oti, 'plan, 'enc, 'pkt, 'dec) raptorq \<Rightarrow> ('oti, 'dec) block_decoder \<Rightarrow> 'pkt list \<Rightarrow> bool" where
  "decoder_inv R d h \<longleftrightarrow>
     (if h = [] then current_block_id d = None
      else current_block_id d = Some (source_block_number R (last h)) \<and>
        (current_block_is_decoded d \<longleftrightarrow> run_block R (bd_config d) (bd_block_size d) (last_run R h) \<noteq> None) \<and>
        (\<not> current_block_is_decoded d \<longrightarrow> current_decoder d =
           fed R (decoder_new R (source_block_number R (last h)) (bd_config d) (of_nat (bd_block_size d))) (last_run R h)))"

lemma rq_feed_snoc:
  "rq_feed R d (ps @ [p]) =
     (case rq_feed R d ps of Some b \<Rightarrow> Some b | None \<Rightarrow> fst (decoder_decode R (fed R d ps) [p]))"
  by (induction ps arbitrary: d) (auto split: prod.splits option.splits)

lemma fed_snoc: "fed R d (ps @ [p]) = snd (decoder_decode R (fed R d ps) [p])"
  by (induction ps arbitrary: d) simp_all

lemma last_dropWhile: "dropWhile P xs \<noteq> [] \<Longrightarrow> last (x # xs) = last (dropWhile P xs)"
proof -
  assume rest: "dropWhile P xs \<noteq> []"
  then have "last (takeWhile P xs @ dropWhile P xs) = last (dropWhile P xs)" by (rule last_appendR)
  moreover have "xs \<noteq> []" using rest by auto
  ultimately show ?thesis by simp
qed

lemma runs_nonempty: "xs \<noteq> [] \<Longrightarrow> runs f xs \<noteq> []"
  by (cases xs) simp_all

lemma hd_last_runs: "xs \<noteq> [] \<Longrightarrow> last (runs f xs) \<noteq> [] \<and> (\<forall>x \<in> set (last (runs f xs)). f x = f (last xs))"
proof (induction f xs rule: runs.induct)
  case (2 f x xs)
  let ?rest = "dropWhile (\<lambda>y. f y = f x) xs" and ?run = "x # takeWhile (\<lambda>y. f y = f x) xs"
  show ?case
  proof (cases "?rest = []")
    case True
    then have "\<forall>y \<in> set xs. f y = f x" by simp
    moreover from this have "f (last (x # xs)) = f x" by (cases xs rule: rev_cases) auto
    ultimately show ?thesis unfolding runs.simps(2) True by (auto dest: set_takeWhileD)
  next
    case False
    then have l: "last (x # xs) = last ?rest" by (rule last_dropWhile)
    have r: "last (runs f (x # xs)) = last (runs f ?rest)" using runs_nonempty [OF False, of f] by simp
    show ?thesis unfolding l r by (rule 2(1) [OF False])
  qed
qed simp

lemma runs_snoc:
  "runs f (xs @ [y]) =
     (if xs \<noteq> [] \<and> f (last xs) = f y then butlast (runs f xs) @ [last (runs f xs) @ [y]] else runs f xs @ [[y]])"
proof (induction f xs rule: runs.induct)
  case (2 f x xs)
  let ?P = "\<lambda>y. f y = f x"
  let ?rest = "dropWhile ?P xs"
  have snoc: "runs f ((x # xs) @ [y]) = (x # takeWhile ?P (xs @ [y])) # runs f (dropWhile ?P (xs @ [y]))" by simp
  have run: "runs f (x # xs) = (x # takeWhile ?P xs) # runs f ?rest" by simp
  show ?case
  proof (cases "?rest = []")
    case True
    then have same: "\<forall>z \<in> set xs. ?P z" "takeWhile ?P xs = xs"
      by (simp_all add: takeWhile_eq_all_conv)
    then have "f (last (x # xs)) = f x" by (cases xs rule: rev_cases) auto
    moreover have "takeWhile ?P (xs @ [y]) = (if ?P y then xs @ [y] else xs)"
        "dropWhile ?P (xs @ [y]) = (if ?P y then [] else [y])"
      using same(1) by (simp_all add: takeWhile_append dropWhile_append)
    ultimately show ?thesis unfolding snoc run True same(2) by (cases "?P y") simp_all
  next
    case False
    then have "last (x # xs) = last ?rest" by (rule last_dropWhile)
    moreover have "takeWhile ?P (xs @ [y]) = takeWhile ?P xs" "dropWhile ?P (xs @ [y]) = ?rest @ [y]"
      using False by (auto simp: takeWhile_append dropWhile_append dropWhile_eq_Nil_conv)
    ultimately show ?thesis unfolding snoc run using 2 False runs_nonempty [OF False, of f]
      by (simp del: last.simps runs.simps) simp
  qed
qed simp

lemma last_run_snoc:
  "last_run R (h @ [p]) =
     (if h \<noteq> [] \<and> source_block_number R (last h) = source_block_number R p then last_run R h @ [p] else [p])"
  by (simp add: last_run_def runs_snoc)

lemma last_run_id:
  "h \<noteq> [] \<Longrightarrow> last_run R h \<noteq> [] \<and> source_block_number R (hd (last_run R h)) = source_block_number R (last h)"
  using hd_last_runs [of h "source_block_number R"] by (simp add: last_run_def)

text \<open>The packets of the block that \<open>p\<close> belongs to, if it goes on.\<close>

definition open_run :: "('oti, 'plan, 'enc, 'pkt, 'dec) raptorq \<Rightarrow> 'pkt list \<Rightarrow> 'pkt \<Rightarrow> 'pkt list" where
  "open_run R h p =
     (if h \<noteq> [] \<and> source_block_number R (last h) = source_block_number R p then last_run R h else [])"

lemma decode_preserves:
  assumes "decoder_inv R d h"
  shows "decoder_inv R (snd (decode R p d)) (h @ [p])"
    and "fst (decode R p d) =
      (if run_block R (bd_config d) (bd_block_size d) (open_run R h p) \<noteq> None then None
       else run_block R (bd_config d) (bd_block_size d) (open_run R h p @ [p]))"
proof -
  let ?i = "source_block_number R p"
  have "decoder_inv R (snd (decode R p d)) (h @ [p]) \<and> fst (decode R p d) =
      (if run_block R (bd_config d) (bd_block_size d) (open_run R h p) \<noteq> None then None
       else run_block R (bd_config d) (bd_block_size d) (open_run R h p @ [p]))"
  proof (cases "h \<noteq> [] \<and> source_block_number R (last h) = ?i")
    case True
    then show ?thesis
      using assms last_run_id [of h R]
      by (auto simp: decoder_inv_def open_run_def decode_def try_decode_def Let_def last_run_snoc
          run_block_def rq_feed_snoc fed_snoc split: prod.splits option.splits)
  next
    case False
    then have "current_block_id d \<noteq> Some ?i" using assms by (auto simp: decoder_inv_def split: if_splits)
    from decode_reset [OF this] show ?thesis
      using False by (auto simp: decoder_inv_def open_run_def decode_def reset_current_decoder_def try_decode_def Let_def
          last_run_snoc run_block_def split: prod.splits option.splits)
  qed
  then show "decoder_inv R (snd (decode R p d)) (h @ [p])"
    "fst (decode R p d) =
      (if run_block R (bd_config d) (bd_block_size d) (open_run R h p) \<noteq> None then None
       else run_block R (bd_config d) (bd_block_size d) (open_run R h p @ [p]))" by simp_all
qed

lemma decode_seq_snoc: "snd (decode_seq R d (ps @ [p])) = snd (decode R p (snd (decode_seq R d ps)))"
  by (induction ps arbitrary: d) (simp_all add: split_beta)

lemma decode_seq_frame:
  "bd_config (snd (decode_seq R d ps)) = bd_config d \<and> bd_block_size (snd (decode_seq R d ps)) = bd_block_size d"
proof (induction ps rule: rev_induct)
  case (snoc p ps)
  then show ?case
    using decode_frame [OF prod.collapse [symmetric], of R p "snd (decode_seq R d ps)"] by (simp add: decode_seq_snoc)
qed simp

lemma decode_seq_inv: "block_decoder_new R bs mps = Ok d \<Longrightarrow> decoder_inv R (snd (decode_seq R d h)) h"
proof (induction h rule: rev_induct)
  case Nil
  then show ?case using block_decoder_new_Ok(3) [OF Nil] by (simp add: decoder_inv_def)
next
  case (snoc p h)
  then show ?case using decode_preserves(1) by (simp add: decode_seq_snoc)
qed

text \<open>A decoder of the repetition code, for the examples.\<close>

lemma rep_decoder: obtains d where "block_decoder_new rep_code 2 5 = Ok d" "bd_config d = 1"
  by (simp add: block_decoder_new_def get_configuration_def rep_code_def)

lemma rep_packet_size: "infer_packet_size rep_code 2 5 = Ok 5"
  by code_simp

section \<open>Properties\<close>

text \<open>
  C7. The decoder refines its specification: whatever packets arrive, a new decoder attempts
  one decoding per maximal run of packets with the same block id, sends each decoded block
  exactly once, at the place of its run, and ignores what follows of a decoded block. It stops
  only when the receiver hangs up.
\<close>

theorem decode_stream_refines:
  assumes "block_decoder_new R block_size max_packet_size = Ok d"
  shows "decode_stream R d ps out =
    (let blocks = stream_blocks R (bd_config d) block_size ps
     in (case first_refused blocks out of None \<Rightarrow> Ok () | Some b \<Rightarrow> Err (BdSendError b),
         deliver blocks out))"
  using block_decoder_new_Ok [OF assms] decode_seq_blocks [of ps d R]
  by (simp add: decode_stream_seq Let_def)

theorem decode_stream_refines_witness:
  "\<exists>d. block_decoder_new rep_code 2 5 = Ok d \<and>
     decode_stream rep_code d [(1, 0, [7]), (1, 1, [8]), (1, 0, [7]), (2, 1, [9]), (2, 0, [9])]
       \<lparr>sent = [], hangup = None\<rparr> = (Ok (), \<lparr>sent = [[7, 8], [9, 9]], hangup = None\<rparr>)"
proof -
  obtain d where d: "block_decoder_new rep_code 2 5 = Ok d" "bd_config d = 1" by (rule rep_decoder)
  have "stream_blocks rep_code 1 2 [(1, 0, [7]), (1, 1, [8]), (1, 0, [7]), (2, 1, [9]), (2, 0, [9])] =
      [[7, 8], [9, 9]]"
    by code_simp
  then show ?thesis
    using decode_stream_refines [OF d(1)] d 
    by (simp add: Let_def first_refused_def deliver_def del: decode_stream.simps)
qed

text \<open>
  C11. The invariant of the block decoder: after any packets, it knows the id of the last one, and
  whether the current run of packets with this id is decoded; if it is not, the decoder of
  \<open>raptorq\<close> in its state is a fresh one fed with exactly this run, so nothing of an earlier block is
  left in it. The next packet returns the block exactly when it completes its run.
\<close>

theorem block_decoder_invariant:
  assumes "block_decoder_new R bs mps = Ok d0"
  defines "d h \<equiv> snd (decode_seq R d0 h)" and "complete \<equiv> run_block R (bd_config d0) bs"
  shows "decoder_inv R (d h) h \<and> decoder_inv R (snd (decode R p (d h))) (h @ [p]) \<and>
    fst (decode R p (d h)) =
      (if complete (open_run R h p) \<noteq> None then None else complete (open_run R h p @ [p]))"
proof -
  have inv: "decoder_inv R (d h) h" unfolding d_def by (rule decode_seq_inv [OF assms(1)])
  moreover have "bd_config (d h) = bd_config d0" "bd_block_size (d h) = bs"
    using decode_seq_frame [of R d0 h] block_decoder_new_Ok(1) [OF assms(1)] by (simp_all add: d_def)
  ultimately show ?thesis using decode_preserves [OF inv, of p] by (simp add: complete_def)
qed

theorem block_decoder_invariant_witness:
  "\<exists>d0. block_decoder_new rep_code 2 5 = Ok d0 \<and>
     fst (decode rep_code (1, 1, [8]) (snd (decode_seq rep_code d0 [(2, 1, [9]), (1, 0, [7])]))) = Some [7, 8]"
proof -
  obtain d0 where d: "block_decoder_new rep_code 2 5 = Ok d0" "bd_config d0 = 1" by (rule rep_decoder)
  have "run_block rep_code 1 2 (open_run rep_code [(2, 1, [9]), (1, 0, [7])] (1, 1, [8])) = None"
      "run_block rep_code 1 2 (open_run rep_code [(2, 1, [9]), (1, 0, [7])] (1, 1, [8]) @ [(1, 1, [8])]) = Some [7, 8]"
    by code_simp+
  then show ?thesis
    using block_decoder_invariant [OF d(1), of "[(2, 1, [9]), (1, 0, [7])]" "(1, 1, [8])"] d by simp
qed

text \<open>
  C8. Encoding followed by decoding: if the packets of some blocks arrive block by block, with
  neighbouring blocks under different ids, in any order within a block and with any of them
  missing, then the decoder sends exactly the data of those blocks whose remaining packets
  suffice, unaltered and in order.
\<close>

theorem block_codec_recovers:
  assumes "rq_packets R" "rq_sound R" "block_size < 2 ^ 64"
    and "block_encoder_new R block_size max_packet_size repair = Ok be"
    and "block_decoder_new R block_size max_packet_size = Ok d"
    and "\<forall>(b, run) \<in> set received. \<exists>ps. encode R be b = Ok ps \<and> run \<noteq> [] \<and> set run \<subseteq> set ps"
    and "distinct_adj (map (block_id \<circ> fst) received)"
  shows "decode_stream R d (concat (map snd received)) \<lparr>sent = [], hangup = None\<rparr> =
    (Ok (), \<lparr>sent = [block_data b. (b, run) \<leftarrow> received, run_block R (be_config be) block_size run \<noteq> None],
            hangup = None\<rparr>)"
  by (rule decode_stream_recovers [OF assms])

theorem block_codec_recovers_witness:
  "\<exists>be d. block_encoder_new rep_code 2 5 1 = Ok be \<and> block_decoder_new rep_code 2 5 = Ok d \<and>
     decode_stream rep_code d [(1, 1, [8]), (1, 0, [7]), (2, 1, [9])] \<lparr>sent = [], hangup = None\<rparr> =
       (Ok (), \<lparr>sent = [[7, 8]], hangup = None\<rparr>)"
proof -
  let ?b = "\<lambda>i xs. \<lparr>block_id = i, block_data = xs\<rparr> :: block"
  let ?rc = "[(?b 1 [7, 8], [(1, 1, [8]), (1, 0, [7])]), (?b 2 [9, 9], [(2, 1, [9])])]
     :: (block \<times> rep_packet list) list"
  obtain d where d: "block_decoder_new rep_code 2 5 = Ok d" by (rule rep_decoder)
  have "\<forall>(b, run) \<in> set ?rc. well_sized rep_be b \<and> run \<noteq> [] \<and> set run \<subseteq> set (block_packets rep_code rep_be b)"
    by code_simp
  then have "\<forall>(b, run) \<in> set ?rc. \<exists>ps. encode rep_code rep_be b = Ok ps \<and> run \<noteq> [] \<and> set run \<subseteq> set ps"
    by (simp add: encode_eq)
  moreover have "run_block rep_code 1 2 [(1, 1, [8]), (1, 0, [7])] \<noteq> None"
      "run_block rep_code 1 2 [(2, 1, [9])] = None"
    by code_simp+
  ultimately show ?thesis
    using block_codec_recovers [OF rep_code_packets rep_code_sound _ rep_encoder d, of ?rc] rep_encoder d
    by (simp add: rep_be_def)
qed

text \<open>
  C30. \<open>infer_packet_size\<close> returns the exact serialised size of every packet that an encoder
  with the same block and packet size produces, whatever the block and the redundancy.
\<close>

theorem infer_packet_size_exact:
  assumes "rq_packets R" "rq_wire R"
    and "block_encoder_new R block_size max_packet_size repair = Ok be"
  shows "infer_packet_size R block_size max_packet_size = Ok (unat (symbol_size R (be_config be)) + 4) \<and>
    (\<forall>b ps. encode R be b = Ok ps \<longrightarrow>
       (\<forall>p \<in> set ps. length (pkt_serialize R p) = unat (symbol_size R (be_config be)) + 4))"
  using infer_packet_size_eq [OF assms] block_packets_wire [OF assms]
  by (auto simp: encode_eq split: if_splits)

theorem infer_packet_size_exact_witness:
  "infer_packet_size rep_code 384 100 = Ok 100"
proof -
  let ?be = "\<lparr>be_block_size = 384, be_repair_packets_per_block = 7, be_config = 96, be_encoding_plan = 4\<rparr>
     :: (u16, u16) block_encoder"
  have be: "block_encoder_new rep_code 384 100 7 = Ok ?be" by code_simp
  then show ?thesis
    using infer_packet_size_exact [OF rep_code_packets rep_code_wire be] by (simp add: rep_code_def)
qed

end
