(* ===== verification/Decoder.thy ===== *)
theory Decoder
  imports Block_Decoder Byte_Io Pipeline
begin

text \<open>
  The model of \<open>garuda-codec-core/src/decoder.rs\<close>: the packet dispatcher, the block forwarder,
  and the life cycle of a \<open>Decoder\<close>, whose threads are an instance of theory \<open>Pipeline\<close>.
\<close>

section \<open>Errors\<close>

datatype 'pkt packet_dispatcher_error = PacketSend 'pkt | PacketIO error_kind

datatype decoder_error = DecoderBlockDecoder block_decoder_error | DecoderInvalidState string

fun packet_dispatcher_error_to_string ::
  "(error_kind \<Rightarrow> string) \<Rightarrow> 'pkt packet_dispatcher_error \<Rightarrow> string" where
  "packet_dispatcher_error_to_string show_io (PacketSend p) = ''sending on a closed channel''"
| "packet_dispatcher_error_to_string show_io (PacketIO e) = show_io e"

fun decoder_error_to_string :: "decoder_error \<Rightarrow> string" where
  "decoder_error_to_string (DecoderBlockDecoder e) = block_decoder_error_to_string e"
| "decoder_error_to_string (DecoderInvalidState s) = s"

text \<open>\<open>impl From<BlockDecoderError> for DecoderError\<close>.\<close>

definition decoder_from_block_decoder_error :: "block_decoder_error \<Rightarrow> decoder_error" where
  [simp]: "decoder_from_block_decoder_error e = DecoderBlockDecoder e"

text \<open>\<open>impl From<io::Error> for PacketDispatcherError\<close>.\<close>

definition packet_from_io_error :: "error_kind \<Rightarrow> 'pkt packet_dispatcher_error" where
  [simp]: "packet_from_io_error e = PacketIO e"

text \<open>\<open>impl From<mpsc::SendError<EncodingPacket>> for PacketDispatcherError\<close>.\<close>

definition packet_from_send_error :: "'pkt \<Rightarrow> 'pkt packet_dispatcher_error" where
  [simp]: "packet_from_send_error p = PacketSend p"

section \<open>The packet dispatcher\<close>

record packet_dispatcher =
  pdisp_packet_size :: usize
  pdisp_should_stop :: flag

type_synonym 'pkt packet_dispatch_result = "('pkt packet_dispatcher_error, unit) outcome"

text \<open>The address of the new flag is an argument.\<close>

definition packet_dispatcher_new :: "flag \<Rightarrow> usize \<Rightarrow> packet_dispatcher" where
  "packet_dispatcher_new flag packet_size = \<lparr>pdisp_packet_size = packet_size, pdisp_should_stop = flag\<rparr>"

text \<open>
  One round of the loop of \<open>dispatch\<close>, up to the \<open>send\<close>. Its state is the buffer, which all
  rounds share, and the input.
\<close>

definition packet_dispatch_round ::
  "('oti, 'plan, 'enc, 'pkt, 'dec) raptorq \<Rightarrow> nat \<Rightarrow> bytes \<times> in_stream \<Rightarrow>
   ('pkt, bytes \<times> in_stream, 'pkt packet_dispatch_result) dispatch_step" where
  "packet_dispatch_round R num_queues s =
     (case s of (packet, inp) \<Rightarrow>
        (case read_exact packet inp of
           (Ok _, packet', inp') \<Rightarrow>
             let p = pkt_deserialize R packet'; received_block_id = unat (source_block_number R p)
             in if num_queues = 0 then Stop Panic
                else Emit (received_block_id mod num_queues) p (packet', inp')
         | (Err e, _, _) \<Rightarrow>
             if e = UnexpectedEof \<or> e = Interrupted then Stop (Ok ()) else Stop (Err (packet_from_io_error e))
         | (Panic, _, _) \<Rightarrow> Stop Panic))"

partial_function (option) packet_dispatch_loop ::
  "('oti, 'plan, 'enc, 'pkt, 'dec) raptorq \<Rightarrow> bytes \<times> in_stream \<Rightarrow> 'pkt sender list \<Rightarrow>
   ('pkt packet_dispatch_result \<times> 'pkt sender list) option" where
  "packet_dispatch_loop R s queues =
     (case packet_dispatch_round R (length queues) s of
        Stop r \<Rightarrow> Some (r, queues)
      | Emit j p s' \<Rightarrow>
          (case send p (queues ! j) of
             Ok q \<Rightarrow> packet_dispatch_loop R s' (queues[j := q])
           | Err x \<Rightarrow> Some (Err (packet_from_send_error x), queues)
           | Panic \<Rightarrow> Some (Panic, queues)))"

definition packet_dispatch ::
  "('oti, 'plan, 'enc, 'pkt, 'dec) raptorq \<Rightarrow> packet_dispatcher \<Rightarrow> in_stream \<Rightarrow> 'pkt sender list \<Rightarrow>
   ('pkt packet_dispatch_result \<times> 'pkt sender list) option" where
  "packet_dispatch R pd inp queues =
     packet_dispatch_loop R (replicate (pdisp_packet_size pd) 0, inp) queues"

section \<open>The block forwarder\<close>

fun forward_blocks ::
  "bytes list \<Rightarrow> out_stream \<Rightarrow> (error_kind, unit) outcome \<times> out_stream" where
  "forward_blocks [] w = (Ok (), w)"
| "forward_blocks (b # bs) w =
     (case write_all b w of
        (Ok _, w') \<Rightarrow> forward_blocks bs w'
      | (Err e, w') \<Rightarrow> (Err e, w')
      | (Panic, w') \<Rightarrow> (Panic, w'))"

section \<open>The decoder\<close>

record decoder =
  dec_block_size :: usize
  dec_num_block_decoders :: usize
  dec_max_packet_size :: u16
  dec_packet_dispatcher :: "nat option"
  dec_should_stop :: flag
  dec_block_decoders :: "nat list"
  dec_block_forwarder :: "nat option"

definition decoder_init :: "usize \<Rightarrow> usize \<Rightarrow> u16 \<Rightarrow> decoder" where
  "decoder_init block_size num_block_decoders max_packet_size =
     \<lparr>dec_block_size = block_size, dec_num_block_decoders = num_block_decoders,
      dec_max_packet_size = max_packet_size,
      dec_packet_dispatcher = None, dec_should_stop = None, dec_block_decoders = [],
      dec_block_forwarder = None\<rparr>"

text \<open>
  What one worker does with one packet (the body of the loop of \<open>decode_stream\<close>), what the
  forwarder does with one block, and the machine of the threads of a decoder.
\<close>

definition decode_work ::
  "('oti, 'plan, 'enc, 'pkt, 'dec) raptorq \<Rightarrow> ('oti, 'dec) block_decoder \<Rightarrow> 'pkt \<Rightarrow>
   bytes list \<times> ('oti, 'dec) block_decoder option" where
  "decode_work R d p =
     (case decode R p d of (r, d') \<Rightarrow> (case r of None \<Rightarrow> [] | Some b \<Rightarrow> [b], Some d'))"

definition write_block :: "out_stream \<Rightarrow> bytes \<Rightarrow> bool \<times> out_stream" where
  "write_block w b = (case write_all b w of (Ok _, w') \<Rightarrow> (True, w') | (_, w') \<Rightarrow> (False, w'))"

type_synonym ('oti, 'pkt, 'dec) decoder_machine =
  "(bytes \<times> in_stream, 'pkt, ('oti, 'dec) block_decoder, bytes, out_stream,
    'pkt packet_dispatch_result) machine"

type_synonym ('oti, 'pkt, 'dec) decoder_threads =
  "(bytes \<times> in_stream, 'pkt, ('oti, 'dec) block_decoder, bytes, out_stream,
    'pkt packet_dispatch_result) pstate"

definition decoder_machine ::
  "('oti, 'plan, 'enc, 'pkt, 'dec) raptorq \<Rightarrow> nat \<Rightarrow> ('oti, 'pkt, 'dec) decoder_machine" where
  "decoder_machine R n =
     \<lparr>m_next = packet_dispatch_round R n, m_refused = (\<lambda>p. Err (packet_from_send_error p)),
      m_work = decode_work R, m_write = write_block\<rparr>"

fun spawn_block_decoders ::
  "('oti, 'plan, 'enc, 'pkt, 'dec) raptorq \<Rightarrow> nat \<Rightarrow> nat \<Rightarrow> decoder \<Rightarrow> ('oti, 'dec) block_decoder list \<Rightarrow>
   (decoder_error, ('oti, 'dec) block_decoder list) outcome \<times> nat \<times> decoder" where
  "spawn_block_decoders R 0 tid e ds = (Ok ds, tid, e)"
| "spawn_block_decoders R (Suc n) tid e ds =
     (case block_decoder_new R (dec_block_size e) (dec_max_packet_size e) of
        Ok d \<Rightarrow>
          spawn_block_decoders R n (tid + 1)
            (e\<lparr>dec_block_decoders := dec_block_decoders e @ [tid]\<rparr>) (ds @ [d])
      | Err x \<Rightarrow> (Err (decoder_from_block_decoder_error x), tid, e)
      | Panic \<Rightarrow> (Panic, tid, e))"

definition start_decoding ::
  "('oti, 'plan, 'enc, 'pkt, 'dec) raptorq \<Rightarrow> nat \<Rightarrow> in_stream \<Rightarrow> out_stream \<Rightarrow> decoder \<Rightarrow>
   (decoder_error, ('oti, 'pkt, 'dec) decoder_threads) outcome \<times> decoder" where
  "start_decoding R tid inp out e =
     (case spawn_block_decoders R (dec_num_block_decoders e) (tid + 1)
             (e\<lparr>dec_block_forwarder := Some tid\<rparr>) [] of
        (Err x, _, e1) \<Rightarrow> (Err x, e1)
      | (Panic, _, e1) \<Rightarrow> (Panic, e1)
      | (Ok ds, tid1, e1) \<Rightarrow>
          (case infer_packet_size R (dec_block_size e1) (dec_max_packet_size e1) of
             Err x \<Rightarrow> (Err (decoder_from_block_decoder_error x), e1)
           | Panic \<Rightarrow> (Panic, e1)
           | Ok packet_size \<Rightarrow>
               (let pd = packet_dispatcher_new (Some tid1) packet_size
                in (Ok (pinit (replicate (pdisp_packet_size pd) 0, inp) ds out),
                    e1\<lparr>dec_should_stop := pdisp_should_stop pd, dec_packet_dispatcher := Some tid1\<rparr>))))"

definition decoder_stop :: "decoder \<Rightarrow> flags \<Rightarrow> flags" where
  "decoder_stop e h = flag_store (dec_should_stop e) h"

text \<open>
  What the dispatcher of the running decoder \<open>e\<close> reads in the course of time; its flag is named after
  its thread.
\<close>

definition decoder_observes :: "decoder \<Rightarrow> flags \<Rightarrow> happening list \<Rightarrow> in_stream" where
  "decoder_observes e h es =
     loads (decoder_stop e) (dec_packet_dispatcher e) (flag_new (dec_packet_dispatcher e) h) es"

definition decoder_wait :: "(nat \<Rightarrow> bool) \<Rightarrow> decoder \<Rightarrow> (decoder_error, unit) outcome \<times> decoder" where
  "decoder_wait joined e =
     (case dec_packet_dispatcher e of
        None \<Rightarrow> (Err (DecoderInvalidState ''Packet dispatcher not initialized''), e)
      | Some d \<Rightarrow>
          let e = e\<lparr>dec_packet_dispatcher := None\<rparr>
          in case dec_block_forwarder e of
               None \<Rightarrow> (Err (DecoderInvalidState ''Block forwarder not initialized''), e)
             | Some f \<Rightarrow>
                 let e = e\<lparr>dec_block_forwarder := None\<rparr>
                 in if \<not> joined d then (Panic, e)
                    else
                      let handles = dec_block_decoders e; e = e\<lparr>dec_block_decoders := []\<rparr>
                      in if \<not> list_all joined handles then (Panic, e)
                         else if \<not> joined f then (Panic, e)
                         else (Ok (), e))"

section \<open>Specification of the dispatcher\<close>

text \<open>The consecutive pieces of a fixed size of a byte sequence.\<close>

function chunks :: "usize \<Rightarrow> bytes \<Rightarrow> bytes list" where
  "chunks k c = (if k = 0 \<or> length c < k then [] else take k c # chunks k (drop k c))"
  by pat_completeness auto
termination
  by (relation "measure (\<lambda>(k, c). length c)") auto

declare chunks.simps [simp del]

definition packet_route :: "('oti, 'plan, 'enc, 'pkt, 'dec) raptorq \<Rightarrow> nat \<Rightarrow> 'pkt \<Rightarrow> nat" where
  "packet_route R n p = unat (source_block_number R p) mod n"

definition packet_dispatch_end :: "error_kind \<Rightarrow> 'pkt packet_dispatch_result" where
  "packet_dispatch_end e = (if e = UnexpectedEof \<or> e = Interrupted then Ok () else Err (PacketIO e))"

definition stream_packets :: "('oti, 'plan, 'enc, 'pkt, 'dec) raptorq \<Rightarrow> usize \<Rightarrow> bytes \<Rightarrow> 'pkt list" where
  "stream_packets R k c = map (pkt_deserialize R) (chunks k c)"

section \<open>Lemmas\<close>

lemma chunks_short: "length c < k \<Longrightarrow> chunks k c = []"
  by (simp add: chunks.simps)

lemma chunks_step: "\<lbrakk>0 < k; k \<le> length c\<rbrakk> \<Longrightarrow> chunks k c = take k c # chunks k (drop k c)"
  by (subst chunks.simps) simp

text \<open>A concatenation of pieces of the right size is cut into exactly these pieces.\<close>

lemma chunks_concat:
  assumes "0 < k" "\<forall>x \<in> set xs. length x = k"
  shows "chunks k (concat xs) = xs"
  using assms(2)
proof (induction xs)
  case Nil
  show ?case using assms(1) by (simp add: chunks_short)
next
  case (Cons x xs)
  then show ?case using assms(1) by (simp add: chunks_step)
qed

lemma packet_dispatch_round_full:
  assumes "length buf \<le> length (flow codec_retry inp)" "0 < n"
  shows "\<exists>inp'. packet_dispatch_round R n (buf, inp) =
      (let b = take (length buf) (flow codec_retry inp); p = pkt_deserialize R b
       in Emit (packet_route R n p) p (b, inp')) \<and>
      flow codec_retry inp' = drop (length buf) (flow codec_retry inp) \<and>
      flow_end codec_retry codec_report inp' = flow_end codec_retry codec_report inp"
  using codec_reader.rd_enough [of buf inp] assms
  by (auto simp: packet_dispatch_round_def packet_route_def Let_def)

lemma packet_dispatch_round_short:
  assumes "length (flow codec_retry inp) < length buf"
  shows "packet_dispatch_round R n (buf, inp) =
    Stop (packet_dispatch_end (flow_end codec_retry codec_report inp))"
  using codec_reader.rd_short [of inp buf] assms
  by (auto simp: packet_dispatch_round_def packet_dispatch_end_def)

text \<open>What the dispatcher emits.\<close>

definition decoder_items ::
  "('oti, 'plan, 'enc, 'pkt, 'dec) raptorq \<Rightarrow> nat \<Rightarrow> bytes \<times> in_stream \<Rightarrow> (nat \<times> 'pkt) list" where
  "decoder_items R n s =
     (if n = 0 then []
      else map (\<lambda>p. (packet_route R n p, p)) (stream_packets R (length (fst s)) (flow codec_retry (snd s))))"

definition decoder_result :: "nat \<Rightarrow> bytes \<times> in_stream \<Rightarrow> 'pkt packet_dispatch_result" where
  "decoder_result n s =
     (if n = 0 \<and> length (fst s) \<le> length (flow codec_retry (snd s)) then Panic
      else packet_dispatch_end (flow_end codec_retry codec_report (snd s)))"

lemma decoder_emits:
  fixes R :: "('oti, 'plan, 'enc, 'pkt, 'dec) raptorq"
  assumes "0 < length (fst s)" "m_next M = packet_dispatch_round R n"
  shows "emits M s (decoder_items R n s) (decoder_result n s)"
  using assms
proof (induction "length (flow codec_retry (snd s))" arbitrary: s rule: less_induct)
  case less
  obtain buf inp where s: "s = (buf, inp)" by fastforce
  show ?case
  proof (cases "length (flow codec_retry inp) < length buf")
    case True
    then have "emits M s [] (packet_dispatch_end (flow_end codec_retry codec_report inp))"
      using less.prems(2) packet_dispatch_round_short [OF True] s by (intro emits_Stop) simp
    then show ?thesis
      using True s by (simp add: decoder_items_def decoder_result_def stream_packets_def chunks_short)
  next
    case False
    let ?b = "take (length buf) (flow codec_retry inp)"
    let ?p = "pkt_deserialize R ?b"
    show ?thesis
    proof (cases "n = 0")
      case True
      then have "packet_dispatch_round R n s = Stop Panic"
        using False s codec_reader.rd_enough [of buf inp] by (auto simp: packet_dispatch_round_def)
      then have "emits M s [] Panic" using less.prems(2) by (intro emits_Stop) simp
      then show ?thesis using True False s by (simp add: decoder_items_def decoder_result_def)
    next
      case n: False
      then obtain inp' where r: "packet_dispatch_round R n s = Emit (packet_route R n ?p) ?p (?b, inp')"
          "flow codec_retry inp' = drop (length buf) (flow codec_retry inp)"
          "flow_end codec_retry codec_report inp' = flow_end codec_retry codec_report inp"
        using packet_dispatch_round_full [of buf inp n R] False s by (auto simp: Let_def)
      have "length (drop (length buf) (flow codec_retry inp)) < length (flow codec_retry inp)"
        using less.prems(1) False s by (cases buf) auto
      then have "emits M (?b, inp') (decoder_items R n (?b, inp')) (decoder_result n (?b, inp'))"
        using less.prems False r(2) s by (intro less.hyps) auto
      moreover have "decoder_items R n s = (packet_route R n ?p, ?p) # decoder_items R n (?b, inp')"
        using False n less.prems(1) r(2) s
        by (simp add: decoder_items_def stream_packets_def chunks_step min_absorb2)
      moreover have "(decoder_result n (?b, inp') :: 'pkt packet_dispatch_result) = decoder_result n s"
        using n r(3) s by (simp add: decoder_result_def)
      ultimately show ?thesis using r(1) less.prems(2) emits_Emit [of M s "packet_route R n ?p" ?p "(?b, inp')"] by auto
    qed
  qed
qed

text \<open>The sequential loop does to open queues what the emissions say.\<close>

lemma packet_dispatch_loop_emits:
  assumes "emits M s items r" "m_next M = packet_dispatch_round R (length queues)"
    and "\<forall>q \<in> set queues. hangup q = None" "\<forall>p \<in> set items. fst p < length queues"
  shows "packet_dispatch_loop R s queues = Some (r,
     map (\<lambda>j. (queues ! j)\<lparr>sent := sent (queues ! j) @ routed items j\<rparr>) [0..<length queues])"
  using assms
proof (induction arbitrary: queues rule: emits.induct)
  case (emits_Stop s r)
  then show ?case by (subst packet_dispatch_loop.simps) (auto intro!: nth_equalityI)
next
  case (emits_Emit s j x s' items r)
  let ?q = "(queues ! j)\<lparr>sent := sent (queues ! j) @ [x]\<rparr>"
  have j: "j < length queues" using emits_Emit.prems by simp
  have "send x (queues ! j) = Ok ?q" using emits_Emit.prems(2) j by simp
  then have "packet_dispatch_loop R s queues = packet_dispatch_loop R s' (queues[j := ?q])"
    using emits_Emit.hyps emits_Emit.prems(1) by (subst packet_dispatch_loop.simps) simp
  also have "\<forall>q \<in> set (queues[j := ?q]). hangup q = None"
    using emits_Emit.prems(2) j set_update_subset_insert [of queues j ?q] by auto
  then have "packet_dispatch_loop R s' (queues[j := ?q]) = Some (r,
     map (\<lambda>k. (queues[j := ?q] ! k)\<lparr>sent := sent (queues[j := ?q] ! k) @ routed items k\<rparr>)
       [0..<length (queues[j := ?q])])"
    using emits_Emit.prems by (intro emits_Emit.IH) auto
  also have "\<dots> = Some (r, map (\<lambda>k. (queues ! k)\<lparr>sent := sent (queues ! k) @ routed ((j, x) # items) k\<rparr>)
      [0..<length queues])"
    using j by (auto simp: nth_list_update)
  finally show ?case .
qed

lemma decoder_items_range: "j \<in> fst ` set (decoder_items R n s) \<Longrightarrow> j < n"
  by (auto simp: decoder_items_def packet_route_def split: if_splits)

lemma routed_decoder_items:
  "0 < n \<Longrightarrow> routed (decoder_items R n s) j =
     filter (\<lambda>p. packet_route R n p = j) (stream_packets R (length (fst s)) (flow codec_retry (snd s)))"
  by (simp add: routed_def decoder_items_def filter_map comp_def)

section \<open>The threads of a decoder\<close>

lemma decoder_machine_sel [simp]:
  "m_next (decoder_machine R n) = packet_dispatch_round R n"
  "m_work (decoder_machine R n) = decode_work R" "m_write (decoder_machine R n) = write_block"
  by (simp_all add: decoder_machine_def)

lemma write_block_ok: "benign w \<Longrightarrow> fst (write_block w b) \<and> benign (snd (write_block w b))"
  using write_all_benign [of w b] by (auto simp: write_block_def split: prod.splits outcome.splits)

lemma write_block_written:
  assumes "benign w"
  shows "written (snd (write_block w b)) = written w @ b"
proof -
  obtain w' where "write_all b w = (Ok (), w')"
    using write_all_benign [OF assms, of b] by (metis prod.collapse)
  then show ?thesis using write_all_written [of b w] by (auto simp: write_block_def)
qed

lemma write_blocks_written:
  "benign w \<Longrightarrow> written (write_seq (decoder_machine R n) w bs) = written w @ concat bs"
  by (induction bs arbitrary: w) (simp_all add: write_seq_def write_block_ok write_block_written)

interpretation dec_pipe:
  worker_pipeline "decoder_machine R n" n "\<lambda>s. 0 < length (fst s)" "decoder_items R n" "decoder_result n"
  by unfold_locales (auto simp only: decoder_emits decoder_items_range decoder_machine_sel)

interpretation dec_ok:
  healthy_pipeline "decoder_machine R (Suc m)" "Suc m" "\<lambda>s. 0 < length (fst s)"
    "decoder_items R (Suc m)" "decoder_result (Suc m)" "\<lambda>d. True" "\<lambda>p. True" benign
  by unfold_locales (auto simp: write_block_ok decode_work_def split_beta)

lemma decoder_outs: "outs (decoder_machine R n) d ps = fst (decode_seq R d ps)"
  by (induction ps arbitrary: d) (auto simp: decode_work_def split: prod.splits option.splits)

lemma forward_blocks_write_seq:
  "benign w \<Longrightarrow> forward_blocks bs w = (Ok (), write_seq (decoder_machine R n) w bs)"
proof (induction bs arbitrary: w)
  case (Cons b bs)
  obtain w' where "write_all b w = (Ok (), w')" "benign w'"
    using write_all_benign [OF Cons.prems, of b] by (metis prod.collapse)
  then show ?case using Cons by (simp add: write_seq_def write_block_def)
qed (simp add: write_seq_def)


text \<open>
  The block forwarder writes a prefix of the blocks, all of them exactly when it reports
  success, each byte once and in order; on a writer that never refuses for good it succeeds.
\<close>

lemma forward_blocks_behaviour:
  "(\<exists>k. written (snd (forward_blocks bs w)) = written w @ take k (concat bs)) \<and>
   (fst (forward_blocks bs w) = Ok () \<longrightarrow> written (snd (forward_blocks bs w)) = written w @ concat bs) \<and>
   (benign w \<longrightarrow> fst (forward_blocks bs w) = Ok ())"
proof (induction bs arbitrary: w)
  case (Cons b bs)
  obtain r w' where r: "write_all b w = (r, w')" by fastforce
  note wr = write_all_written [of b w] write_all_benign [of w b]
  obtain k0 k1 where k: "written w' = written w @ take k0 b" "take k0 b = take k1 (b @ concat bs)"
    using wr(1) r take_take_append [of _ "b" "concat bs"] by (metis snd_conv)
  show ?case
  proof (cases r)
    case (Ok u)
    then have w': "written w' = written w @ b" using wr(1) r by auto
    obtain k where "written (snd (forward_blocks bs w')) = written w' @ take k (concat bs)"
      using Cons.IH by blast
    then show ?thesis
      using Ok r w' wr(2) Cons.IH [of w'] by (auto intro!: exI [of _ "length b + k"])
  qed (use r wr(2) k in \<open>auto intro!: exI [of _ k1]\<close>)+
qed simp

lemma forward_blocks_forward_all: "snd (forward_blocks bs w) = forward_all (decoder_machine R n) w bs"
  by (induction bs arbitrary: w) (simp_all add: write_block_def split: prod.splits outcome.splits)

text \<open>Starting.\<close>

lemma spawn_block_decoders_Ok:
  assumes "block_decoder_new R (dec_block_size e) (dec_max_packet_size e) = Ok d"
  shows "spawn_block_decoders R n tid e ds =
    (Ok (ds @ replicate n d), tid + n, e\<lparr>dec_block_decoders := dec_block_decoders e @ [tid..<tid + n]\<rparr>)"
  using assms
  by (induction n arbitrary: tid e ds) (simp_all add: upt_conv_Cons replicate_app_Cons_same)

lemma start_decoding_Ok:
  assumes "start_decoding R tid inp out (decoder_init bs n mps) = (Ok s, e)"
  obtains k ds where "infer_packet_size R bs mps = Ok k" "length ds = n"
    "0 < n \<Longrightarrow> \<exists>d. block_decoder_new R bs mps = Ok d \<and> ds = replicate n d"
    "s = pinit (replicate k 0, inp) ds out"
    "e = (decoder_init bs n mps)
       \<lparr>dec_block_forwarder := Some tid, dec_block_decoders := [tid + 1..<tid + 1 + n],
        dec_should_stop := Some (tid + 1 + n), dec_packet_dispatcher := Some (tid + 1 + n)\<rparr>"
proof -
  let ?e = "(decoder_init bs n mps)\<lparr>dec_block_forwarder := Some tid\<rparr>"
  have "\<exists>ds. length ds = n \<and> (0 < n \<longrightarrow> (\<exists>d. block_decoder_new R bs mps = Ok d \<and> ds = replicate n d)) \<and>
      spawn_block_decoders R n (tid + 1) ?e [] =
        (Ok ds, tid + 1 + n, ?e\<lparr>dec_block_decoders := [tid + 1..<tid + 1 + n]\<rparr>)"
  proof (cases "block_decoder_new R bs mps")
    case (Ok d)
    then show ?thesis
      using spawn_block_decoders_Ok [of R ?e d n "tid + 1" "[]"] by (simp add: decoder_init_def)
  qed (use assms in \<open>cases n; auto simp: start_decoding_def decoder_init_def\<close>)+
  then obtain ds where ds: "length ds = n"
      "0 < n \<Longrightarrow> \<exists>d. block_decoder_new R bs mps = Ok d \<and> ds = replicate n d"
      "spawn_block_decoders R n (tid + 1) ?e [] =
        (Ok ds, tid + 1 + n, ?e\<lparr>dec_block_decoders := [tid + 1..<tid + 1 + n]\<rparr>)"
    by blast
  moreover obtain k where "infer_packet_size R bs mps = Ok k"
    using assms ds(3) by (cases "infer_packet_size R bs mps")
      (auto simp: start_decoding_def decoder_init_def simp del: upt_Suc)
  ultimately show ?thesis
    using assms by (intro that [of k ds])
      (auto simp: start_decoding_def decoder_init_def packet_dispatcher_new_def Let_def simp del: upt_Suc)
qed

text \<open>A decoder with a valid configuration starts, and can run to its end.\<close>

lemma start_decoding_runs:
  assumes "block_decoder_new R bs mps = Ok d" "infer_packet_size R bs mps = Ok k" "0 < k"
  obtains s0 e ls s where "start_decoding R tid inp out (decoder_init bs n mps) = (Ok s0, e)"
    "psteps (decoder_machine R n) ls s0 s" "all_ended s"
proof -
  let ?d = "(replicate k 0, inp)"
  have "fst (start_decoding R tid inp out (decoder_init bs n mps)) = Ok (pinit ?d (replicate n d) out)"
    using spawn_block_decoders_Ok [of R "(decoder_init bs n mps)\<lparr>dec_block_forwarder := Some tid\<rparr>" d n "tid + 1" "[]"]
      assms(1,2) by (simp add: start_decoding_def packet_dispatcher_new_def decoder_init_def)
  moreover obtain ls s where "psteps (decoder_machine R n) ls (pinit ?d (replicate n d) out) s" "all_ended s"
    using dec_pipe.some_run [of ?d "replicate n d" n R out] assms(3) by auto
  ultimately show ?thesis using that by (metis prod.collapse)
qed

text \<open>What a worker makes of its share of the packets.\<close>

lemma decoder_share:
  assumes "block_decoder_new R bs mps = Ok d" "0 < n"
  shows "outs (decoder_machine R n) d (routed (decoder_items R n (replicate k 0, inp)) j) =
    stream_blocks R (with_defaults R (of_nat bs) mps) bs
      (filter (\<lambda>p. packet_route R n p = j) (stream_packets R k (flow codec_retry inp)))"
  using assms(2) block_decoder_new_Ok [OF assms(1)] decode_seq_blocks [of _ d R]
  by (simp add: decoder_outs routed_decoder_items)

text \<open>All threads of a decoder together, from the state in which they start.\<close>

lemma decoder_threads_output:
  assumes d: "block_decoder_new R bs mps = Ok d" and pos: "0 < k" "0 < n" and out: "benign out"
    and run: "psteps (decoder_machine R n) ls (pinit (replicate k 0, inp) (replicate n d) out) s" "all_ended s"
  obtains blocks where "merge_of n (\<lambda>j. stream_blocks R (with_defaults R (of_nat bs) mps) bs
       (filter (\<lambda>p. packet_route R n p = j) (stream_packets R k (flow codec_retry inp)))) blocks"
    and "written (forwarder s) = written out @ concat blocks"
proof -
  obtain m where m: "n = Suc m" using pos(2) by (metis Suc_pred)
  let ?d = "(replicate k 0, inp) :: bytes \<times> in_stream"
  obtain blocks where b: "merge_of n (\<lambda>j. outs (decoder_machine R n) (replicate n d ! j)
       (routed (decoder_items R n ?d) j)) blocks"
      "forwarder s = write_seq (decoder_machine R n) out blocks"
    by (rule dec_ok.complete_run [of ?d "replicate n d" m out R ls s, folded m])
      (use pos out run m in auto)
  have "merge_of n (\<lambda>j. stream_blocks R (with_defaults R (of_nat bs) mps) bs
       (filter (\<lambda>p. packet_route R n p = j) (stream_packets R k (flow codec_retry inp)))) blocks"
    using b(1) decoder_share [OF d pos(2)] by (simp add: merge_of_def)
  then show ?thesis using that b(2) write_blocks_written [OF out] by auto
qed

lemma write_blocks_benign: "benign w \<Longrightarrow> benign (write_seq (decoder_machine R n) w bs)"
  by (induction bs arbitrary: w) (simp_all add: write_seq_def write_block_ok)

lemma decoder_no_panic:
  assumes "psteps (decoder_machine R n) ls (pinit d ws out) t" "0 < n"
  shows "dispatcher t \<noteq> Inr Panic"
proof
  assume t: "dispatcher t = Inr Panic"
  have "dispatcher (pinit d ws out) = Inl d" by (simp add: pinit_def)
  from psteps_dispatcher_end [OF assms(1) this t]
  obtain d' where d: "packet_dispatch_round R n d' = Stop Panic" by (auto simp: decoder_machine_def)
  obtain pkt inp where s: "d' = (pkt, inp)" by fastforce
  show False
  proof (cases "length pkt \<le> length (flow codec_retry inp)")
    case True
    then show ?thesis using d packet_dispatch_round_full [of pkt inp n R] assms(2)
      by (auto simp: s Let_def)
  next
    case False
    then show ?thesis using d packet_dispatch_round_short [of inp pkt R n]
      by (auto simp: s packet_dispatch_end_def split: if_splits)
  qed
qed

section \<open>Properties\<close>

text \<open>
  C13. The decoder under every schedule of its threads: when all of them have ended, the output
  holds the decoded blocks, each worker's in order: a worker sees the packets with its share of
  the block ids, in the order of arrival, and makes one decoding attempt per run of packets with
  the same id.
\<close>

theorem decoder_output:
  assumes "start_decoding R tid inp out (decoder_init bs n mps) = (Ok s0, e)"
    and "infer_packet_size R bs mps = Ok k" "0 < k" "0 < n" "benign out"
    and "psteps (decoder_machine R n) ls s0 s" "all_ended s"
  shows "\<exists>blocks. merge_of n (\<lambda>j. stream_blocks R (with_defaults R (of_nat bs) mps) bs
       (filter (\<lambda>p. packet_route R n p = j) (stream_packets R k (flow codec_retry inp)))) blocks \<and>
    written (forwarder s) = written out @ concat blocks"
proof -
  obtain d where "block_decoder_new R bs mps = Ok d" "s0 = pinit (replicate k 0, inp) (replicate n d) out"
    using start_decoding_Ok [OF assms(1)] assms(2,4) by (metis outcome.inject(1))
  then show ?thesis using decoder_threads_output [OF _ assms(3-5) _ assms(7)] assms(6) by metis
qed

theorem decoder_output_witness:
  "\<exists>s0 e ls s. start_decoding rep_code 0 [Bytes [7, 0, 0, 1, 2, 7, 0, 0, 0, 1, 7, 0, 0, 0, 1]]
       \<lparr>writes = [], wscript = []\<rparr> (decoder_init 2 1 5) = (Ok s0, e) \<and>
     psteps (decoder_machine rep_code 1) ls s0 s \<and> all_ended s \<and> written (forwarder s) = [1, 2]"
proof -
  let ?inp = "[Bytes [7, 0, 0, 1, 2, 7, 0, 0, 0, 1, 7, 0, 0, 0, 1]]"
  let ?out = "\<lparr>writes = [], wscript = []\<rparr> :: out_stream"
  obtain d where d: "block_decoder_new rep_code 2 5 = Ok d" by (rule rep_decoder)
  obtain s0 e ls s where e: "start_decoding rep_code 0 ?inp ?out (decoder_init 2 1 5) = (Ok s0, e)"
      and run: "psteps (decoder_machine rep_code 1) ls s0 s" "all_ended s"
    by (rule start_decoding_runs [OF d rep_packet_size, where n = 1]) simp
  have "concat (stream_blocks rep_code (with_defaults rep_code (of_nat 2) 5) 2
     (filter (\<lambda>p. packet_route rep_code 1 p = 0)
       (stream_packets rep_code 5 [7, 0, 0, 1, 2, 7, 0, 0, 0, 1, 7, 0, 0, 0, 1]))) = [1, 2]"
    by code_simp
  then have "written (forwarder s) = [1, 2]"
    using decoder_output [OF e rep_packet_size _ _ _ run] by (auto simp: merge_of_one written_def benign_def)
  then show ?thesis using e run by blast
qed

text \<open>
  C10. What holds of a decoder in every state it can reach, whatever the schedule and whenever a
  write fails: no queue holds more than ten messages; what has been handed to the block forwarder
  and what waits for it are together an interleaving of prefixes of what the workers decode from
  their packets; the forwarder has treated its blocks as \<open>forward_blocks\<close> does, so the output holds
  the blocks in order, up to the first that could not be written.
\<close>

theorem decoder_invariant:
  assumes "start_decoding R tid inp out (decoder_init bs n mps) = (Ok s0, e)"
    and "infer_packet_size R bs mps = Ok k" "0 < k" "0 < n" "psteps (decoder_machine R n) ls s0 s"
  shows "bounded s \<and>
    (\<exists>parts bls m. merge_of n parts (bls @ shared s) \<and>
       (\<forall>j < n. prefix (parts j) (stream_blocks R (with_defaults R (of_nat bs) mps) bs
          (filter (\<lambda>p. packet_route R n p = j) (stream_packets R k (flow codec_retry inp))))) \<and>
       forwarder s = snd (forward_blocks bls out) \<and>
       written (forwarder s) = written out @ take m (concat bls))"
proof -
  let ?d = "(replicate k 0, inp) :: bytes \<times> in_stream"
  obtain d where st: "block_decoder_new R bs mps = Ok d" "s0 = pinit ?d (replicate n d) out"
    using start_decoding_Ok [OF assms(1)] assms(2,4) by (metis outcome.inject(1))
  have d: "0 < length (fst ?d)" "length (replicate n d) = n" using assms(3) by simp_all
  note run = assms(5) [unfolded st(2)]
  obtain parts bls where p: "merge_of n parts (bls @ shared s)" "forwarder s = forward_all (decoder_machine R n) out bls"
      "\<forall>j < n. prefix (parts j) (outs (decoder_machine R n) (replicate n d ! j) (routed (decoder_items R n ?d) j))"
    by (rule dec_pipe.run_prefix [OF d run])
  have "prefix (parts j) (stream_blocks R (with_defaults R (of_nat bs) mps) bs
      (filter (\<lambda>p. packet_route R n p = j) (stream_packets R k (flow codec_retry inp))))" if "j < n" for j
    using p(3) [rule_format, OF that] that by (simp only: nth_replicate decoder_share [OF st(1) assms(4)])
  moreover have f: "forwarder s = snd (forward_blocks bls out)"
    using p(2) forward_blocks_forward_all [of bls out R n] by simp
  moreover obtain m where "written (forwarder s) = written out @ take m (concat bls)"
    using forward_blocks_behaviour [of bls out] f by auto
  ultimately show ?thesis using dec_pipe.run_bounded [OF d(1) run] p(1) by blast
qed

theorem decoder_invariant_witness:
  "\<exists>s0 e ls s. start_decoding rep_code 0 [Bytes [7, 0, 0, 1, 2, 7, 0, 0, 0, 1, 7, 0, 0, 0, 1]]
       \<lparr>writes = [], wscript = [Accepts 1, Refuses BrokenPipe]\<rparr> (decoder_init 2 3 5) = (Ok s0, e) \<and>
     psteps (decoder_machine rep_code 3) ls s0 s \<and> all_ended s \<and> bounded s"
proof -
  let ?inp = "[Bytes [7, 0, 0, 1, 2, 7, 0, 0, 0, 1, 7, 0, 0, 0, 1]]"
  let ?out = "\<lparr>writes = [], wscript = [Accepts 1, Refuses BrokenPipe]\<rparr> :: out_stream"
  obtain d where d: "block_decoder_new rep_code 2 5 = Ok d" by (rule rep_decoder)
  obtain s0 e ls s where e: "start_decoding rep_code 0 ?inp ?out (decoder_init 2 3 5) = (Ok s0, e)"
      and run: "psteps (decoder_machine rep_code 3) ls s0 s" "all_ended s"
    by (rule start_decoding_runs [OF d rep_packet_size, where n = 3]) simp
  have "bounded s" using decoder_invariant [OF e rep_packet_size _ _ run(1)] by simp
  then show ?thesis using e run by blast
qed

text \<open>
  C6. Whatever the input, the output stream and the schedule: the queues of a decoder never
  hold more than ten messages, its threads never deadlock, and every run is finite; so every
  run can be continued until all threads have ended, and \<open>wait\<close> returns.
\<close>

theorem decoder_terminates:
  assumes "start_decoding R tid inp out (decoder_init bs n mps) = (Ok s0, e)"
    and "infer_packet_size R bs mps \<noteq> Ok 0"
  shows "(\<exists>N. \<forall>ls s. psteps (decoder_machine R n) ls s0 s \<longrightarrow> length ls \<le> N) \<and>
    (\<forall>ls s. psteps (decoder_machine R n) ls s0 s \<longrightarrow>
       bounded s \<and> (all_ended s \<or> (\<exists>l t. pstep (decoder_machine R n) l s t)) \<and>
       (\<exists>ls' t. psteps (decoder_machine R n) (ls @ ls') s0 t \<and> all_ended t))"
proof -
  obtain k ds where s0: "infer_packet_size R bs mps = Ok k" "length ds = n"
      "s0 = pinit (replicate k 0, inp) ds out"
    using start_decoding_Ok [OF assms(1)] by metis
  then have d: "0 < length (fst (replicate k (0 :: u8), inp))" using assms(2) by (cases k) auto
  show ?thesis unfolding s0(3) using dec_pipe.every_run [OF d s0(2)] .
qed

theorem decoder_terminates_witness:
  "\<exists>s0 e ls s. start_decoding rep_code 0 [Bytes [1, 2, 3, 4, 5, 6]]
       \<lparr>writes = [], wscript = [Refuses BrokenPipe]\<rparr> (decoder_init 2 3 5) = (Ok s0, e) \<and>
     psteps (decoder_machine rep_code 3) ls s0 s \<and> all_ended s"
proof -
  obtain d where d: "block_decoder_new rep_code 2 5 = Ok d" by (rule rep_decoder)
  obtain s0 e ls s where e: "start_decoding rep_code 0 [Bytes [1, 2, 3, 4, 5, 6]]
      \<lparr>writes = [], wscript = [Refuses BrokenPipe]\<rparr> (decoder_init 2 3 5) = (Ok s0, e)"
    by (rule start_decoding_runs [OF d rep_packet_size, where n = 3]) (auto intro: that)
  then show ?thesis using decoder_terminates [OF e] rep_packet_size psteps_refl by fastforce
qed

text \<open>
  \<open>wait\<close> after a successful start: it reports success exactly when no thread panicked, and
  passes a panic on; afterwards the decoder is as new, and a second \<open>wait\<close> is refused.
\<close>

lemma decoder_wait_after_start:
  assumes "start_decoding R tid inp out (decoder_init bs n mps) = (Ok s0, e)"
  shows "\<exists>e'. decoder_wait joined e = (if \<forall>t \<in> {tid..tid + 1 + n}. joined t then Ok () else Panic, e') \<and>
    ((\<forall>t \<in> {tid..tid + 1 + n}. joined t) \<longrightarrow> e' = (decoder_init bs n mps)\<lparr>dec_should_stop := Some (tid + 1 + n)\<rparr>) \<and>
    decoder_wait joined e' = (Err (DecoderInvalidState ''Packet dispatcher not initialized''), e')"
proof -
  have "e = (decoder_init bs n mps)
       \<lparr>dec_block_forwarder := Some tid, dec_block_decoders := [tid + 1..<tid + 1 + n],
        dec_should_stop := Some (tid + 1 + n), dec_packet_dispatcher := Some (tid + 1 + n)\<rparr>"
    using start_decoding_Ok [OF assms] by metis
  moreover have "{tid..tid + 1 + n} = insert tid (insert (tid + 1 + n) {tid + 1..<tid + 1 + n})" by auto
  ultimately show ?thesis
    by (auto simp: decoder_wait_def decoder_init_def Let_def list_all_iff simp del: upt_Suc)
qed

text \<open>
  C15. The packet dispatcher: whatever the reads look like, it cuts the input into packets of
  the inferred size, drops an incomplete last one, and appends each packet to the queue with the
  index of its block id modulo the number of queues, in the order of arrival; it returns \<open>Ok\<close>
  at the end of the stream or when it is stopped, and the error otherwise. It terminates for
  every positive packet size.
\<close>

theorem packet_dispatch_correct:
  fixes inp :: in_stream and R :: "('oti, 'plan, 'enc, 'pkt, 'dec) raptorq"
  assumes "queues \<noteq> []" "\<forall>q \<in> set queues. hangup q = None" "0 < pdisp_packet_size pd"
  defines "packets \<equiv> stream_packets R (pdisp_packet_size pd) (flow codec_retry inp)"
  shows "packet_dispatch R pd inp queues =
    Some (packet_dispatch_end (flow_end codec_retry codec_report inp),
      map (\<lambda>j. (queues ! j)\<lparr>sent := sent (queues ! j) @
          filter (\<lambda>p. unat (source_block_number R p) mod length queues = j) packets\<rparr>) [0..<length queues])"
proof -
  let ?n = "length queues" and ?s = "(replicate (pdisp_packet_size pd) 0, inp) :: bytes \<times> in_stream"
  have "emits (decoder_machine R ?n) ?s (decoder_items R ?n ?s) (decoder_result ?n ?s)"
    using assms(3) by (intro decoder_emits) auto
  from packet_dispatch_loop_emits [OF this _ assms(2)] show ?thesis
    using assms(1) decoder_items_range [of _ R ?n ?s]
    by (auto simp: packet_dispatch_def routed_decoder_items packet_route_def packets_def decoder_result_def)
qed

theorem packet_dispatch_correct_witness:
  "packet_dispatch rep_code \<lparr>pdisp_packet_size = 5, pdisp_should_stop = None\<rparr> [Bytes [7, 0, 0, 1], Bytes [2, 8, 0, 0, 0, 1, 7]]
     [\<lparr>sent = [], hangup = None\<rparr>, \<lparr>sent = [], hangup = None\<rparr>] =
   Some (Ok (), [\<lparr>sent = [(8, 0, [1])], hangup = None\<rparr>, \<lparr>sent = [(7, 1, [2])], hangup = None\<rparr>])"
proof -
  let ?q = "\<lparr>sent = [], hangup = None\<rparr> :: rep_packet sender"
  have p: "stream_packets rep_code 5 [7, 0, 0, 1, 2, 8, 0, 0, 0, 1, 7] = [(7, 1, [2]), (8, 0, [1])]"
    by code_simp
  have s: "source_block_number rep_code = fst" by (simp add: rep_code_def)
  have m: "7 mod Suc (Suc 0) = Suc 0" "8 mod Suc (Suc 0) = 0" by (simp_all flip: numeral_2_eq_2)
  show ?thesis
    using packet_dispatch_correct [of "[?q, ?q]" "\<lparr>pdisp_packet_size = 5, pdisp_should_stop = None\<rparr>" rep_code
        "[Bytes [7, 0, 0, 1], Bytes [2, 8, 0, 0, 0, 1, 7]]"]
    by (simp add: p s m packet_dispatch_end_def)
qed

end
