(* ===== verification/Codec.thy ===== *)
theory Codec
  imports Encoder Decoder
begin

text \<open>
  The codec from end to end: an encoder, a medium that loses packets, and a decoder, under every
  schedule of the threads on both sides.

  A packet on its way carries, in the specification only, the index of its block; that is how
  the theorems say which packets of which block arrive.
\<close>

section \<open>Labelled packets\<close>

text \<open>
  The output of an encoder with \<open>n\<close> workers: all packets of all blocks, and for each worker
  the packets of its blocks one block after the other.
\<close>

definition labelled ::
  "('oti, 'plan, 'enc, 'pkt, 'dec) raptorq \<Rightarrow> ('oti, 'plan) block_encoder \<Rightarrow> nat \<Rightarrow> block list \<Rightarrow>
   (nat \<times> 'pkt) list \<Rightarrow> bool" where
  "labelled R be n blocks zs \<longleftrightarrow>
     (\<forall>z \<in> set zs. fst z < length blocks) \<and>
     (\<forall>k < length blocks. routed zs k = block_packets R be (blocks ! k)) \<and>
     (\<forall>j < n. sorted (map fst (filter (\<lambda>z. block_route n (blocks ! fst z) = j) zs)))"

text \<open>The bytes of labelled packets on the wire.\<close>

definition wire :: "('oti, 'plan, 'enc, 'pkt, 'dec) raptorq \<Rightarrow> (nat \<times> 'pkt) list \<Rightarrow> bytes" where
  "wire R zs = concat (map (\<lambda>z. pkt_serialize R (snd z)) zs)"

lemma filter_indices: "filter P xs = map ((!) xs) (filter (\<lambda>k. P (xs ! k)) [0..<length xs])"
proof -
  have "filter P (map ((!) xs) [0..<length xs]) = map ((!) xs) (filter (P \<circ> (!) xs) [0..<length xs])"
    by (rule filter_map)
  then show ?thesis by (simp add: map_nth comp_def)
qed

text \<open>The labels of an interleaving, from labels of its parts.\<close>

lemma relabel:
  assumes "\<forall>j < n. map snd (L j) = routed ts j" "\<forall>j < n. \<forall>z \<in> set (L j). w (fst z) = j"
    and "\<forall>p \<in> set ts. fst p < n"
  shows "\<exists>zs. map snd zs = map snd ts \<and> (\<forall>j < n. filter (\<lambda>z. w (fst z) = j) zs = L j) \<and>
    (\<forall>z \<in> set zs. \<exists>j < n. z \<in> set (L j))"
  using assms
proof (induction ts arbitrary: L)
  case Nil
  then show ?case by (auto intro!: exI [of _ "[]"])
next
  case (Cons t ts)
  obtain j p where t: "t = (j, p)" by fastforce
  then have j: "j < n" "map snd (L j) = p # routed ts j" using Cons.prems(1,3) by auto
  then obtain k zs0 where L: "L j = (k, p) # zs0" "map snd zs0 = routed ts j"
    by (auto simp: map_eq_Cons_conv)
  let ?L = "L(j := zs0)"
  have "\<exists>zs. map snd zs = map snd ts \<and> (\<forall>i < n. filter (\<lambda>z. w (fst z) = i) zs = ?L i) \<and>
      (\<forall>z \<in> set zs. \<exists>i < n. z \<in> set (?L i))"
  proof (rule Cons.IH)
    show "\<forall>i < n. map snd (?L i) = routed ts i" using Cons.prems(1) L t by auto
    show "\<forall>i < n. \<forall>z \<in> set (?L i). w (fst z) = i"
      using Cons.prems(2) L(1) j(1) by (metis fun_upd_apply list.set_intros(2))
  qed (use Cons.prems(3) in auto)
  then obtain zs where zs: "map snd zs = map snd ts" "\<forall>i < n. filter (\<lambda>z. w (fst z) = i) zs = ?L i"
      "\<forall>z \<in> set zs. \<exists>i < n. z \<in> set (?L i)" by blast
  have "w k = j" using Cons.prems(2) L(1) j(1) by fastforce
  then have "\<forall>i < n. filter (\<lambda>z. w (fst z) = i) ((k, p) # zs) = L i" using zs(2) L(1) by auto
  moreover have "\<exists>i < n. z \<in> set (L i)" if "z \<in> set ((k, p) # zs)" for z
  proof (cases "z = (k, p)")
    case True
    then show ?thesis using L(1) j(1) by auto
  next
    case False
    then have "z \<in> set zs" using that by simp
    then obtain i where "i < n" "z \<in> set (?L i)" using zs(3) by blast
    then show ?thesis using L(1) by (cases "i = j") auto
  qed
  ultimately show ?case using zs(1) t by (intro exI [of _ "(k, p) # zs"]) auto
qed

lemma filter_labels:
  assumes "distinct ks" "k \<in> set ks"
  shows "filter (\<lambda>z. fst z = k) (concat (map (\<lambda>k. map (Pair k) (g k)) ks)) = map (Pair k) (g k)"
  using assms
proof (induction ks)
  case (Cons i ks)
  have other: "filter (\<lambda>z. fst z = k) (concat (map (\<lambda>k. map (Pair k) (g k)) is)) = []"
    if "k \<notin> set is" for "is"
    using that by (auto simp: filter_empty_conv)
  show ?case
  proof (cases "i = k")
    case True
    then show ?thesis using Cons.prems other [of ks] by simp
  next
    case False
    then show ?thesis using Cons by (simp add: filter_map comp_def)
  qed
qed simp

lemma sorted_labels:
  "sorted ks \<Longrightarrow> sorted (map fst (concat (map (\<lambda>k. map (Pair k) (g k)) ks)))"
  by (induction ks) (auto simp: sorted_append comp_def map_replicate_const)

lemma merge_labelled:
  assumes "merge_of n (\<lambda>j. concat (map (block_packets R be)
      (filter (\<lambda>b. block_route n b = j) blocks))) packets"
    and "0 < n"
  shows "\<exists>zs. map snd zs = packets \<and> labelled R be n blocks zs"
proof -
  let ?w = "\<lambda>k. block_route n (blocks ! k)" and ?ks = "\<lambda>j. filter (\<lambda>k. block_route n (blocks ! k) = j) [0..<length blocks]"
  let ?g = "\<lambda>k. block_packets R be (blocks ! k)"
  let ?L = "\<lambda>j. concat (map (\<lambda>k. map (Pair k) (?g k)) (?ks j))"
  obtain ts where ts: "map snd ts = packets" "\<forall>p \<in> set ts. fst p < n"
      "\<forall>j < n. routed ts j = concat (map (block_packets R be) (filter (\<lambda>b. block_route n b = j) blocks))"
    using assms(1) by (auto simp: merge_of_def)
  have "map snd (?L j) = concat (map (block_packets R be) (filter (\<lambda>b. block_route n b = j) blocks))" for j
    by (subst filter_indices) (simp add: map_concat comp_def)
  then have "\<forall>j < n. map snd (?L j) = routed ts j" using ts(3) by simp
  moreover have "\<forall>j < n. \<forall>z \<in> set (?L j). ?w (fst z) = j" by auto
  ultimately obtain zs where zs: "map snd zs = map snd ts"
      "\<forall>j < n. filter (\<lambda>z. ?w (fst z) = j) zs = ?L j" "\<forall>z \<in> set zs. \<exists>j < n. z \<in> set (?L j)"
    using relabel [of n ?L ts ?w] ts(2) by blast
  have range: "fst z < length blocks" if "z \<in> set zs" for z using zs(3) that by auto
  have "routed zs k = ?g k" if k: "k < length blocks" for k
  proof -
    have "?w k < n" using assms(2) by (simp add: block_route_def)
    moreover have "filter (\<lambda>z. fst z = k) zs = filter (\<lambda>z. fst z = k) (filter (\<lambda>z. ?w (fst z) = ?w k) zs)"
      by (auto intro!: filter_cong)
    ultimately have "filter (\<lambda>z. fst z = k) zs = map (Pair k) (?g k)"
      using zs(2) filter_labels [of "?ks (?w k)" k ?g] k by simp
    then show ?thesis by (simp add: routed_def comp_def)
  qed
  moreover have "\<forall>j < n. sorted (map fst (filter (\<lambda>z. ?w (fst z) = j) zs))"
    using zs(2) sorted_labels [of "?ks j" ?g for j] by (simp add: sorted_wrt_filter)
  ultimately have "labelled R be n blocks zs" using range by (simp add: labelled_def)
  then show ?thesis using zs(1) ts(1) by auto
qed

section \<open>What arrives at a worker of the decoder\<close>

text \<open>A list that is sorted by its labels is the concatenation of its parts.\<close>

lemma sorted_split:
  assumes "sorted (map fst xs)" "fst ` set xs \<subseteq> set ks" "sorted ks" "distinct ks"
  shows "xs = concat (map (\<lambda>k. filter (\<lambda>x. fst x = k) xs) ks)"
  using assms
proof (induction ks arbitrary: xs)
  case (Cons k ks)
  let ?ys = "filter (\<lambda>x. fst x \<noteq> k) xs"
  have "xs = filter (\<lambda>x. fst x = k) xs @ ?ys"
    using Cons.prems
  proof (induction xs)
    case (Cons x xs)
    show ?case
    proof (cases "fst x = k")
      case True
      then show ?thesis using Cons by auto
    next
      case False
      then have "fst x \<in> set ks" using Cons.prems(2) by auto
      then have "k < fst x" using Cons.prems(3) False by fastforce
      then have "filter (\<lambda>x. fst x = k) xs = []" using Cons.prems(1) by (auto simp: filter_empty_conv)
      moreover from this have "filter (\<lambda>x. fst x \<noteq> k) xs = xs" by (auto simp: filter_empty_conv filter_id_conv)
      ultimately show ?thesis using False by simp
    qed
  qed simp
  have "?ys = concat (map (\<lambda>i. filter (\<lambda>x. fst x = i) ?ys) ks)"
    using Cons.prems by (intro Cons.IH) (auto simp: sorted_wrt_filter sorted_filter)
  also have "map (\<lambda>i. filter (\<lambda>x. fst x = i) ?ys) ks = map (\<lambda>i. filter (\<lambda>x. fst x = i) xs) ks"
    using Cons.prems(4) by (auto intro!: filter_cong)
  finally have "?ys = concat (map (\<lambda>i. filter (\<lambda>x. fst x = i) xs) ks)" .
  with \<open>xs = filter (\<lambda>x. fst x = k) xs @ ?ys\<close> show ?case by simp
qed simp

lemma subseq_filter: "subseq xs ys \<Longrightarrow> subseq (filter P xs) (filter P ys)"
  by (induction rule: list_emb.induct) auto

lemma subseq_set: "subseq xs ys \<Longrightarrow> set xs \<subseteq> set ys"
  by (induction rule: list_emb.induct) auto

lemma subseq_sorted: "\<lbrakk>subseq xs ys; sorted (map fst ys)\<rbrakk> \<Longrightarrow> sorted (map fst xs)"
proof (induction rule: list_emb.induct)
  case (list_emb_Cons2 x y xs ys)
  then show ?case using subseq_set [of xs ys] by auto
qed auto

text \<open>No index between the last selected one and the end.\<close>

lemma distinct_adj_filter_upt:
  assumes "\<And>k k'. \<lbrakk>k < k'; k' < m; P k; P k'; f k = f k'\<rbrakk> \<Longrightarrow> \<exists>i. k < i \<and> i < k' \<and> P i"
  shows "distinct_adj (map f (filter P [0..<m]))"
  using assms
proof (induction m)
  case (Suc m)
  have IH: "distinct_adj (map f (filter P [0..<m]))" using Suc by (metis less_Suc_eq)
  show ?case
  proof (cases "P m \<and> filter P [0..<m] \<noteq> []")
    case True
    let ?k = "last (filter P [0..<m])"
    have k: "?k < m" "P ?k" using True last_in_set [of "filter P [0..<m]"] by auto
    have "i \<le> ?k" if "i < m" "P i" for i
    proof -
      let ?fs = "filter P [0..<m]"
      have fs: "?fs = butlast ?fs @ [?k]" using True by simp
      have "sorted ?fs" by (simp add: sorted_wrt_filter)
      then have "sorted (butlast ?fs @ [?k])" by (subst (asm) fs)
      then have "x \<le> ?k" if "x \<in> set (butlast ?fs @ [?k])" for x
        using that by (auto simp: sorted_append)
      moreover have "i \<in> set (butlast ?fs @ [?k])" by (subst fs [symmetric]) (use that in simp)
      ultimately show ?thesis by blast
    qed
    then have "f ?k \<noteq> f m" using Suc.prems [of ?k m] k True by (meson lessI linorder_not_less)
    then show ?thesis using True IH by (simp add: distinct_adj_append_iff last_map)
  qed (use IH in \<open>auto simp: distinct_adj_append_iff\<close>)
qed simp


text \<open>
  With at most 128 workers, each of them is in charge of at least two ids, so between two blocks
  with the same id it sees another block.
\<close>

lemma unat_add_of_nat_u8: "unat (x + of_nat d :: u8) = (unat x + d) mod 256"
  by (simp add: unat_word_ariths unsigned_of_nat take_bit_eq_mod mod_add_right_eq)

lemma unat_numeral_128: "unat (128 :: u8) = 128"
  by simp

lemma runs_constant: "\<forall>x \<in> set xs. f x = k \<Longrightarrow> length (runs f xs) \<le> 1"
  using runs_append [of xs f k "[]"] by (cases "xs = []") simp_all

lemma length_map_filter_le: "length (List.map_filter f xs) \<le> length xs"
  by (simp add: map_filter_def)

lemma same_id_between:
  fixes i :: u8
  assumes "0 < n" "n \<le> 128" "k < k'" "i + of_nat k = i + of_nat k'"
  shows "\<exists>l. k < l \<and> l < k' \<and> unat (i + of_nat l) mod n = unat (i + of_nat k) mod n"
proof -
  let ?a = "unat (i + of_nat k)"
  have id: "unat (i + of_nat (k + d)) = (?a + d) mod 256" for d
    using unat_add_of_nat_u8 [of "i + of_nat k" d] by (simp add: add.assoc)
  have a: "?a < 256" using unsigned_less [of "i + of_nat k", where 'a = nat] by simp
  have "(?a + (k' - k)) mod 256 = ?a mod 256" using id [of "k' - k"] assms(3,4) a by simp
  then have "256 dvd k' - k" using mod_eq_dvd_iff_nat [of ?a "?a + (k' - k)" 256] by simp
  then have "256 \<le> k' - k" using assms(3) by (intro dvd_imp_le) auto
  then have k': "k + 256 \<le> k'" using assms(3) by simp
  show ?thesis
  proof (cases "?a + n < 256")
    case True
    then have "unat (i + of_nat (k + n)) = ?a + n" using id [of n] by simp
    then show ?thesis using assms(1,2) k' by (intro exI [of _ "k + n"]) (simp del: of_nat_add)
  next
    case False
    then have "n \<le> ?a" using assms(2) by simp
    then have "?a + (256 - n) = 256 + (?a - n)" using assms(2) by simp
    moreover have "(256 + (?a - n)) mod 256 = ?a - n" using a by simp
    ultimately have "unat (i + of_nat (k + (256 - n))) = ?a - n" using id [of "256 - n"] by (simp only:)
    then show ?thesis
      using assms(1,2) k' \<open>n \<le> ?a\<close> by (intro exI [of _ "k + (256 - n)"])
        (simp add: le_mod_geq del: of_nat_add; linarith)
  qed
qed

text \<open>
  Which losses keep the blocks of a worker apart: between two blocks with the same id that both have
  a packet left, some block of the same worker has a packet left.
\<close>

definition separated :: "nat \<Rightarrow> block list \<Rightarrow> (nat \<times> 'pkt) list \<Rightarrow> bool" where
  "separated n blocks ys \<longleftrightarrow>
     (\<forall>k k'. k < k' \<longrightarrow> k' < length blocks \<longrightarrow> routed ys k \<noteq> [] \<longrightarrow> routed ys k' \<noteq> [] \<longrightarrow>
        block_id (blocks ! k) = block_id (blocks ! k') \<longrightarrow>
        (\<exists>l. k < l \<and> l < k' \<and> routed ys l \<noteq> [] \<and> block_route n (blocks ! l) = block_route n (blocks ! k)))"

text \<open>The blocks for which the packets that are left suffice.\<close>

definition recovered ::
  "('oti, 'plan, 'enc, 'pkt, 'dec) raptorq \<Rightarrow> 'oti \<Rightarrow> usize \<Rightarrow> block list \<Rightarrow> (nat \<times> 'pkt) list \<Rightarrow> block list" where
  "recovered R cfg bs blocks ys =
     map ((!) blocks) (filter (\<lambda>k. run_block R cfg bs (routed ys k) \<noteq> None) [0..<length blocks])"

lemma recovered_all:
  assumes "\<forall>k < length blocks. run_block R cfg bs (routed ys k) \<noteq> None"
  shows "recovered R cfg bs blocks ys = blocks"
proof -
  have "filter (\<lambda>k. run_block R cfg bs (routed ys k) \<noteq> None) [0..<length blocks] = [0..<length blocks]"
    using assms by (intro filter_True) simp
  then show ?thesis by (simp add: recovered_def map_nth)
qed

lemma separated_small:
  assumes "0 < bs" "0 < n" "n \<le> 128" "\<forall>k < length (cut_blocks bs i c). routed ys k \<noteq> []"
  shows "separated n (cut_blocks bs i c) ys"
proof -
  have ids: "block_id (cut_blocks bs i c ! k) = i + of_nat k" if "k < length (cut_blocks bs i c)" for k
    using that cut_blocks_nth [OF assms(1)] length_cut_blocks [OF assms(1)] by simp
  show ?thesis
    unfolding separated_def
  proof (intro allI impI)
    fix k k' assume k: "k < k'" "k' < length (cut_blocks bs i c)"
      "block_id (cut_blocks bs i c ! k) = block_id (cut_blocks bs i c ! k')"
    then obtain l where "k < l" "l < k'" "unat (i + of_nat l) mod n = unat (i + of_nat k) mod n"
      using same_id_between [OF assms(2,3), of k k' i] ids by auto
    then show "\<exists>l. k < l \<and> l < k' \<and> routed ys l \<noteq> [] \<and>
        block_route n (cut_blocks bs i c ! l) = block_route n (cut_blocks bs i c ! k)"
      using k ids assms(4) by (auto simp: block_route_def)
  qed
qed

text \<open>The packets that are left carry the ids of their blocks.\<close>

lemma surviving_ids:
  assumes "rq_packets R" "block_encoder_new R bs mps rep = Ok be" "\<forall>b \<in> set blocks. well_sized be b"
    and "labelled R be n blocks zs" "subseq ys zs"
  shows "z \<in> set ys \<Longrightarrow> fst z < length blocks \<and> snd z \<in> set (routed ys (fst z))"
    and "k < length blocks \<Longrightarrow> set (routed ys k) \<subseteq> set (block_packets R be (blocks ! k))"
    and "\<lbrakk>k < length blocks; p \<in> set (routed ys k)\<rbrakk> \<Longrightarrow> source_block_number R p = block_id (blocks ! k)"
proof -
  have lab: "\<And>z. z \<in> set zs \<Longrightarrow> fst z < length blocks"
      "\<And>k. k < length blocks \<Longrightarrow> routed zs k = block_packets R be (blocks ! k)"
    using assms(4) by (simp_all add: labelled_def)
  show mem: "z \<in> set ys \<Longrightarrow> fst z < length blocks \<and> snd z \<in> set (routed ys (fst z))" for z
    using lab(1) [of z] subseq_set [OF assms(5)] by (force simp: routed_def)
  show sub: "k < length blocks \<Longrightarrow> set (routed ys k) \<subseteq> set (block_packets R be (blocks ! k))" for k
    using subseq_set [OF subseq_filter [OF assms(5), of "\<lambda>z. fst z = k"]] lab(2) [of k, symmetric]
    by (auto simp: routed_def)
  show "\<lbrakk>k < length blocks; p \<in> set (routed ys k)\<rbrakk> \<Longrightarrow> source_block_number R p = block_id (blocks ! k)" for k p
    using block_packets_id [OF assms(1,2)] assms(3) sub [of k] nth_mem [of k blocks] by blast
qed

text \<open>What arrives at a worker: the packets left of its blocks, block by block.\<close>

lemma concat_nonempty: "concat (map f (filter (\<lambda>k. f k \<noteq> []) ks)) = concat (map f ks)"
  by (induction ks) auto

lemma surviving_split:
  assumes ids: "\<And>z. z \<in> set ys \<Longrightarrow> fst z < length blocks \<and> source_block_number R (snd z) = block_id (blocks ! fst z)"
    and zs: "labelled R be n blocks zs" "subseq ys zs" and n: "0 < n" "n dvd n'"
  shows "filter (\<lambda>p. packet_route R n' p = j) (map snd ys) =
    concat (map (routed ys) (filter (\<lambda>k. block_route n' (blocks ! k) = j) [0..<length blocks]))"
proof -
  let ?ks = "filter (\<lambda>k. block_route n' (blocks ! k) = j) [0..<length blocks]"
  let ?yj = "filter (\<lambda>z. block_route n' (blocks ! fst z) = j) ys"
  have "packet_route R n' (snd z) = block_route n' (blocks ! fst z)" if "z \<in> set ys" for z
    using ids [OF that] by (simp add: packet_route_def block_route_def)
  then have yj: "filter (\<lambda>p. packet_route R n' p = j) (map snd ys) = map snd ?yj"
    by (auto simp: filter_map comp_def intro!: arg_cong [where f = "map snd"] filter_cong)
  have "?yj = filter (\<lambda>z. block_route n' (blocks ! fst z) = j) (filter (\<lambda>z. block_route n (blocks ! fst z) = j mod n) ys)"
    using n(2) by (auto simp: block_route_def mod_mod_cancel intro!: filter_cong)
  moreover have "sorted (map fst (filter (\<lambda>z. block_route n (blocks ! fst z) = j mod n) ys))"
    using subseq_sorted [OF subseq_filter [OF zs(2)]] zs(1) n(1) by (simp add: labelled_def)
  ultimately have "sorted (map fst ?yj)" by (metis subseq_filter_left subseq_sorted)
  then have "?yj = concat (map (\<lambda>k. filter (\<lambda>z. fst z = k) ?yj) ?ks)"
    using ids by (intro sorted_split) (auto simp: sorted_wrt_filter)
  also have "map (\<lambda>k. filter (\<lambda>z. fst z = k) ?yj) ?ks = map (\<lambda>k. filter (\<lambda>z. fst z = k) ys) ?ks"
    by (auto intro!: filter_cong)
  finally have "map snd ?yj = map snd (concat (map (\<lambda>k. filter (\<lambda>z. fst z = k) ys) ?ks))" by (rule arg_cong)
  then show ?thesis by (simp add: yj map_concat comp_def routed_def [abs_def])
qed

text \<open>What the packets that are left of each worker's blocks decode to.\<close>

lemma surviving_blocks:
  assumes R: "rq_packets R" "rq_sound R" "block_encoder_new R bs mps rep = Ok be" "bs < 2 ^ 64"
    and sized: "\<forall>b \<in> set blocks. well_sized be b"
    and zs: "labelled R be n blocks zs" "subseq ys zs" and n: "0 < n" "n dvd n'"
    and apart: "separated n' blocks ys"
  shows "stream_blocks R (be_config be) bs (filter (\<lambda>p. packet_route R n' p = j) (map snd ys)) =
    map block_data (filter (\<lambda>b. block_route n' b = j) (recovered R (be_config be) bs blocks ys))"
proof -
  let ?P = "\<lambda>k. block_route n' (blocks ! k) = j \<and> routed ys k \<noteq> []"
  let ?ks = "filter ?P [0..<length blocks]" and ?run = "\<lambda>k. run_block R (be_config be) bs (routed ys k)"
  note ids = surviving_ids [OF R(1,3) sized zs]
  have "filter (\<lambda>p. packet_route R n' p = j) (map snd ys) =
      concat (map (routed ys) (filter (\<lambda>k. block_route n' (blocks ! k) = j) [0..<length blocks]))"
    using ids(1,3) by (intro surviving_split [OF _ zs n]) metis
  also have "\<dots> = concat (map (routed ys) ?ks)"
    by (subst concat_nonempty [symmetric]) (simp add: conj_commute)
  finally have split: "filter (\<lambda>p. packet_route R n' p = j) (map snd ys) = concat (map (routed ys) ?ks)" .
  have "distinct_adj (map (\<lambda>k. block_id (blocks ! k)) ?ks)"
    using apart by (intro distinct_adj_filter_upt) (auto simp: separated_def)
  moreover have "\<forall>k \<in> set ?ks. routed ys k \<noteq> [] \<and> (\<forall>p \<in> set (routed ys k). source_block_number R p = block_id (blocks ! k))"
    using ids(3) by auto
  ultimately have "runs (source_block_number R) (concat (map (routed ys) ?ks)) = map (routed ys) ?ks"
    by (rule runs_concat)
  then have "stream_blocks R (be_config be) bs (filter (\<lambda>p. packet_route R n' p = j) (map snd ys)) = List.map_filter ?run ?ks"
    unfolding stream_blocks_def split by (simp add: map_filter_def comp_def filter_map)
  moreover have "?run k = Some x \<Longrightarrow> k < length blocks \<Longrightarrow> ?P k \<Longrightarrow> x = block_data (blocks ! k)" for k x
    using run_block_sound [OF R(1-3) _ R(4)] ids(2) [of k] sized nth_mem [of k blocks] by blast
  then have "List.map_filter ?run ?ks = map (\<lambda>k. block_data (blocks ! k)) (filter (\<lambda>k. ?run k \<noteq> None) ?ks)"
    by (auto simp: map_filter_def intro!: map_cong)
  moreover have "filter (\<lambda>k. ?run k \<noteq> None) ?ks =
      filter (\<lambda>k. block_route n' (blocks ! k) = j) (filter (\<lambda>k. ?run k \<noteq> None) [0..<length blocks])"
    by (auto simp: run_block_def intro!: filter_cong)
  ultimately show ?thesis by (simp add: recovered_def filter_map comp_def)
qed

text \<open>The decoder reads back the packets that are on the wire.\<close>

lemma stream_packets_wire:
  assumes "rq_packets R" "rq_wire R" "block_encoder_new R bs mps rep = Ok be"
    and "\<forall>b \<in> set blocks. well_sized be b" "labelled R be n blocks zs" "subseq ys zs"
  shows "stream_packets R (unat (symbol_size R (be_config be)) + 4) (wire R ys) = map snd ys"
proof -
  have "length (pkt_serialize R (snd z)) = unat (symbol_size R (be_config be)) + 4" if z: "z \<in> set ys" for z
  proof -
    have "z \<in> set zs" using subseq_set [OF assms(6)] z by auto
    then have k: "fst z < length blocks" "snd z \<in> set (routed zs (fst z))"
      using assms(5) by (simp add: labelled_def, force simp: routed_def)
    then have "snd z \<in> set (block_packets R be (blocks ! fst z))" using assms(5) by (simp add: labelled_def)
    then show ?thesis using block_packets_wire [OF assms(1-3)] assms(4) k(1) nth_mem by blast
  qed
  then have "chunks (unat (symbol_size R (be_config be)) + 4) (wire R ys) = map (\<lambda>z. pkt_serialize R (snd z)) ys"
    unfolding wire_def by (intro chunks_concat) auto
  then show ?thesis using assms(2) by (simp add: stream_packets_def rq_wire_def comp_def)
qed

text \<open>What the workers of a decoder make of these packets.\<close>

lemma decoded_wire:
  assumes R: "rq_packets R" "rq_sound R" "rq_wire R" "block_encoder_new R bs mps rep = Ok be" "bs < 2 ^ 64"
    and zs: "labelled R be n (cut_blocks bs i c) zs" "subseq ys zs"
    and n: "0 < n" "n dvd n'" and apart: "separated n' (cut_blocks bs i c) ys"
  shows "stream_blocks R (with_defaults R (of_nat bs) mps) bs (filter (\<lambda>p. packet_route R n' p = j)
      (stream_packets R (unat (symbol_size R (be_config be)) + 4) (wire R ys))) =
    map block_data (filter (\<lambda>b. block_route n' b = j) (recovered R (be_config be) bs (cut_blocks bs i c) ys))"
proof -
  have sized: "\<forall>b \<in> set (cut_blocks bs i c). well_sized be b"
    using cut_blocks_sized block_encoder_new_Ok(1) [OF R(4)] by (auto simp: well_sized_def)
  show ?thesis
    using surviving_blocks [OF R(1,2,4,5) sized zs n apart] stream_packets_wire [OF R(1,3,4) sized zs]
      block_encoder_new_Ok(6) [OF R(4)] by simp
qed

lemma decoder_recovers:
  assumes R: "rq_packets R" "rq_sound R" "rq_wire R" "block_encoder_new R bs mps rep = Ok be" "bs < 2 ^ 64"
    and zs: "labelled R be n (cut_blocks bs i c) zs" "subseq ys zs"
    and n: "0 < n" "n dvd n'" "0 < n'" and apart: "separated n' (cut_blocks bs i c) ys"
    and start: "start_decoding R tid inp out (decoder_init bs n' mps) = (Ok s0, e)"
    and io: "flow codec_retry inp = wire R ys" "benign out"
    and run: "psteps (decoder_machine R n') ls s0 s" "all_ended s"
  shows "\<exists>received. merge_of n' (\<lambda>j. map block_data (filter (\<lambda>b. block_route n' b = j)
      (recovered R (be_config be) bs (cut_blocks bs i c) ys))) received \<and>
    written (forwarder s) = written out @ concat received"
proof -
  let ?k = "unat (symbol_size R (be_config be)) + 4"
  have inf: "infer_packet_size R bs mps = Ok ?k" using infer_packet_size_eq [OF R(1,3,4)] .
  obtain d where d: "block_decoder_new R bs mps = Ok d" "s0 = pinit (replicate ?k 0, inp) (replicate n' d) out"
    using start_decoding_Ok [OF start] n(3) inf by (metis outcome.inject(1))
  obtain received where "merge_of n' (\<lambda>j. stream_blocks R (with_defaults R (of_nat bs) mps) bs
       (filter (\<lambda>p. packet_route R n' p = j) (stream_packets R ?k (flow codec_retry inp)))) received"
      "written (forwarder s) = written out @ concat received"
    using decoder_threads_output [OF d(1) _ n(3) io(2) _ run(2)] run(1) unfolding d(2) by (metis add_gr_0 zero_less_numeral)
  then show ?thesis unfolding io(1) decoded_wire [OF R zs n(1,2) apart] by blast
qed

text \<open>
  What a decoder makes of what is left of the packets: whatever is lost, as long as the blocks of
  each worker stay apart.
\<close>

definition delivers ::
  "('oti, 'plan, 'enc, 'pkt, 'dec) raptorq \<Rightarrow> usize \<Rightarrow> u16 \<Rightarrow> 'oti \<Rightarrow> nat \<Rightarrow> block list \<Rightarrow>
   (nat \<times> 'pkt) list \<Rightarrow> bool" where
  "delivers R bs mps cfg n blocks zs \<longleftrightarrow>
     (\<forall>ys n' tid inp out s0 e ls s.
        subseq ys zs \<longrightarrow> n dvd n' \<longrightarrow> 0 < n' \<longrightarrow> separated n' blocks ys \<longrightarrow>
        start_decoding R tid inp out (decoder_init bs n' mps) = (Ok s0, e) \<longrightarrow>
        flow codec_retry inp = wire R ys \<longrightarrow> benign out \<longrightarrow>
        psteps (decoder_machine R n') ls s0 s \<longrightarrow> all_ended s \<longrightarrow>
        (\<exists>received. merge_of n' (\<lambda>j. map block_data (filter (\<lambda>b. block_route n' b = j)
              (recovered R cfg bs blocks ys))) received \<and>
           written (forwarder s) = written out @ concat received))"

lemma deliversD:
  assumes "delivers R bs mps cfg n blocks zs" "subseq ys zs" "n dvd n'" "0 < n'" "separated n' blocks ys"
    and "start_decoding R tid inp out (decoder_init bs n' mps) = (Ok s0, e)"
    and "flow codec_retry inp = wire R ys" "benign out" "psteps (decoder_machine R n') ls s0 s" "all_ended s"
  obtains received where "merge_of n' (\<lambda>j. map block_data (filter (\<lambda>b. block_route n' b = j)
      (recovered R cfg bs blocks ys))) received" "written (forwarder s) = written out @ concat received"
  using assms unfolding delivers_def by metis

lemma encoder_delivers:
  assumes "rq_packets R" "rq_sound R" "rq_wire R" "block_encoder_new R bs mps rep = Ok be" "bs < 2 ^ 64"
    and "labelled R be n (cut_blocks bs i c) zs" "0 < n"
  shows "delivers R bs mps (be_config be) n (cut_blocks bs i c) zs"
  unfolding delivers_def by (intro allI impI, rule decoder_recovers [OF assms(1-6) _ assms(7)])

lemma encoder_labelled_from:
  assumes "start_encoding R urandom tid inp out (encoder_new bs mps rep n) = (Ok s0, e)"
    and "0 < bs" "0 < n" "benign out"
    and "psteps (encoder_machine R n) ls s0 s" "all_ended s"
  obtains be i zs where "block_encoder_new R bs mps rep = Ok be" "get_random_u8 urandom = Ok i"
    "labelled R be n (cut_blocks bs i (flow codec_retry inp)) zs" "written (forwarder s) = written out @ wire R zs"
proof -
  obtain i be where i: "get_random_u8 urandom = Ok i" "block_encoder_new R bs mps rep = Ok be"
      "s0 = pinit (\<lparr>bdisp_block_size = bs, bdisp_block_id = i, bdisp_should_stop = Some (tid + 1 + n)\<rparr>, inp) (replicate n be) out"
    using start_encoding_Ok [OF assms(1)] assms(3) by metis
  obtain packets where p: "merge_of n (\<lambda>j. concat (map (block_packets R be)
       (filter (\<lambda>b. block_route n b = j) (cut_blocks bs i (flow codec_retry inp))))) packets"
      "written (forwarder s) = written out @ concat (map (pkt_serialize R) packets)"
    using encoder_threads_output [OF i(2) assms(2-4) _ assms(6)] assms(5) unfolding i(3) by metis
  obtain zs where "map snd zs = packets" "labelled R be n (cut_blocks bs i (flow codec_retry inp)) zs"
    using merge_labelled [OF p(1) assms(3)] by blast
  then show ?thesis using that i(1,2) p(2) by (auto simp: wire_def comp_def)
qed

lemma encoder_labelled:
  assumes "start_encoding R urandom tid inp out (encoder_new bs mps rep n) = (Ok s0, e)"
    and "0 < bs" "0 < n" "benign out" "written out = []"
    and "psteps (encoder_machine R n) ls s0 s" "all_ended s"
  obtains be i zs where "block_encoder_new R bs mps rep = Ok be" "get_random_u8 urandom = Ok i"
    "labelled R be n (cut_blocks bs i (flow codec_retry inp)) zs" "written (forwarder s) = wire R zs"
  using encoder_labelled_from [OF assms(1-4,6,7)] assms(5) by (metis append_Nil)

text \<open>All packets of a block are enough for it.\<close>

lemma all_packets_decode:
  assumes "rq_packets R" "rq_complete R" "block_encoder_new R bs mps rep = Ok be" "well_sized be b"
    and "0 < bs" "bs < 2 ^ 64" "bs div unat (symbol_size R (be_config be)) \<le> max_source_symbols"
  shows "run_block R (be_config be) bs (block_packets R be b) \<noteq> None"
proof -
  let ?enc = "with_encoding_plan R (block_id b) (be_config be) (block_data b) (be_encoding_plan be)"
  note new = block_encoder_new_Ok [OF assms(3)]
  have len: "length (block_data b) = bs" using assms(4) new(1) by (simp add: well_sized_def)
  have set: "set (block_packets R be b) = set (source_packets R ?enc) \<union> set (repair_packets R ?enc 0 rep)"
    using set_shuffles [OF block_packets_shuffles(1) [OF assms(1,3,4)]] by simp
  have "source_packets R ?enc \<noteq> []"
    using block_packets_shuffles(2) [OF assms(1,3,4)] new(3,4) assms(5) by (auto simp: dvd_div_eq_0_iff)
  then have "block_packets R be b \<noteq> []" using set by auto
  then have "source_block_number R (hd (block_packets R be b)) = block_id b"
    using block_packets_id [OF assms(1,3,4)] by simp
  then show ?thesis
    using assms(2,5-7) new(3,4) len set unfolding rq_complete_def run_block_def by (metis Un_upper1 length_greater_0_conv order_refl)
qed

lemma labelled_decodable:
  assumes "rq_packets R" "rq_complete R" "block_encoder_new R bs mps rep = Ok be" "0 < bs" "bs < 2 ^ 64"
    and "bs div unat (symbol_size R (with_defaults R (of_nat bs) mps)) \<le> max_source_symbols"
    and "labelled R be n (cut_blocks bs i c) zs"
  shows "\<forall>k < length (cut_blocks bs i c). run_block R (be_config be) bs (routed zs k) \<noteq> None"
proof (intro allI impI)
  fix k assume k: "k < length (cut_blocks bs i c)"
  then have "well_sized be (cut_blocks bs i c ! k)"
    using cut_blocks_sized [OF nth_mem [OF k]] block_encoder_new_Ok(1) [OF assms(3)] by (simp add: well_sized_def)
  then show "run_block R (be_config be) bs (routed zs k) \<noteq> None"
    using all_packets_decode [OF assms(1-3) _ assms(4,5)] assms(6,7) block_encoder_new_Ok(6) [OF assms(3)] k
    by (simp add: labelled_def)
qed

text \<open>Without losses the workers give back all blocks; one worker gives them back in order.\<close>

lemma decoded_all:
  assumes "rq_packets R" "rq_sound R" "rq_wire R" "rq_complete R" "block_encoder_new R bs mps rep = Ok be"
    and "0 < bs" "bs < 2 ^ 64" "bs div unat (symbol_size R (with_defaults R (of_nat bs) mps)) \<le> max_source_symbols"
    and "labelled R be n (cut_blocks bs i c) zs" "0 < n" "n \<le> 128"
    and "merge_of n (\<lambda>j. stream_blocks R (with_defaults R (of_nat bs) mps) bs (filter (\<lambda>p. packet_route R n p = j)
      (stream_packets R (unat (symbol_size R (be_config be)) + 4) (wire R zs)))) received"
  shows "merge_of n (\<lambda>j. map block_data (filter (\<lambda>b. block_route n b = j) (cut_blocks bs i c))) received"
proof -
  note dec = labelled_decodable [OF assms(1,4-9)]
  then have "\<forall>k < length (cut_blocks bs i c). routed zs k \<noteq> []" by (auto simp: run_block_def)
  then have "separated n (cut_blocks bs i c) zs" by (rule separated_small [OF assms(6,10,11)])
  from decoded_wire [OF assms(1-3,5,7,9) subseq_order.order_refl assms(10) dvd_refl this] assms(12)
  show ?thesis by (simp add: recovered_all [OF dec])
qed

lemma decoded_identity:
  assumes "0 < bs" "merge_of 1 (\<lambda>j. map block_data (filter (\<lambda>b. block_route 1 b = j) (cut_blocks bs i c))) received"
  shows "concat received = take (bs * (length c div bs)) c"
proof -
  have "received = map block_data (cut_blocks bs i c)" using assms(2) by (simp add: merge_of_one block_route_def)
  then show ?thesis using cut_blocks_data [OF assms(1)] by simp
qed

lemma decoder_identity:
  assumes "rq_packets R" "rq_sound R" "rq_wire R" "rq_complete R" "block_encoder_new R bs mps rep = Ok be"
    and "0 < bs" "bs < 2 ^ 64" "bs div unat (symbol_size R (with_defaults R (of_nat bs) mps)) \<le> max_source_symbols"
    and "labelled R be 1 (cut_blocks bs i c) zs"
    and "start_decoding R tid inp out (decoder_init bs 1 mps) = (Ok s0, e)"
    and "flow codec_retry inp = wire R zs" "benign out" "psteps (decoder_machine R 1) ls s0 s" "all_ended s"
  shows "written (forwarder s) = written out @ take (bs * (length c div bs)) c"
proof -
  let ?k = "unat (symbol_size R (be_config be)) + 4"
  have inf: "infer_packet_size R bs mps = Ok ?k" using infer_packet_size_eq [OF assms(1,3,5)] .
  obtain d where d: "block_decoder_new R bs mps = Ok d" "s0 = pinit (replicate ?k 0, inp) (replicate 1 d) out"
    using start_decoding_Ok [OF assms(10)] inf by (metis outcome.inject(1) zero_less_one)
  obtain received where "merge_of 1 (\<lambda>j. stream_blocks R (with_defaults R (of_nat bs) mps) bs
       (filter (\<lambda>p. packet_route R 1 p = j) (stream_packets R ?k (flow codec_retry inp)))) received"
      "written (forwarder s) = written out @ concat received"
    using decoder_threads_output [OF d(1) _ zero_less_one assms(12) _ assms(14)] assms(13) unfolding d(2)
    by (metis add_gr_0 zero_less_numeral)
  then show ?thesis
    using decoded_identity [OF assms(6) decoded_all [OF assms(1-9) zero_less_one]] unfolding assms(11) by simp
qed

text \<open>
  The bytes that arrive, and happenings during which nothing ends the reading: no empty read, no
  failure but those that are retried, and no \<open>stop\<close>.
\<close>

definition arrived :: "happening list \<Rightarrow> bytes" where
  "arrived es = concat (map (\<lambda>e. case e of Yields bs \<Rightarrow> bs | _ \<Rightarrow> []) es)"

definition goes_on :: "happening list \<Rightarrow> bool" where
  "goes_on es \<longleftrightarrow> list_all (\<lambda>e. case e of Yields bs \<Rightarrow> bs \<noteq> [] | Refused k \<Rightarrow> retryable k | Stops \<Rightarrow> False) es"

definition only_bytes :: "happening list \<Rightarrow> bool" where
  "only_bytes es \<longleftrightarrow> list_all (\<lambda>e. case e of Yields bs \<Rightarrow> bs \<noteq> [] | _ \<Rightarrow> False) es"

lemma flow_goes_on:
  "\<lbrakk>goes_on es; \<not> h a\<rbrakk> \<Longrightarrow> flow codec_retry (loads stop a h (es @ es')) = arrived es @ flow codec_retry (loads stop a h es')"
  by (induction es) (auto simp: goes_on_def arrived_def split: happening.splits)

lemma flow_only_bytes:
  "only_bytes es \<Longrightarrow> flow codec_retry (loads stop a h (es @ es')) = arrived es @ flow codec_retry (loads stop a h es')"
  by (induction es) (auto simp: only_bytes_def arrived_def split: happening.splits)

text \<open>A store of \<open>true\<close> at the reader's own flag ends the reading at the next failure.\<close>

lemma flow_stopped:
  assumes "goes_on pre" "only_bytes mid" "retryable k" "\<not> h a" "stop h a"
  shows "flow codec_retry (loads stop a h (pre @ Stops # mid @ Refused k # rest)) = arrived (pre @ mid)"
  using flow_goes_on [where h = h and a = a, OF assms(1,4)] flow_only_bytes [OF assms(2)] assms(3,5) by (simp add: arrived_def)

text \<open>The encoder and its dispatcher hold the same flag, and so do the decoder and its dispatcher.\<close>

lemma encoder_flag:
  assumes "start_encoding R urandom tid inp out (encoder_new bs mps rep n) = (Ok s0, e)" "dispatcher s0 = Inl (bd, inp')"
  shows "enc_should_stop e = bdisp_should_stop bd"
  by (rule start_encoding_Ok [OF assms(1)]) (use assms(2) in \<open>auto simp: pinit_def\<close>)

lemma encoder_stopped_input:
  assumes "start_encoding R urandom tid inp out (encoder_new bs mps rep n) = (Ok s0, e)" "dispatcher s0 = Inl (bd, inp')"
    and "goes_on pre" "only_bytes mid" "retryable k"
  shows "flow codec_retry (encoder_observes e bd h (pre @ Stops # mid @ Refused k # rest)) = arrived (pre @ mid)"
  unfolding encoder_observes_def
  by (rule flow_stopped [OF assms(3-5)]) (simp_all add: flag_new_def encoder_stop_def flag_store_def encoder_flag [OF assms(1,2)])

lemma decoder_stopped_input:
  assumes "start_decoding R tid inp out (decoder_init bs n mps) = (Ok s0, e)"
    and "goes_on pre" "only_bytes mid" "retryable k"
  shows "flow codec_retry (decoder_observes e h (pre @ Stops # mid @ Refused k # rest)) = arrived (pre @ mid)"
proof -
  have "dec_should_stop e = dec_packet_dispatcher e" by (rule start_decoding_Ok [OF assms(1)]) simp
  then show ?thesis
    unfolding decoder_observes_def
    by (intro flow_stopped [OF assms(2-4)]) (simp_all add: flag_new_def decoder_stop_def flag_store_def)
qed

text \<open>\<open>Decoder::stop\<close>: what its workers make of the packets that are complete by then, and nothing else.\<close>

lemma decoder_stop_drains:
  assumes "start_decoding R tid inp out (decoder_init bs n mps) = (Ok s0, e)" "infer_packet_size R bs mps = Ok m"
    and "inp = decoder_observes e h (pre @ Stops # mid @ Refused k # rest)"
    and "goes_on pre" "only_bytes mid" "retryable k" "0 < m" "0 < n" "benign out"
    and "psteps (decoder_machine R n) ls s0 s" "all_ended s"
  shows "\<exists>blocks. merge_of n (\<lambda>j. stream_blocks R (with_defaults R (of_nat bs) mps) bs
       (filter (\<lambda>p. packet_route R n p = j) (stream_packets R m (arrived (pre @ mid))))) blocks \<and>
    written (forwarder s) = written out @ concat blocks"
proof -
  obtain d where d: "block_decoder_new R bs mps = Ok d" "s0 = pinit (replicate m 0, inp) (replicate n d) out"
    using start_decoding_Ok [OF assms(1)] assms(2,8) by (metis outcome.inject(1))
  have "flow codec_retry inp = arrived (pre @ mid)"
    unfolding assms(3) by (rule decoder_stopped_input [OF assms(1,4-6)])
  then show ?thesis using decoder_threads_output [OF d(1) assms(7-9) _ assms(11)] assms(10) d(2) by metis
qed

text \<open>With more than 128 workers, the id 128 is the only one of its worker.\<close>

lemma mod_128: "\<lbrakk>i < 256; 128 < n; i mod n = 128\<rbrakk> \<Longrightarrow> i = (128 :: nat)"
proof (cases "i < n")
  case False
  assume i: "i < 256" "128 < n" "i mod n = 128"
  then have "i mod n = i - n" using False by (simp add: le_mod_geq)
  then show ?thesis using i by linarith
qed simp

lemma id_128:
  fixes x :: u8
  assumes "128 < n" "unat x mod n = 128"
  shows "x = 128"
proof -
  have "unat x < 256" using unsigned_less [of x, where 'a = nat] by simp
  from mod_128 [OF this assms] have "unat x = unat (128 :: u8)" by simp
  then show ?thesis by (simp only: word_unat_eq_iff)
qed

section \<open>Sessions with the same block id\<close>

text \<open>What a decoder needs of the rest of a run once it has the block: nothing.\<close>

lemma rq_feed_append: "rq_feed R d xs = Some b \<Longrightarrow> rq_feed R d (xs @ ys) = Some b"
  by (induction xs arbitrary: d) (auto split: prod.splits option.splits)

lemma run_block_append: "run_block R cfg bs xs = Some b \<Longrightarrow> run_block R cfg bs (xs @ ys) = Some b"
  using rq_feed_append [of R _ xs b ys] by (cases xs) (auto simp: run_block_def simp del: rq_feed.simps(2))

text \<open>A block all of whose packets arrive.\<close>

lemma whole_block:
  assumes "rq_packets R" "rq_sound R" "rq_complete R" "block_encoder_new R bs mps rep = Ok be"
    and "0 < bs" "bs < 2 ^ 64" "bs div unat (symbol_size R (be_config be)) \<le> max_source_symbols" "well_sized be b"
  shows "run_block R (be_config be) bs (block_packets R be b) = Some (block_data b)" "block_packets R be b \<noteq> []"
proof -
  have some: "run_block R (be_config be) bs (block_packets R be b) \<noteq> None"
    by (rule all_packets_decode [OF assms(1,3,4,8,5-7)])
  then show ne: "block_packets R be b \<noteq> []" by (auto simp: run_block_def)
  show "run_block R (be_config be) bs (block_packets R be b) = Some (block_data b)"
    using some run_block_sound [OF assms(1,2,4,8,6) ne order_refl] by auto
qed

lemma same_id_lost:
  assumes R: "rq_packets R" "rq_sound R" "rq_complete R" "block_encoder_new R bs mps rep = Ok be"
    and bs: "0 < bs" "bs < 2 ^ 64" "bs div unat (symbol_size R (be_config be)) \<le> max_source_symbols"
    and sized: "\<forall>b \<in> set (xs @ [x] @ [y] @ ys). well_sized be b"
    and ids: "distinct_adj (map block_id (xs @ [x]))" "distinct_adj (map block_id (y # ys))" "block_id x = block_id y"
  shows "stream_blocks R (be_config be) bs (concat (map (block_packets R be) (xs @ [x] @ [y] @ ys))) =
    map block_data (xs @ [x] @ ys)"
proof -
  let ?pk = "block_packets R be"
  let ?one = "map (\<lambda>b. (block_id b, ?pk b))"
  let ?rs = "?one xs @ [(block_id x, ?pk x @ ?pk y)] @ ?one ys"
  note whole = whole_block [OF R bs]
  have "map fst ?rs = map block_id (xs @ [x]) @ map block_id ys" by simp
  also have "distinct_adj \<dots>"
    using ids by (subst distinct_adj_append_iff) (auto simp: distinct_adj_Cons)
  finally have adj: "distinct_adj (map fst ?rs)" .
  have id: "\<forall>p \<in> set (?pk b). source_block_number R p = block_id b" if "b \<in> set (xs @ [x] @ [y] @ ys)" for b
    using block_packets_id [OF R(1,4)] sized that by blast
  have "\<forall>r \<in> set ?rs. snd r \<noteq> [] \<and> (\<forall>p \<in> set (snd r). source_block_number R p = fst r)"
    using id [of x] id [of y] id ids(3) whole(2) sized by auto
  from runs_concat [OF adj this]
  have "runs (source_block_number R) (concat (map ?pk (xs @ [x] @ [y] @ ys))) = map ?pk xs @ [?pk x @ ?pk y] @ map ?pk ys"
    by (simp add: comp_def)
  then have "stream_blocks R (be_config be) bs (concat (map ?pk (xs @ [x] @ [y] @ ys))) =
      List.map_filter (run_block R (be_config be) bs) (map ?pk xs @ [?pk x @ ?pk y] @ map ?pk ys)"
    by (simp add: stream_blocks_def)
  also have "\<dots> = map block_data (xs @ [x] @ ys)"
  proof -
    have "List.map_filter (run_block R (be_config be) bs) (map ?pk bl) = map block_data bl" if "\<forall>b \<in> set bl. well_sized be b" for bl
      using that whole(1) by (induction bl) (simp_all add: map_filter_simps)
    then show ?thesis using sized run_block_append [OF whole(1)] by (simp add: map_filter_simps map_filter_def)
  qed
  finally show ?thesis .
qed

lemma cut_ids: "0 < bs \<Longrightarrow> map block_id (cut_blocks bs i c) = map (\<lambda>k. i + of_nat k) [0..<length c div bs]"
  by (simp add: cut_blocks_eq)

lemma cut_ids_adj: "0 < bs \<Longrightarrow> distinct_adj (map block_id (cut_blocks bs i c))"
  by (simp add: cut_ids distinct_adj_conv_nth)

section \<open>Properties\<close>

text \<open>
  C3. From end to end, with losses. An encoder with \<open>n\<close> workers has run to its end, under any
  schedule. What it wrote is the wire form of packets that are labelled with their blocks such
  that: whichever packets get lost on the way, as long as the rest arrives in order, a decoder whose
  number of workers is a multiple of \<open>n\<close> writes, under any schedule, the data of exactly those
  blocks of which enough is left for the code, each once and unaltered, each worker its blocks in
  order; the other blocks are missing, and nothing else is written. What the decoder needs is that
  the losses keep blocks with the same 8-bit id apart: of a decoder with at most 128 workers they do
  when some packet of every block is left.
\<close>

theorem codec_end_to_end:
  fixes R :: "('oti, 'plan, 'enc, 'pkt, 'dec) raptorq"
  assumes "rq_packets R" "rq_sound R" "rq_wire R" "0 < bs" "bs < 2 ^ 64" "0 < n"
    and "start_encoding R urandom tid inp out (encoder_new bs mps rep n) = (Ok s0, e)"
    and "benign out" "written out = []" "psteps (encoder_machine R n) ls s0 s" "all_ended s"
  shows "\<exists>be i blocks zs. block_encoder_new R bs mps rep = Ok be \<and> get_random_u8 urandom = Ok i \<and>
    blocks = cut_blocks bs i (flow codec_retry inp) \<and>
    written (forwarder s) = wire R zs \<and> labelled R be n blocks zs \<and>
    delivers R bs mps (be_config be) n blocks zs \<and>
    (\<forall>(ys :: (nat \<times> 'pkt) list) n'.
       0 < n' \<longrightarrow> n' \<le> 128 \<longrightarrow> (\<forall>k < length blocks. routed ys k \<noteq> []) \<longrightarrow> separated n' blocks ys)"
proof -
  obtain be i zs where z: "block_encoder_new R bs mps rep = Ok be" "get_random_u8 urandom = Ok i"
      "labelled R be n (cut_blocks bs i (flow codec_retry inp)) zs" "written (forwarder s) = wire R zs"
    by (rule encoder_labelled [OF assms(7,4,6,8-11)])
  then show ?thesis
    using encoder_delivers [OF assms(1-3) z(1) assms(5) z(3) assms(6)] separated_small [OF assms(4)] by blast
qed

text \<open>The packets of one block, in the example.\<close>

lemma one_block:
  "cut_blocks 2 7 [1, 2, 3] = [\<lparr>block_id = 7, block_data = [1, 2]\<rparr>]"
  "block_packets rep_code rep_be \<lparr>block_id = 7, block_data = [1, 2]\<rparr> = [(7, 0, [1]), (7, 1, [2]), (7, 0, [1])]"
  "recovered rep_code 1 2 [\<lparr>block_id = 7, block_data = [1, 2]\<rparr>] [(0, (7, 0, [1])), (0, (7, 1, [2]))] =
     [\<lparr>block_id = 7, block_data = [1, 2]\<rparr>]"
  by code_simp+

lemma one_block_labels:
  assumes "labelled rep_code rep_be 1 [\<lparr>block_id = 7, block_data = [1, 2]\<rparr>] zs"
  shows "zs = [(0, (7, 0, [1])), (0, (7, 1, [2])), (0, (7, 0, [1]))]"
proof -
  have "\<forall>z \<in> set zs. fst z = 0" using assms by (auto simp: labelled_def)
  moreover from this have "map snd zs = [(7, 0, [1]), (7, 1, [2]), (7, 0, [1])]"
    using assms one_block(2) by (simp add: labelled_def routed_def)
  ultimately show ?thesis by (auto simp: map_eq_Cons_conv)
qed

theorem codec_end_to_end_witness:
  "\<exists>s0 e ls s s0' e' ls' s'.
     start_encoding rep_code (Inr [Bytes [7]]) 0 [Bytes [1, 2, 3]] \<lparr>writes = [], wscript = []\<rparr>
       (encoder_new 2 5 1 1) = (Ok s0, e) \<and> psteps (encoder_machine rep_code 1) ls s0 s \<and> all_ended s \<and>
     written (forwarder s) = [7, 0, 0, 0, 1, 7, 0, 0, 1, 2, 7, 0, 0, 0, 1] \<and>
     start_decoding rep_code 0 [Bytes [7, 0, 0, 0, 1, 7, 0, 0, 1, 2]] \<lparr>writes = [], wscript = []\<rparr>
       (decoder_init 2 1 5) = (Ok s0', e') \<and> psteps (decoder_machine rep_code 1) ls' s0' s' \<and>
     all_ended s' \<and> written (forwarder s') = [1, 2]"
proof -
  let ?out = "\<lparr>writes = [], wscript = []\<rparr> :: out_stream"
  let ?inp = "[Bytes [7, 0, 0, 0, 1, 7, 0, 0, 1, 2]]"
  let ?ys = "[(0, (7, 0, [1])), (0, (7, 1, [2]))] :: (nat \<times> rep_packet) list"
  obtain s0 e ls s where e: "start_encoding rep_code (Inr [Bytes [7]]) 0 [Bytes [1, 2, 3]] ?out (encoder_new 2 5 1 1) =
      (Ok s0, e)" and run: "psteps (encoder_machine rep_code 1) ls s0 s" "all_ended s"
    by (rule start_encoding_runs [OF rep_encoder random_byte, where n = 1]) simp
  have out: "benign ?out" "written ?out = []" by (simp_all add: benign_def written_def)
  have bd: "(0::nat) < 2" "(2::nat) < 2 ^ 64" "(0::nat) < 1" by simp_all
  obtain zs where w: "written (forwarder s) = wire rep_code zs"
      and lab: "labelled rep_code rep_be 1 [\<lparr>block_id = 7, block_data = [1, 2]\<rparr>] zs"
      and del: "delivers rep_code 2 5 1 1 [\<lparr>block_id = 7, block_data = [1, 2]\<rparr>] zs"
      and apart: "\<forall>(ys :: (nat \<times> rep_packet) list) n'. 0 < n' \<longrightarrow> n' \<le> 128 \<longrightarrow> routed ys 0 \<noteq> [] \<longrightarrow>
        separated n' [\<lparr>block_id = 7, block_data = [1, 2]\<rparr>] ys"
    using codec_end_to_end [OF rep_code_packets rep_code_sound rep_code_wire bd e out run] rep_encoder
    by (auto simp: one_block rep_be_def)
  have sep: "separated 1 [\<lparr>block_id = 7, block_data = [1, 2]\<rparr>] ?ys"
    by (rule apart [rule_format]) simp_all
  obtain d where d: "block_decoder_new rep_code 2 5 = Ok d" by (rule rep_decoder)
  obtain s0' e' ls' s' where e': "start_decoding rep_code 0 ?inp ?out (decoder_init 2 1 5) = (Ok s0', e')"
      and run': "psteps (decoder_machine rep_code 1) ls' s0' s'" "all_ended s'"
    by (rule start_decoding_runs [OF d rep_packet_size, where n = 1]) simp
  have fl: "flow codec_retry ?inp = wire rep_code ?ys" by code_simp
  have sub: "subseq ?ys zs" unfolding one_block_labels [OF lab] by simp
  obtain received where "merge_of 1 (\<lambda>j. map block_data (filter (\<lambda>b. block_route 1 b = j)
        (recovered rep_code 1 2 [\<lparr>block_id = 7, block_data = [1, 2]\<rparr>] ?ys))) received"
      "written (forwarder s') = written ?out @ concat received"
    by (rule deliversD [OF del sub one_dvd zero_less_one sep e' fl out(1) run'])
  then have "written (forwarder s') = [1, 2]"
    using out(2) by (simp add: merge_of_one block_route_def one_block)
  moreover have "wire rep_code zs = [7, 0, 0, 0, 1, 7, 0, 0, 1, 2, 7, 0, 0, 0, 1]"
    unfolding one_block_labels [OF lab] by code_simp
  ultimately show ?thesis using e run e' run' w by force
qed

text \<open>
  C4. From end to end, without losses, with one worker on each side: under any schedule, and
  however the reads and writes are split, the decoder writes exactly the bytes the encoder has
  read, up to an incomplete last block.
\<close>

theorem codec_identity:
  assumes "rq_packets R" "rq_sound R" "rq_wire R" "rq_complete R" "0 < bs" "bs < 2 ^ 64"
    and "bs div unat (symbol_size R (with_defaults R (of_nat bs) mps)) \<le> max_source_symbols"
    and "start_encoding R urandom tid inp out (encoder_new bs mps rep 1) = (Ok s0, e)"
    and "benign out" "written out = []" "psteps (encoder_machine R 1) ls s0 s" "all_ended s"
    and "start_decoding R tid' inp' out' (decoder_init bs 1 mps) = (Ok s0', e')"
    and "flow codec_retry inp' = written (forwarder s)" "benign out'"
    and "psteps (decoder_machine R 1) ls' s0' s'" "all_ended s'"
  shows "written (forwarder s') = written out' @
    take (bs * (length (flow codec_retry inp) div bs)) (flow codec_retry inp)"
proof -
  obtain be i zs where z: "block_encoder_new R bs mps rep = Ok be"
      "labelled R be 1 (cut_blocks bs i (flow codec_retry inp)) zs" "written (forwarder s) = wire R zs"
    by (rule encoder_labelled [OF assms(8,5) zero_less_one assms(9-12)])
  from assms(14) z(3) have "flow codec_retry inp' = wire R zs" by simp
  from decoder_identity [OF assms(1-4) z(1) assms(5-7) z(2) assms(13) this assms(15-17)] show ?thesis .
qed

theorem codec_identity_witness:
  "\<exists>s0 e ls s s0' e' ls' s'.
     start_encoding rep_code (Inr [Bytes [255]]) 0 [Bytes [1, 2, 3], Bytes [4, 5]] \<lparr>writes = [], wscript = []\<rparr>
       (encoder_new 2 5 1 1) = (Ok s0, e) \<and> psteps (encoder_machine rep_code 1) ls s0 s \<and> all_ended s \<and>
     start_decoding rep_code 0 [Bytes (written (forwarder s))] \<lparr>writes = [], wscript = []\<rparr>
       (decoder_init 2 1 5) = (Ok s0', e') \<and> psteps (decoder_machine rep_code 1) ls' s0' s' \<and>
     all_ended s' \<and> written (forwarder s') = [1, 2, 3, 4]"
proof -
  let ?out = "\<lparr>writes = [], wscript = []\<rparr> :: out_stream"
  let ?inp = "[Bytes [1, 2, 3], Bytes [4, 5]]"
  obtain s0 e ls s where e: "start_encoding rep_code (Inr [Bytes [255]]) 0 ?inp ?out (encoder_new 2 5 1 1) = (Ok s0, e)"
      and run: "psteps (encoder_machine rep_code 1) ls s0 s" "all_ended s"
    by (rule start_encoding_runs [OF rep_encoder random_byte, where n = 1]) simp
  let ?inp' = "[Bytes (written (forwarder s))]"
  obtain d where d: "block_decoder_new rep_code 2 5 = Ok d" by (rule rep_decoder)
  obtain s0' e' ls' s' where e': "start_decoding rep_code 0 ?inp' ?out (decoder_init 2 1 5) = (Ok s0', e')"
      and run': "psteps (decoder_machine rep_code 1) ls' s0' s'" "all_ended s'"
    by (rule start_decoding_runs [OF d rep_packet_size, where n = 1]) simp
  have out: "benign ?out" "written ?out = []" by (simp_all add: benign_def written_def)
  have fl: "flow codec_retry ?inp' = written (forwarder s)" by simp
  have bd: "(0::nat) < 2" "(2::nat) < 2 ^ 64" by simp_all
  have sy: "2 div unat (symbol_size rep_code (with_defaults rep_code (of_nat 2) 5)) \<le> max_source_symbols"
    by (simp add: rep_code_def max_source_symbols_def)
  have "written (forwarder s') = [1, 2, 3, 4]"
    using codec_identity [OF rep_code_packets rep_code_sound rep_code_wire rep_code_complete bd sy e out run
        e' fl out(1) run'] out(2) by simp
  then show ?thesis using e run e' run' by blast
qed

text \<open>
  C34. More than 128 workers do not work: the worker in charge of the block id 128 is then in
  charge of no other, so all packets it ever receives are one run, and of all the blocks that
  are sent under this id, however many, it decodes at most one.
\<close>

theorem many_workers_lose_blocks:
  assumes "block_decoder_new R bs mps = Ok d" "128 < n"
  shows "length (sent (snd (decode_stream R d
      (filter (\<lambda>p. unat (source_block_number R p) mod n = 128) packets) \<lparr>sent = [], hangup = None\<rparr>))) \<le> 1"
proof -
  let ?ps = "filter (\<lambda>p. unat (source_block_number R p) mod n = 128) packets"
  have "source_block_number R p = 128" if "p \<in> set ?ps" for p
    using that id_128 [OF assms(2)] by auto
  then have "length (runs (source_block_number R) ?ps) \<le> 1" by (intro runs_constant) blast
  then have "length (stream_blocks R (bd_config d) bs ?ps) \<le> 1"
    unfolding stream_blocks_def by (rule order_trans [OF length_map_filter_le])
  then show ?thesis
    using block_decoder_new_Ok [OF assms(1)] decode_seq_blocks [of ?ps d R]
    by (simp add: decode_stream_seq deliver_def)
qed

theorem many_workers_lose_blocks_witness:
  "\<exists>d. block_decoder_new rep_code 1 5 = Ok d \<and>
     length (sent (snd (decode_stream rep_code d
       (filter (\<lambda>p. unat (source_block_number rep_code p) mod 129 = 128)
          [(128, 0, [1]), (129, 0, [2]), (128, 0, [3]), (128, 0, [4])]) \<lparr>sent = [], hangup = None\<rparr>))) \<le> 1"
proof -
  obtain d where d: "block_decoder_new rep_code 1 5 = Ok d"
    by (simp add: block_decoder_new_def get_configuration_def rep_code_def)
  have "(128::nat) < 129" by simp
  from many_workers_lose_blocks [OF d this] d show ?thesis by blast
qed

text \<open>
  C32. \<open>stop\<close>, called on a running encoder, takes effect at the first read after it that fails with
  an interrupt or a timeout: the dispatcher loads the flag that \<open>stop\<close> has set, the blocks that are
  complete by then are encoded and written by the time all threads have ended, and nothing of what
  comes later is. Until then no failure of that kind ends the input, whatever was stored in the flag
  before the start.
\<close>

theorem encoder_stop_drains:
  assumes "start_encoding R urandom tid inp out (encoder_new bs mps rep n) = (Ok s0, e)" "dispatcher s0 = Inl (bd, inp)"
    and "inp = encoder_observes e bd h (pre @ Stops # mid @ Refused k # rest)"
    and "goes_on pre" "only_bytes mid" "retryable k" "0 < bs" "0 < n" "benign out"
    and "psteps (encoder_machine R n) ls s0 s" "all_ended s"
  shows "\<exists>be i zs. block_encoder_new R bs mps rep = Ok be \<and> get_random_u8 urandom = Ok i \<and>
    labelled R be n (cut_blocks bs i (arrived (pre @ mid))) zs \<and> written (forwarder s) = written out @ wire R zs"
proof -
  obtain be i zs where "block_encoder_new R bs mps rep = Ok be" "get_random_u8 urandom = Ok i"
      "labelled R be n (cut_blocks bs i (flow codec_retry inp)) zs" "written (forwarder s) = written out @ wire R zs"
    by (rule encoder_labelled_from [OF assms(1,7-11)])
  then show ?thesis
    using encoder_stopped_input [OF assms(1,2,4-6), of h rest] assms(3) by auto
qed

theorem encoder_stop_drains_witness:
  "\<exists>s0 e bd ls s zs. start_encoding rep_code (Inr [Bytes [7]]) 0 (encoder_observes e bd (\<lambda>_. True)
         [Yields [1], Refused TimedOut, Yields [2, 3], Stops, Yields [4, 5], Refused TimedOut, Yields [6]])
       \<lparr>writes = [], wscript = []\<rparr> (encoder_new 2 5 1 1) = (Ok s0, e) \<and>
     psteps (encoder_machine rep_code 1) ls s0 s \<and> all_ended s \<and> written (forwarder s) = wire rep_code zs \<and>
     labelled rep_code rep_be 1 [\<lparr>block_id = 7, block_data = [1, 2]\<rparr>, \<lparr>block_id = 8, block_data = [3, 4]\<rparr>] zs"
proof -
  let ?out = "\<lparr>writes = [], wscript = []\<rparr> :: out_stream"
  let ?es = "[Yields [1], Refused TimedOut, Yields [2, 3]] @ Stops # [Yields [4, 5]] @ Refused TimedOut # [Yields [6]]"
  let ?inp = "[Bytes [1], Fails TimedOut False, Bytes [2, 3], Bytes [4, 5], Fails TimedOut True, Bytes [6]]"
  obtain s0 e ls s where e: "start_encoding rep_code (Inr [Bytes [7]]) 0 ?inp ?out (encoder_new 2 5 1 1) = (Ok s0, e)"
      and run: "psteps (encoder_machine rep_code 1) ls s0 s" "all_ended s"
    by (rule start_encoding_runs [OF rep_encoder random_byte, where n = 1]) simp
  obtain i bes where "s0 = pinit (\<lparr>bdisp_block_size = 2, bdisp_block_id = i, bdisp_should_stop = Some (0 + 1 + 1)\<rparr>, ?inp) bes ?out"
    using start_encoding_Ok [OF e] by metis
  then obtain bd where bd: "dispatcher s0 = Inl (bd, ?inp)" by (simp add: pinit_def)
  have seen: "?inp = encoder_observes e bd (\<lambda>_. True) ?es"
    by (simp add: encoder_observes_def encoder_stop_def flag_new_def flag_store_def encoder_flag [OF e bd])
  have h: "goes_on [Yields [1], Refused TimedOut, Yields [2, 3]]" "only_bytes [Yields [4, 5]]" "retryable TimedOut"
      "(0 :: nat) < 2" "(0 :: nat) < 1" "benign ?out"
    by (simp_all add: goes_on_def only_bytes_def retryable_def benign_def)
  have "cut_blocks 2 7 (arrived ([Yields [1], Refused TimedOut, Yields [2, 3]] @ [Yields [4, 5]])) =
      [\<lparr>block_id = 7, block_data = [1, 2]\<rparr>, \<lparr>block_id = 8, block_data = [3, 4]\<rparr>]" by code_simp
  then obtain zs where "written (forwarder s) = wire rep_code zs"
      "labelled rep_code rep_be 1 [\<lparr>block_id = 7, block_data = [1, 2]\<rparr>, \<lparr>block_id = 8, block_data = [3, 4]\<rparr>] zs"
    using encoder_stop_drains [OF e bd seen h run] rep_encoder random_byte by (auto simp: written_def)
  then show ?thesis using e [unfolded seen] run by auto
qed

text \<open>
  C33. The sessions of an encoder start with random block ids, and a decoder knows a block by its id
  alone: when the packets of a second session follow those of a first one and its first id happens
  to be the last id of the first, the first block of the second session is taken for a repetition.
  All of its packets arrive and it is lost, alone.
\<close>

theorem session_restart_loses_block:
  assumes "rq_packets R" "rq_sound R" "rq_complete R"
    and "block_encoder_new R bs mps rep = Ok be" "block_decoder_new R bs mps = Ok d" "0 < bs" "bs < 2 ^ 64"
    and "bs div unat (symbol_size R (with_defaults R (of_nat bs) mps)) \<le> max_source_symbols"
    and "bs \<le> length c1" "bs \<le> length c2" "j = i + of_nat (length c1 div bs - 1)"
  shows "decode_stream R d
      (sent (snd (encode_stream R be (cut_blocks bs i c1) \<lparr>sent = [], hangup = None\<rparr>)) @
       sent (snd (encode_stream R be (cut_blocks bs j c2) \<lparr>sent = [], hangup = None\<rparr>))) \<lparr>sent = [], hangup = None\<rparr> =
    (Ok (), \<lparr>sent = map block_data (cut_blocks bs i c1 @ tl (cut_blocks bs j c2)), hangup = None\<rparr>)"
proof -
  let ?B = "cut_blocks bs i c1" and ?C = "cut_blocks bs j c2"
  have sized: "\<forall>b \<in> set ?B \<union> set ?C. well_sized be b"
    using cut_blocks_sized block_encoder_new_Ok(1) [OF assms(4)] by (auto simp: well_sized_def)
  then have all: "takeWhile (well_sized be) ?B = ?B" "takeWhile (well_sized be) ?C = ?C" by simp_all
  have "0 < length ?B" "0 < length ?C"
    using assms(6,9,10) by (simp_all add: length_cut_blocks div_greater_zero_iff)
  then have ne: "?B \<noteq> []" "?C \<noteq> []" by auto
  then obtain xs x y ys where split: "?B = xs @ [x]" "?C = y # ys" by (metis append_butlast_last_id neq_Nil_conv)
  have "block_id (last ?B) = block_id (hd ?C)"
    using ne assms(6,9-11) by (simp add: last_conv_nth hd_conv_nth cut_blocks_nth length_cut_blocks div_greater_zero_iff)
  then have "stream_blocks R (be_config be) bs (concat (map (block_packets R be) (?B @ ?C))) = map block_data (?B @ tl ?C)"
    using same_id_lost [OF assms(1-4,6,7), of xs x y ys] sized cut_ids_adj [OF assms(6), of i c1] cut_ids_adj [OF assms(6), of j c2]
      assms(8) block_encoder_new_Ok(6) [OF assms(4)] by (simp add: split)
  moreover have "sent (snd (encode_stream R be ?B \<lparr>sent = [], hangup = None\<rparr>)) @ sent (snd (encode_stream R be ?C \<lparr>sent = [], hangup = None\<rparr>)) =
      concat (map (block_packets R be) (?B @ ?C))"
    by (simp add: encode_stream_eq all deliver_def Let_def)
  ultimately show ?thesis
    using decode_seq_blocks [of _ d R] block_decoder_new_Ok [OF assms(5)] block_encoder_new_Ok(6) [OF assms(4)]
    by (simp add: decode_stream_seq first_refused_def deliver_def)
qed

theorem session_restart_loses_block_witness:
  "\<exists>d. block_decoder_new rep_code 2 5 = Ok d \<and>
     decode_stream rep_code d
       (sent (snd (encode_stream rep_code rep_be (cut_blocks 2 7 [1, 2, 3, 4]) \<lparr>sent = [], hangup = None\<rparr>)) @
        sent (snd (encode_stream rep_code rep_be (cut_blocks 2 8 [5, 6, 7, 8]) \<lparr>sent = [], hangup = None\<rparr>)))
       \<lparr>sent = [], hangup = None\<rparr> = (Ok (), \<lparr>sent = [[1, 2], [3, 4], [7, 8]], hangup = None\<rparr>)"
proof -
  obtain d where d: "block_decoder_new rep_code 2 5 = Ok d" by (rule rep_decoder)
  have nums: "(0 :: nat) < 2" "(2 :: nat) < 2 ^ 64" "2 \<le> length [1, 2, 3, 4 :: byte]" "2 \<le> length [5, 6, 7, 8 :: byte]"
    "(8 :: u8) = 7 + of_nat (length [1, 2, 3, 4 :: byte] div 2 - 1)" by simp_all
  have sy: "2 div unat (symbol_size rep_code (with_defaults rep_code (of_nat 2) 5)) \<le> max_source_symbols"
    by (simp add: rep_code_def max_source_symbols_def)
  have "map block_data (cut_blocks 2 7 [1, 2, 3, 4] @ tl (cut_blocks 2 8 [5, 6, 7, 8])) = [[1, 2], [3, 4], [7, 8]]" by code_simp
  with session_restart_loses_block [OF rep_code_packets rep_code_sound rep_code_complete rep_encoder d nums(1,2) sy nums(3-5)] d
  show ?thesis by auto
qed

end
