(* ===== verification/Utf8.thy ===== *)
theory Utf8
  imports Garuda_Prelude
begin

text \<open>
  Rust's \<open>str\<close>. A string is its bytes (\<open>len\<close>, \<open>is_char_boundary\<close> and slicing count bytes),
  and the bytes are well-formed UTF-8. This theory models the parts of the standard library
  that \<open>string.rs\<close> and \<open>protocol.rs\<close> of \<open>garuda-file-transfer\<close> use (\<open>str::from_utf8\<close>,
  \<open>chars\<close>, \<open>collect\<close> into a \<open>String\<close>, \<open>char::is_whitespace\<close>, \<open>is_char_boundary\<close>), and then
  the function \<open>truncate_utf8\<close> of \<open>string.rs\<close>.

  A \<open>char\<close> is a Unicode scalar value, an integer here.
\<close>

section \<open>Characters and their encoding\<close>

type_synonym rchar = int
type_synonym str = bytes

definition is_scalar :: "rchar \<Rightarrow> bool" where
  "is_scalar c \<longleftrightarrow> (0 \<le> c \<and> c < 0xD800) \<or> (0xDFFF < c \<and> c < 0x110000)"

definition byte_of :: "int \<Rightarrow> byte" where
  "byte_of i = word_of_int i"

text \<open>The lowest six bits of a value, and the value without them.\<close>

definition low6 :: "int \<Rightarrow> int" where
  "low6 c = c mod 64"

definition shr6 :: "int \<Rightarrow> int" where
  "shr6 c = c div 64"

definition encode_char :: "rchar \<Rightarrow> bytes" where
  "encode_char c =
     (if c < 0x80 then [byte_of c]
      else if c < 0x800 then [byte_of (0xC0 + shr6 c), byte_of (0x80 + low6 c)]
      else if c < 0x10000 then
        [byte_of (0xE0 + shr6 (shr6 c)), byte_of (0x80 + low6 (shr6 c)), byte_of (0x80 + low6 c)]
      else
        [byte_of (0xF0 + shr6 (shr6 (shr6 c))), byte_of (0x80 + low6 (shr6 (shr6 c))),
         byte_of (0x80 + low6 (shr6 c)), byte_of (0x80 + low6 c)])"

definition encode_utf8 :: "rchar list \<Rightarrow> str" where
  "encode_utf8 cs = concat (map encode_char cs)"

text \<open>A continuation byte is one of \<open>0x80\<close> to \<open>0xBF\<close>.\<close>

definition is_cont :: "byte \<Rightarrow> bool" where
  "is_cont b \<longleftrightarrow> 0x80 \<le> uint b \<and> uint b \<le> 0xBF"

text \<open>A character value with the six bits of one more continuation byte appended.\<close>

definition acc_cont :: "int \<Rightarrow> byte \<Rightarrow> int" where
  "acc_cont ch b = ch * 64 + (uint b - 0x80)"

text \<open>
  Validation and decoding in one pass: \<open>None\<close> where \<open>str::from_utf8\<close> fails. The ranges of
  the second byte exclude overlong forms, surrogates and values beyond \<open>0x10FFFF\<close>.
\<close>

fun utf8_chars :: "bytes \<Rightarrow> rchar list option" where
  "utf8_chars [] = Some []"
| "utf8_chars (b # bs) =
     (let x = uint b in
      if x < 0x80 then map_option ((#) x) (utf8_chars bs)
      else if 0xC2 \<le> x \<and> x \<le> 0xDF then
        (case bs of
           b1 # r \<Rightarrow>
             if is_cont b1
             then map_option ((#) (acc_cont (x - 0xC0) b1)) (utf8_chars r)
             else None
         | _ \<Rightarrow> None)
      else if 0xE0 \<le> x \<and> x \<le> 0xEF then
        (case bs of
           b1 # b2 # r \<Rightarrow>
             if is_cont b1 \<and> is_cont b2 \<and>
                (x = 0xE0 \<longrightarrow> 0xA0 \<le> uint b1) \<and> (x = 0xED \<longrightarrow> uint b1 \<le> 0x9F)
             then map_option ((#) (acc_cont (acc_cont (x - 0xE0) b1) b2))
                    (utf8_chars r)
             else None
         | _ \<Rightarrow> None)
      else if 0xF0 \<le> x \<and> x \<le> 0xF4 then
        (case bs of
           b1 # b2 # b3 # r \<Rightarrow>
             if is_cont b1 \<and> is_cont b2 \<and> is_cont b3 \<and>
                (x = 0xF0 \<longrightarrow> 0x90 \<le> uint b1) \<and> (x = 0xF4 \<longrightarrow> uint b1 \<le> 0x8F)
             then map_option ((#) (acc_cont (acc_cont (acc_cont (x - 0xF0) b1) b2) b3))
                    (utf8_chars r)
             else None
         | _ \<Rightarrow> None)
      else None)"

definition valid_utf8 :: "bytes \<Rightarrow> bool" where
  "valid_utf8 s \<longleftrightarrow> utf8_chars s \<noteq> None"

text \<open>\<open>s.chars()\<close>, for a well-formed string.\<close>

definition str_chars :: "str \<Rightarrow> rchar list" where
  "str_chars s = (case utf8_chars s of Some cs \<Rightarrow> cs | None \<Rightarrow> [])"

text \<open>\<open>char::is_whitespace\<close>: the Unicode property \<open>White_Space\<close>.\<close>

definition is_whitespace :: "rchar \<Rightarrow> bool" where
  "is_whitespace c \<longleftrightarrow>
     (0x9 \<le> c \<and> c \<le> 0xD) \<or> c = 0x20 \<or> c = 0x85 \<or> c = 0xA0 \<or> c = 0x1680 \<or>
     (0x2000 \<le> c \<and> c \<le> 0x200A) \<or> c = 0x2028 \<or> c = 0x2029 \<or> c = 0x202F \<or> c = 0x205F \<or>
     c = 0x3000"

text \<open>\<open>s.is_char_boundary(i)\<close>: byte 0, the end, or a byte that starts a character.\<close>

definition is_char_boundary :: "str \<Rightarrow> usize \<Rightarrow> bool" where
  "is_char_boundary s i \<longleftrightarrow>
     i = 0 \<or> (if i < length s then \<not> is_cont (s ! i) else i = length s)"

text \<open>\<open>&s[..end]\<close>, which panics unless \<open>end\<close> is a boundary.\<close>

definition str_slice_to :: "str \<Rightarrow> usize \<Rightarrow> str or_panic" where
  "str_slice_to s e = (if is_char_boundary s e then Ok (take e s) else Panic)"

section \<open>\<open>truncate_utf8\<close>\<close>

text \<open>The loop: move backward until a boundary is hit.\<close>

fun truncate_end :: "str \<Rightarrow> usize \<Rightarrow> usize" where
  "truncate_end s 0 = (if is_char_boundary s 0 then 0 else usize_sub 0 1)"
| "truncate_end s (Suc e) = (if is_char_boundary s (Suc e) then Suc e else truncate_end s e)"

definition truncate_utf8 :: "str \<Rightarrow> usize \<Rightarrow> str or_panic" where
  "truncate_utf8 s max_bytes =
     (if length s \<le> max_bytes then Ok s else str_slice_to s (truncate_end s max_bytes))"

section \<open>Decoding inverts encoding\<close>

lemma uint_byte_of [simp]: "0 \<le> i \<Longrightarrow> i < 256 \<Longrightarrow> uint (byte_of i) = i"
  by (simp add: byte_of_def uint_word_of_int)

lemma byte_of_uint [simp]: "byte_of (uint b) = b"
  by (simp add: byte_of_def)

lemma uint_byte_bounds: "0 \<le> uint (b :: byte)" "uint (b :: byte) < 256"
  using uint_lt2p [of b] by simp_all

lemma low6_bounds: "0 \<le> low6 c" "low6 c < 64"
  by (simp_all add: low6_def)

lemma shr6_bounds:
  "64 * a \<le> x \<Longrightarrow> a \<le> shr6 x" "x < 64 * a \<Longrightarrow> shr6 x < a"
  "64 * q + a \<le> x \<Longrightarrow> shr6 x = q \<longrightarrow> a \<le> low6 x"
  "x \<le> 64 * q + a \<Longrightarrow> shr6 x = q \<longrightarrow> low6 x \<le> a"
proof -
  have "x = 64 * shr6 x + low6 x" by (simp add: shr6_def low6_def)
  then show "64 * a \<le> x \<Longrightarrow> a \<le> shr6 x" "x < 64 * a \<Longrightarrow> shr6 x < a"
    "64 * q + a \<le> x \<Longrightarrow> shr6 x = q \<longrightarrow> a \<le> low6 x"
    "x \<le> 64 * q + a \<Longrightarrow> shr6 x = q \<longrightarrow> low6 x \<le> a"
    using low6_bounds [of x] by linarith+
qed

lemma cont_byte [simp]:
  "is_cont (byte_of (0x80 + low6 c))" "uint (byte_of (0x80 + low6 c)) = 0x80 + low6 c"
  "acc_cont (shr6 c) (byte_of (0x80 + low6 c)) = c"
proof -
  show uint: "uint (byte_of (0x80 + low6 c)) = 0x80 + low6 c"
    using low6_bounds [of c] by simp
  then show "is_cont (byte_of (0x80 + low6 c))"
    using low6_bounds [of c] by (simp add: is_cont_def)
  show "acc_cont (shr6 c) (byte_of (0x80 + low6 c)) = c"
    using uint by (simp add: acc_cont_def shr6_def low6_def)
qed

lemma acc_cont_inverse [simp]:
  assumes "is_cont b"
  shows "shr6 (acc_cont q b) = q" "low6 (acc_cont q b) = uint b - 0x80"
proof -
  have "0 \<le> uint b - 0x80" "uint b - 0x80 < 64" using assms by (simp_all add: is_cont_def)
  then show "shr6 (acc_cont q b) = q" "low6 (acc_cont q b) = uint b - 0x80"
    by (simp_all only: acc_cont_def shr6_def low6_def) auto
qed

text \<open>The four widths, with the bounds of the leading digit.\<close>

lemma scalar_cases:
  assumes "is_scalar c"
  obtains (one) "0 \<le> c" "c < 0x80"
  | (two) "0x80 \<le> c" "c < 0x800" "2 \<le> shr6 c" "shr6 c < 32"
  | (three) "0x800 \<le> c" "c < 0x10000" "0 \<le> shr6 (shr6 c)" "shr6 (shr6 c) < 16"
      "shr6 (shr6 c) = 0 \<longrightarrow> 32 \<le> low6 (shr6 c)" "shr6 (shr6 c) = 13 \<longrightarrow> low6 (shr6 c) \<le> 31"
  | (four) "0x10000 \<le> c" "0 \<le> shr6 (shr6 (shr6 c))" "shr6 (shr6 (shr6 c)) < 5"
      "shr6 (shr6 (shr6 c)) = 0 \<longrightarrow> 16 \<le> low6 (shr6 (shr6 c))"
      "shr6 (shr6 (shr6 c)) = 4 \<longrightarrow> low6 (shr6 (shr6 c)) \<le> 15"
proof -
  have r: "0 \<le> c" "c < 0x110000" using assms by (auto simp: is_scalar_def)
  consider "c < 0x80" | "0x80 \<le> c" "c < 0x800" | "0x800 \<le> c" "c < 0x10000" | "0x10000 \<le> c"
    by linarith
  then show thesis
  proof cases
    case 2
    then show thesis by (intro two shr6_bounds) auto
  next
    case 3
    have q: "32 \<le> shr6 c" "shr6 c < 1024" using 3 by (auto intro: shr6_bounds)
    have "shr6 c < 864 \<or> 896 \<le> shr6 c"
      using assms shr6_bounds(1) [of 896 c] shr6_bounds(2) [of c 864] by (auto simp: is_scalar_def)
    then have "shr6 (shr6 c) = 13 \<longrightarrow> low6 (shr6 c) \<le> 31"
      using shr6_bounds(4) [of "shr6 c" 13 31] shr6_bounds(1) [of 14 "shr6 c"] by auto
    with 3 q show thesis
      using shr6_bounds(1) [of 0 "shr6 c"] shr6_bounds(2) [of "shr6 c" 16]
        shr6_bounds(3) [of 0 32 "shr6 c"] by (intro three) auto
  next
    case 4
    have "1024 \<le> shr6 c" "shr6 c < 17408" using 4 r by (auto intro: shr6_bounds)
    then have "16 \<le> shr6 (shr6 c)" "shr6 (shr6 c) < 272" by (auto intro: shr6_bounds)
    with 4 show thesis
      using shr6_bounds(1) [of 0 "shr6 (shr6 c)"] shr6_bounds(2) [of "shr6 (shr6 c)" 5]
        shr6_bounds(3) [of 0 16 "shr6 (shr6 c)"] shr6_bounds(4) [of "shr6 (shr6 c)" 4 15]
      by (intro four) auto
  qed (use r in \<open>auto intro: one\<close>)
qed

text \<open>A byte of the ASCII range occurs in the encoding of its own character only.\<close>

lemma ascii_in_char:
  assumes "is_scalar c" "0 \<le> a" "a < 128"
  shows "byte_of a \<in> set (encode_char c) \<longleftrightarrow> c = a"
proof -
  have eq: "byte_of i = byte_of a \<longleftrightarrow> i = a" if "0 \<le> i" "i < 256" for i
    using uint_byte_of [OF that] uint_byte_of [of a] assms(2,3) by auto
  have cont: "byte_of a \<noteq> byte_of (0x80 + low6 d)" for d
    using eq [of "0x80 + low6 d"] low6_bounds [of d] assms(3) by auto
  show ?thesis
  proof (cases "c < 0x80")
    case True
    then have "encode_char c = [byte_of c]" by (simp add: encode_char_def)
    then show ?thesis using eq [of c] True assms(1) by (auto simp: is_scalar_def)
  next
    case False
    then have "byte_of a \<notin> set (encode_char c)"
      using assms(2,3) by (cases rule: scalar_cases [OF assms(1)]) (auto simp: encode_char_def cont eq [symmetric] dest: sym dest!: eq [THEN iffD1, rotated 2])
    then show ?thesis using False assms(3) by auto
  qed
qed

lemma utf8_chars_encode_char:
  assumes "is_scalar c"
  shows "utf8_chars (encode_char c @ bs) = map_option ((#) c) (utf8_chars bs)"
  using assms by (cases rule: scalar_cases) (simp_all add: encode_char_def)

lemma utf8_chars_encode: "list_all is_scalar cs \<Longrightarrow> utf8_chars (encode_utf8 cs) = Some cs"
  by (induction cs) (simp_all add: encode_utf8_def utf8_chars_encode_char)

lemma encode_char_1:
  assumes "uint b < 0x80"
  shows "encode_char (uint b) = [b] \<and> is_scalar (uint b)"
  using assms by (simp add: encode_char_def is_scalar_def)

lemma encode_char_2:
  assumes "0xC2 \<le> uint b" "uint b \<le> 0xDF" "is_cont b1" "c = acc_cont (uint b - 0xC0) b1"
  shows "encode_char c = [b, b1] \<and> is_scalar c"
proof -
  have "0x80 \<le> c" "c < 0x800" using assms by (simp_all add: is_cont_def acc_cont_def)
  then show ?thesis using assms(3,4) by (simp add: encode_char_def is_scalar_def)
qed

lemma encode_char_3:
  assumes "0xE0 \<le> uint b" "uint b \<le> 0xEF" "is_cont b1" "is_cont b2"
    and "uint b = 0xE0 \<longrightarrow> 0xA0 \<le> uint b1" "uint b = 0xED \<longrightarrow> uint b1 \<le> 0x9F"
    and "c = acc_cont (acc_cont (uint b - 0xE0) b1) b2"
  shows "encode_char c = [b, b1, b2] \<and> is_scalar c"
proof -
  have "0x800 \<le> c" "c < 0x10000" using assms by (auto simp: is_cont_def acc_cont_def)
  moreover have "is_scalar c"
    using assms by (cases "uint b < 0xED"; cases "uint b = 0xED")
      (auto simp: is_scalar_def is_cont_def acc_cont_def)
  ultimately show ?thesis using assms(3,4,7) by (simp add: encode_char_def)
qed

lemma encode_char_4:
  assumes "0xF0 \<le> uint b" "uint b \<le> 0xF4" "is_cont b1" "is_cont b2" "is_cont b3"
    and "uint b = 0xF0 \<longrightarrow> 0x90 \<le> uint b1" "uint b = 0xF4 \<longrightarrow> uint b1 \<le> 0x8F"
    and "c = acc_cont (acc_cont (acc_cont (uint b - 0xF0) b1) b2) b3"
  shows "encode_char c = [b, b1, b2, b3] \<and> is_scalar c"
proof -
  have "0x10000 \<le> c" "c < 0x110000" using assms by (auto simp: is_cont_def acc_cont_def)
  then show ?thesis using assms(3,4,5,8) by (simp add: encode_char_def is_scalar_def)
qed

lemma utf8_chars_Cons_Some:
  assumes "utf8_chars (b # bs) = Some cs"
  shows "\<exists>c cs' r. cs = c # cs' \<and> b # bs = encode_char c @ r \<and> is_scalar c \<and>
    length r \<le> length bs \<and> utf8_chars r = Some cs'"
proof -
  consider (1) "uint b < 0x80" | (2) "0xC2 \<le> uint b" "uint b \<le> 0xDF"
    | (3) "0xE0 \<le> uint b" "uint b \<le> 0xEF" | (4) "0xF0 \<le> uint b" "uint b \<le> 0xF4"
    | (5) "\<not> uint b < 0x80" "\<not> (0xC2 \<le> uint b \<and> uint b \<le> 0xDF)"
       "\<not> (0xE0 \<le> uint b \<and> uint b \<le> 0xEF)" "\<not> (0xF0 \<le> uint b \<and> uint b \<le> 0xF4)"
    by blast
  then show ?thesis
  proof cases
    case 1
    with assms encode_char_1 [OF 1] show ?thesis by (auto simp: Let_def)
  next
    case 2
    with assms obtain b1 r cs' where "bs = b1 # r" "is_cont b1" "utf8_chars r = Some cs'"
      "cs = acc_cont (uint b - 0xC0) b1 # cs'"
      by (auto simp: Let_def split: list.splits if_splits)
    with encode_char_2 [OF 2] show ?thesis by auto
  next
    case 3
    with assms obtain b1 b2 r cs' where "bs = b1 # b2 # r" "is_cont b1" "is_cont b2"
      "uint b = 0xE0 \<longrightarrow> 0xA0 \<le> uint b1" "uint b = 0xED \<longrightarrow> uint b1 \<le> 0x9F"
      "utf8_chars r = Some cs'" "cs = acc_cont (acc_cont (uint b - 0xE0) b1) b2 # cs'"
      by (auto simp: Let_def split: list.splits if_splits)
    with encode_char_3 [OF 3] show ?thesis by auto
  next
    case 4
    with assms obtain b1 b2 b3 r cs' where "bs = b1 # b2 # b3 # r"
      "is_cont b1" "is_cont b2" "is_cont b3"
      "uint b = 0xF0 \<longrightarrow> 0x90 \<le> uint b1" "uint b = 0xF4 \<longrightarrow> uint b1 \<le> 0x8F"
      "utf8_chars r = Some cs'" "cs = acc_cont (acc_cont (acc_cont (uint b - 0xF0) b1) b2) b3 # cs'"
      by (auto simp: Let_def split: list.splits if_splits)
    with encode_char_4 [OF 4] show ?thesis by auto
  next
    case 5
    with assms show ?thesis by (simp add: Let_def)
  qed
qed

lemma utf8_chars_sound:
  "utf8_chars bs = Some cs \<Longrightarrow> encode_utf8 cs = bs \<and> list_all is_scalar cs"
proof (induction bs arbitrary: cs rule: length_induct)
  case (1 bs)
  show ?case
  proof (cases bs)
    case Nil
    with 1 show ?thesis by (simp add: encode_utf8_def)
  next
    case (Cons b bs')
    with utf8_chars_Cons_Some 1 obtain c cs' r where "cs = c # cs'" "bs = encode_char c @ r"
      "is_scalar c" "length r < length bs" "utf8_chars r = Some cs'"
      by (metis le_imp_less_Suc length_Cons)
    moreover from this 1(1) have "encode_utf8 cs' = r \<and> list_all is_scalar cs'" by blast
    ultimately show ?thesis by (auto simp: encode_utf8_def)
  qed
qed

section \<open>Character boundaries\<close>

text \<open>A boundary of an encoded string is the end of the encoding of some of its first characters.\<close>

lemma encode_utf8_simps [simp]:
  "encode_utf8 [] = []" "encode_utf8 (c # cs) = encode_char c @ encode_utf8 cs"
  "encode_utf8 (cs @ ds) = encode_utf8 cs @ encode_utf8 ds"
  by (simp_all add: encode_utf8_def)

lemma encode_char_shape:
  assumes "is_scalar c"
  shows "\<exists>b bs. encode_char c = b # bs \<and> \<not> is_cont b \<and> list_all is_cont bs"
  using assms
  by (cases rule: scalar_cases)
    (simp_all add: encode_char_def is_cont_def [of "byte_of (_ + shr6 _)"] is_cont_def [of "byte_of c"])

lemma encode_char_nonempty [simp]: "encode_char c \<noteq> []"
  by (simp add: encode_char_def)

lemma boundary_in_char:
  assumes "is_scalar c" "i < length (encode_char c)"
  shows "is_char_boundary (encode_char c @ s) i \<longleftrightarrow> i = 0"
proof -
  obtain b bs where c: "encode_char c = b # bs" "list_all is_cont bs"
    using encode_char_shape [OF assms(1)] by blast
  show ?thesis
    using assms(2) c by (cases i) (auto simp: is_char_boundary_def nth_append list_all_length)
qed

lemma boundary_after_char:
  assumes "is_scalar c" "length (encode_char c) \<le> i" "list_all is_scalar cs"
  shows "is_char_boundary (encode_char c @ encode_utf8 cs) i \<longleftrightarrow>
    is_char_boundary (encode_utf8 cs) (i - length (encode_char c))"
proof (cases cs)
  case Nil
  then show ?thesis using assms by (auto simp: is_char_boundary_def)
next
  case (Cons d ds)
  then obtain b bs where "encode_char d = b # bs" "\<not> is_cont b"
    using encode_char_shape [of d] assms by auto
  then show ?thesis using assms Cons
    by (auto simp: is_char_boundary_def nth_append Suc_diff_le less_diff_conv2)
qed

lemma boundary_iff_prefix:
  "list_all is_scalar cs \<Longrightarrow> is_char_boundary (encode_utf8 cs) i \<longleftrightarrow>
    (\<exists>k \<le> length cs. i = length (encode_utf8 (take k cs)))"
proof (induction cs arbitrary: i)
  case Nil
  then show ?case by (simp add: is_char_boundary_def)
next
  case (Cons c cs)
  show ?case
  proof (cases "i < length (encode_char c)")
    case True
    have "(\<exists>k \<le> length (c # cs). i = length (encode_utf8 (take k (c # cs)))) \<longleftrightarrow> i = 0"
    proof
      assume "\<exists>k \<le> length (c # cs). i = length (encode_utf8 (take k (c # cs)))"
      then obtain k where "i = length (encode_utf8 (take k (c # cs)))" by blast
      with True show "i = 0" by (cases k) auto
    qed (auto intro: exI [of _ 0])
    then show ?thesis using True Cons.prems boundary_in_char by simp
  next
    case False
    have "(\<exists>k \<le> length cs. i - length (encode_char c) = length (encode_utf8 (take k cs))) \<longleftrightarrow>
      (\<exists>k \<le> length (c # cs). i = length (encode_utf8 (take k (c # cs))))" (is "?L \<longleftrightarrow> ?R")
    proof
      assume ?L
      then obtain k where "k \<le> length cs" "i - length (encode_char c) = length (encode_utf8 (take k cs))" by blast
      then show ?R using False by (intro exI [of _ "Suc k"]) auto
    next
      assume ?R
      then obtain k where "k \<le> length (c # cs)" "i = length (encode_utf8 (take k (c # cs)))" by blast
      then show ?L using False by (cases k) auto
    qed
    then show ?thesis using False Cons boundary_after_char by simp
  qed
qed

lemma truncate_end_boundary:
  "is_char_boundary s (truncate_end s e) \<and> truncate_end s e \<le> e \<and>
   (\<forall>i. is_char_boundary s i \<longrightarrow> i \<le> e \<longrightarrow> i \<le> truncate_end s e)"
proof (induction e)
  case 0
  then show ?case by (simp add: is_char_boundary_def)
next
  case (Suc e)
  then show ?case by (auto simp: le_Suc_eq)
qed

lemma truncate_utf8_prefix:
  assumes "list_all is_scalar cs"
  shows "\<exists>k \<le> length cs. truncate_utf8 (encode_utf8 cs) n = Ok (encode_utf8 (take k cs)) \<and>
    length (encode_utf8 (take k cs)) \<le> n \<and>
    (k < length cs \<longrightarrow> n < length (encode_utf8 (take (Suc k) cs)))"
proof (cases "length (encode_utf8 cs) \<le> n")
  case True
  then show ?thesis by (intro exI [of _ "length cs"]) (simp add: truncate_utf8_def)
next
  case False
  let ?e = "truncate_end (encode_utf8 cs) n"
  obtain k where k: "k \<le> length cs" "?e = length (encode_utf8 (take k cs))"
    using truncate_end_boundary boundary_iff_prefix [OF assms] by blast
  have "take ?e (encode_utf8 cs) = encode_utf8 (take k cs)"
    using k by (metis append_eq_conv_conj append_take_drop_id encode_utf8_simps(3))
  moreover have "n < length (encode_utf8 (take (Suc k) cs))" if "k < length cs"
  proof (rule ccontr)
    assume "\<not> n < length (encode_utf8 (take (Suc k) cs))"
    moreover have "is_char_boundary (encode_utf8 cs) (length (encode_utf8 (take (Suc k) cs)))"
      using boundary_iff_prefix [OF assms] that by (auto intro: exI [of _ "Suc k"])
    ultimately have "length (encode_utf8 (take (Suc k) cs)) \<le> length (encode_utf8 (take k cs))"
      using truncate_end_boundary k(2) by (metis leI)
    then show False using that by (simp add: take_Suc_conv_app_nth)
  qed
  ultimately show ?thesis using False k truncate_end_boundary [of "encode_utf8 cs" n]
    by (intro exI [of _ k]) (auto simp: truncate_utf8_def str_slice_to_def)
qed

section \<open>Properties\<close>

lemma utf8_chars_append_encode:
  "list_all is_scalar cs \<Longrightarrow> utf8_chars (encode_utf8 cs @ s) = map_option ((@) cs) (utf8_chars s)"
proof (induction cs)
  case Nil
  then show ?case by (cases "utf8_chars s") simp_all
next
  case (Cons c cs)
  then show ?case by (cases "utf8_chars s") (simp_all add: utf8_chars_encode_char)
qed

lemma valid_utf8_iff: "valid_utf8 s \<longleftrightarrow> (\<exists>cs. list_all is_scalar cs \<and> s = encode_utf8 cs)"
  unfolding valid_utf8_def using utf8_chars_encode utf8_chars_sound by fastforce

lemma valid_utf8_append: "\<lbrakk>valid_utf8 s; valid_utf8 t\<rbrakk> \<Longrightarrow> valid_utf8 (s @ t)"
  unfolding valid_utf8_iff by (elim exE conjE, rule exI [of _ "_ @ _"]) (simp add: encode_utf8_def)

lemma valid_ascii_Cons: "uint b < 0x80 \<Longrightarrow> valid_utf8 (b # s) = valid_utf8 s"
  by (simp add: valid_utf8_def)

lemma encode_utf8_prefix_mono:
  "j \<le> k \<Longrightarrow> prefix (encode_utf8 (take j cs)) (encode_utf8 (take k cs))"
  by (metis encode_utf8_simps(3) le_add_diff_inverse prefixI take_add)

lemma encode_utf8_take_prefix: "prefix (encode_utf8 (take k cs)) (encode_utf8 cs)"
  by (metis append_take_drop_id encode_utf8_simps(3) prefixI)

lemma list_all_take: "list_all P xs \<Longrightarrow> list_all P (take k xs)"
  by (auto simp: list_all_iff dest: in_set_takeD)

lemma valid_prefix_take:
  assumes "list_all is_scalar cs" "valid_utf8 u" "prefix u (encode_utf8 cs)"
  shows "\<exists>k \<le> length cs. u = encode_utf8 (take k cs)"
proof -
  obtain ds where ds: "list_all is_scalar ds" "u = encode_utf8 ds"
    using assms(2) by (auto simp: valid_utf8_iff)
  obtain r where "encode_utf8 cs = encode_utf8 ds @ r" using assms(3) ds by (auto simp: prefix_def)
  with utf8_chars_encode [OF assms(1)] utf8_chars_append_encode [OF ds(1), of r]
  obtain es where "cs = ds @ es" by auto
  with ds show ?thesis by (intro exI [of _ "length ds"]) simp
qed

text \<open>
  C26. \<open>truncate_utf8\<close> never panics on a well-formed string and returns the longest
  well-formed prefix that has at most \<open>max_bytes\<close> bytes: no character is split, and none
  that fits is dropped.
\<close>

theorem truncate_utf8_longest:
  assumes "valid_utf8 s"
  shows "\<exists>t. truncate_utf8 s max_bytes = Ok t \<and> valid_utf8 t \<and> prefix t s \<and>
    length t \<le> max_bytes \<and>
    (\<forall>u. valid_utf8 u \<longrightarrow> prefix u s \<longrightarrow> length u \<le> max_bytes \<longrightarrow> prefix u t)"
proof -
  obtain cs where cs: "list_all is_scalar cs" "s = encode_utf8 cs"
    using assms by (auto simp: valid_utf8_iff)
  obtain k where k: "k \<le> length cs" "truncate_utf8 s max_bytes = Ok (encode_utf8 (take k cs))"
      "length (encode_utf8 (take k cs)) \<le> max_bytes"
      "k < length cs \<longrightarrow> max_bytes < length (encode_utf8 (take (Suc k) cs))"
    using truncate_utf8_prefix [OF cs(1)] cs(2) by blast
  have "prefix u (encode_utf8 (take k cs))"
    if u: "valid_utf8 u" "prefix u s" "length u \<le> max_bytes" for u
  proof -
    obtain j where j: "j \<le> length cs" "u = encode_utf8 (take j cs)"
      using valid_prefix_take cs u by blast
    have "j \<le> k"
    proof (rule ccontr)
      assume "\<not> j \<le> k"
      then have "prefix (encode_utf8 (take (Suc k) cs)) u"
        using j encode_utf8_prefix_mono [of "Suc k" j] by simp
      then show False using k(4) u(3) j \<open>\<not> j \<le> k\<close> by (auto dest: prefix_length_le)
    qed
    then show ?thesis using j encode_utf8_prefix_mono by blast
  qed
  moreover have "valid_utf8 (encode_utf8 (take k cs))"
    using cs(1) list_all_take valid_utf8_iff by blast
  ultimately show ?thesis using k cs
    by (intro exI [of _ "encode_utf8 (take k cs)"]) (auto simp: encode_utf8_take_prefix)
qed

theorem truncate_utf8_longest_witness:
  "truncate_utf8 (encode_utf8 [0x68, 0xE9, 0x6C]) 2 = Ok [0x68] \<and>
   (\<exists>t. truncate_utf8 (encode_utf8 [0x68, 0xE9, 0x6C]) 2 = Ok t \<and> valid_utf8 t)"
proof -
  have "valid_utf8 (encode_utf8 [0x68, 0xE9, 0x6C])" by code_simp
  moreover have "truncate_utf8 (encode_utf8 [0x68, 0xE9, 0x6C]) 2 = Ok [0x68]" by code_simp
  ultimately show ?thesis using truncate_utf8_longest by blast
qed

end
