(* ===== verification/Raw_Socket.thy ===== *)
theory Raw_Socket
  imports Byte_Io Big_Endian Utf8
begin

text \<open>
  The model of \<open>garuda-codec-core/src/socket.rs\<close>: raw packet sockets. The functions and
  constants of the crate \<open>libc\<close> are a parameter, the record \<open>libc\<close>, over a kernel state of any
  type; \<open>libc_fds\<close> is what the manual pages say of them about open file descriptors. A
  destructor (\<open>Drop\<close>) is called explicitly where the code drops the value.
\<close>

section \<open>The interface of the C library\<close>

record sockaddr_ll =
  sll_family :: u16
  sll_protocol :: u16
  sll_ifindex :: u32
  sll_hatype :: u16
  sll_pkttype :: u8
  sll_halen :: u8
  sll_addr :: bytes

record timeval =
  tv_sec :: int
  tv_usec :: int

record 'k libc =
  AF_PACKET :: u32
  SOCK_RAW :: u32
  ETH_P_ALL :: u32
  SOL_SOCKET :: u32
  SO_RCVTIMEO :: u32
  sizeof_sockaddr_ll :: nat
  sizeof_timeval :: nat
  c_socket :: "u32 \<Rightarrow> u32 \<Rightarrow> u32 \<Rightarrow> 'k \<Rightarrow> int \<times> 'k"
  c_if_nametoindex :: "str \<Rightarrow> 'k \<Rightarrow> u32 \<times> 'k"
  c_setsockopt :: "int \<Rightarrow> u32 \<Rightarrow> u32 \<Rightarrow> timeval \<Rightarrow> nat \<Rightarrow> 'k \<Rightarrow> int \<times> 'k"
  c_bind :: "int \<Rightarrow> sockaddr_ll \<Rightarrow> nat \<Rightarrow> 'k \<Rightarrow> int \<times> 'k"
  c_sendto :: "int \<Rightarrow> bytes \<Rightarrow> nat \<Rightarrow> u32 \<Rightarrow> sockaddr_ll \<Rightarrow> nat \<Rightarrow> 'k \<Rightarrow> int \<times> 'k"
  c_recvfrom :: "int \<Rightarrow> nat \<Rightarrow> u32 \<Rightarrow> 'k \<Rightarrow> int \<times> bytes \<times> 'k"
  c_close :: "int \<Rightarrow> 'k \<Rightarrow> int \<times> 'k"
  c_dup :: "int \<Rightarrow> 'k \<Rightarrow> int \<times> 'k"
  last_os_error :: "'k \<Rightarrow> error_kind"

text \<open>\<open>to_be\<close> on a little-endian target: the bytes in the opposite order.\<close>

definition u32_to_be :: "u32 \<Rightarrow> u32" where
  "u32_to_be w = from_be_bytes (rev (to_be_bytes 4 w))"

definition u16_to_be :: "u16 \<Rightarrow> u16" where
  "u16_to_be w = from_be_bytes (rev (to_be_bytes 2 w))"

section \<open>\<open>RawSocket\<close>\<close>

record raw_socket =
  socket_fd :: int
  sockaddr :: sockaddr_ll

definition raw_socket_new ::
  "'k libc \<Rightarrow> str \<Rightarrow> 'k \<Rightarrow> (error_kind, raw_socket) outcome \<times> 'k" where
  "raw_socket_new C interface_name k =
     (let (fd, k) = c_socket C (AF_PACKET C) (SOCK_RAW C) (u32_to_be (ETH_P_ALL C)) k
      in if fd < 0 then (Err (last_os_error C k), k)
         else if 0 \<in> set interface_name then (Err Other, k)
         else
           let (if_index, k) = c_if_nametoindex C interface_name k
           in if if_index = 0 then (Err (last_os_error C k), k)
              else
                (Ok \<lparr>socket_fd = fd,
                     sockaddr = \<lparr>sll_family = ucast (AF_PACKET C),
                                 sll_protocol = u16_to_be (ucast (ETH_P_ALL C)),
                                 sll_ifindex = if_index, sll_hatype = 0, sll_pkttype = 0,
                                 sll_halen = 0, sll_addr = replicate 8 0\<rparr>\<rparr>, k))"

text \<open>\<open>Drop\<close>: close the descriptor; a failure is only printed.\<close>

definition raw_socket_drop :: "'k libc \<Rightarrow> raw_socket \<Rightarrow> 'k \<Rightarrow> 'k" where
  "raw_socket_drop C s k = snd (c_close C (socket_fd s) k)"

definition set_receive_timeout ::
  "'k libc \<Rightarrow> raw_socket \<Rightarrow> int \<Rightarrow> int \<Rightarrow> 'k \<Rightarrow> (error_kind, unit) outcome \<times> 'k" where
  "set_receive_timeout C s secs usecs k =
     (let (result, k) = c_setsockopt C (socket_fd s) (SOL_SOCKET C) (SO_RCVTIMEO C)
                          \<lparr>tv_sec = secs, tv_usec = usecs\<rparr> (sizeof_timeval C) k
      in if result < 0 then (Err (last_os_error C k), k) else (Ok (), k))"

text \<open>\<open>bind\<close> consumes the socket: on an error it is dropped.\<close>

record raw_socket_reader =
  reader_socket :: raw_socket

definition raw_socket_bind ::
  "'k libc \<Rightarrow> raw_socket \<Rightarrow> 'k \<Rightarrow> (error_kind, raw_socket_reader) outcome \<times> 'k" where
  "raw_socket_bind C s k =
     (case set_receive_timeout C s 1 0 k of
        (Err e, k) \<Rightarrow> (Err e, raw_socket_drop C s k)
      | (Panic, k) \<Rightarrow> (Panic, raw_socket_drop C s k)
      | (Ok _, k) \<Rightarrow>
          let (result, k) = c_bind C (socket_fd s) (sockaddr s) (sizeof_sockaddr_ll C) k
          in if result < 0 then (Err (last_os_error C k), raw_socket_drop C s k)
             else (Ok \<lparr>reader_socket = s\<rparr>, k))"

definition raw_socket_write ::
  "'k libc \<Rightarrow> raw_socket \<Rightarrow> bytes \<Rightarrow> 'k \<Rightarrow> (error_kind, usize) outcome \<times> 'k" where
  "raw_socket_write C s buf k =
     (let (bytes_sent, k) = c_sendto C (socket_fd s) buf (length buf) 0 (sockaddr s)
                              (sizeof_sockaddr_ll C) k
      in if bytes_sent < 0 then (Err (last_os_error C k), k) else (Ok (nat bytes_sent), k))"

definition raw_socket_flush :: "raw_socket \<Rightarrow> 'k \<Rightarrow> (error_kind, unit) outcome \<times> 'k" where
  "raw_socket_flush s k = (Ok (), k)"

definition raw_socket_clone :: "'k libc \<Rightarrow> raw_socket \<Rightarrow> 'k \<Rightarrow> raw_socket \<times> 'k" where
  "raw_socket_clone C s k =
     (let (new_fd, k) = c_dup C (socket_fd s) k
      in (\<lparr>socket_fd = new_fd, sockaddr = sockaddr s\<rparr>, k))"

section \<open>\<open>RawSocketReader\<close>\<close>

text \<open>\<open>recvfrom\<close> fills a prefix of the buffer.\<close>

definition raw_socket_reader_read ::
  "'k libc \<Rightarrow> raw_socket_reader \<Rightarrow> usize \<Rightarrow> 'k \<Rightarrow> (error_kind, bytes) outcome \<times> 'k" where
  "raw_socket_reader_read C r n k =
     (let (bytes_received, bs, k) = c_recvfrom C (socket_fd (reader_socket r)) n 0 k
      in if bytes_received < 0 then (Err (last_os_error C k), k)
         else (Ok (take (nat bytes_received) bs), k))"

definition raw_socket_reader_clone ::
  "'k libc \<Rightarrow> raw_socket_reader \<Rightarrow> 'k \<Rightarrow> raw_socket_reader \<times> 'k" where
  "raw_socket_reader_clone C r k =
     (let (s, k) = raw_socket_clone C (reader_socket r) k in (\<lparr>reader_socket = s\<rparr>, k))"

section \<open>What the C library promises about descriptors\<close>

text \<open>
  \<open>fds k\<close> are the open descriptors in the kernel state \<open>k\<close>: \<open>socket\<close> and \<open>dup\<close> open a fresh one
  or fail, \<open>close\<close> closes an open one, and the other calls leave them alone.
\<close>

definition opens :: "('k \<Rightarrow> int set) \<Rightarrow> int \<times> 'k \<Rightarrow> 'k \<Rightarrow> bool" where
  "opens fds r k \<longleftrightarrow>
     (if fst r < 0 then fds (snd r) = fds k
      else fst r \<notin> fds k \<and> fds (snd r) = insert (fst r) (fds k))"

definition libc_fds :: "'k libc \<Rightarrow> ('k \<Rightarrow> int set) \<Rightarrow> bool" where
  "libc_fds C fds \<longleftrightarrow>
     (\<forall>a b c k. opens fds (c_socket C a b c k) k) \<and>
     (\<forall>fd k. opens fds (c_dup C fd k) k) \<and>
     (\<forall>fd k. fds (snd (c_close C fd k)) = fds k - {fd}) \<and>
     (\<forall>n k. fds (snd (c_if_nametoindex C n k)) = fds k) \<and>
     (\<forall>fd a b t n k. fds (snd (c_setsockopt C fd a b t n k)) = fds k) \<and>
     (\<forall>fd a n k. fds (snd (c_bind C fd a n k)) = fds k) \<and>
     (\<forall>fd bs n f a l k. fds (snd (c_sendto C fd bs n f a l k)) = fds k) \<and>
     (\<forall>fd n f k. fds (snd (snd (c_recvfrom C fd n f k))) = fds k)"

text \<open>
  A kernel for the examples: the open descriptors below a counter, and the names of the
  interfaces that exist.
\<close>

record fd_table =
  tab_open :: "int list"
  tab_next :: int
  tab_ifaces :: "str list"

definition table_libc :: "fd_table libc" where
  "table_libc =
     \<lparr>AF_PACKET = 17, SOCK_RAW = 3, ETH_P_ALL = 3, SOL_SOCKET = 1, SO_RCVTIMEO = 20,
      sizeof_sockaddr_ll = 20, sizeof_timeval = 16,
      c_socket = (\<lambda>a b c k.
        if tab_next k < 0 \<or> tab_next k \<in> set (tab_open k) then (-1, k)
        else (tab_next k, k\<lparr>tab_open := tab_next k # tab_open k, tab_next := tab_next k + 1\<rparr>)),
      c_if_nametoindex = (\<lambda>n k. (if n \<in> set (tab_ifaces k) then 1 else 0, k)),
      c_setsockopt = (\<lambda>fd a b t n k. (0, k)),
      c_bind = (\<lambda>fd a n k. (if fd \<in> set (tab_open k) then 0 else -1, k)),
      c_sendto = (\<lambda>fd bs n f a l k. (if fd \<in> set (tab_open k) then int (length bs) else -1, k)),
      c_recvfrom = (\<lambda>fd n f k. (-1, [], k)),
      c_close = (\<lambda>fd k. (0, k\<lparr>tab_open := filter (\<lambda>x. x \<noteq> fd) (tab_open k)\<rparr>)),
      c_dup = (\<lambda>fd k.
        if tab_next k < 0 \<or> tab_next k \<in> set (tab_open k) then (-1, k)
        else (tab_next k, k\<lparr>tab_open := tab_next k # tab_open k, tab_next := tab_next k + 1\<rparr>)),
      last_os_error = (\<lambda>k. NotFound)\<rparr>"

lemma table_libc_fds: "libc_fds table_libc (\<lambda>k. set (tab_open k))"
  by (auto simp: libc_fds_def table_libc_def opens_def)

section \<open>Properties\<close>

text \<open>
  C35. Descriptors of raw sockets: a successful \<open>new\<close> owns one fresh descriptor; if the socket
  cannot be opened nothing stays open. But when the socket is open and the interface name is
  not acceptable, \<open>new\<close> fails and its descriptor stays open with no owner.
\<close>

theorem raw_socket_new_fds:
  assumes "libc_fds C fds" "raw_socket_new C name k = (r, k')"
    and "c_socket C (AF_PACKET C) (SOCK_RAW C) (u32_to_be (ETH_P_ALL C)) k = (fd, k1)"
  shows "case r of
      Ok s \<Rightarrow> socket_fd s = fd \<and> fd \<notin> fds k \<and> fds k' = insert fd (fds k)
    | Err e \<Rightarrow> if fd < 0 then fds k' = fds k else fd \<notin> fds k \<and> fds k' = insert fd (fds k)
    | Panic \<Rightarrow> False"
proof -
  have o: "opens fds (fd, k1) k" using assms(1,3) unfolding libc_fds_def by metis
  have n: "fds (snd (c_if_nametoindex C name k1)) = fds k1" using assms(1) unfolding libc_fds_def by metis
  show ?thesis
    using assms(2,3) o n
    by (auto simp: raw_socket_new_def opens_def Let_def split: prod.splits if_splits)
qed

theorem raw_socket_new_fds_witness:
  "\<exists>k'. raw_socket_new table_libc [0x65] \<lparr>tab_open = [], tab_next = 3, tab_ifaces = []\<rparr> = (Err NotFound, k') \<and>
     set (tab_open k') = {3}"
proof -
  let ?k = "\<lparr>tab_open = [], tab_next = 3, tab_ifaces = []\<rparr> :: fd_table"
  let ?k1 = "\<lparr>tab_open = [3], tab_next = 4, tab_ifaces = []\<rparr> :: fd_table"
  have s: "c_socket table_libc (AF_PACKET table_libc) (SOCK_RAW table_libc) (u32_to_be (ETH_P_ALL table_libc)) ?k = (3, ?k1)"
    by (simp add: table_libc_def)
  have r: "raw_socket_new table_libc [0x65] ?k = (Err NotFound, ?k1)"
    by (simp add: raw_socket_new_def table_libc_def)
  show ?thesis using raw_socket_new_fds [OF table_libc_fds r s] r by auto
qed

text \<open>
  C36. \<open>bind\<close> keeps the descriptor in the reader it returns, and closes it when it fails;
  dropping closes it, and a clone owns a fresh one or, when \<open>dup\<close> fails, an invalid one.
\<close>

theorem raw_socket_bind_fds:
  assumes "libc_fds C fds" "socket_fd s \<in> fds k"
  shows "(case raw_socket_bind C s k of
      (Ok r, k') \<Rightarrow> reader_socket r = s \<and> fds k' = fds k
    | (Err e, k') \<Rightarrow> fds k' = fds k - {socket_fd s}
    | (Panic, k') \<Rightarrow> False) \<and>
    fds (raw_socket_drop C s k) = fds k - {socket_fd s} \<and>
    (case raw_socket_clone C s k of (t, k') \<Rightarrow>
       sockaddr t = sockaddr s \<and>
       (if socket_fd t < 0 then fds k' = fds k
        else socket_fd t \<notin> fds k \<and> fds k' = insert (socket_fd t) (fds k)))"
proof -
  have cl: "fds (snd (c_close C fd k)) = fds k - {fd}" for fd k using assms(1) unfolding libc_fds_def by metis
  have so: "fds (snd (c_setsockopt C fd a b t n k)) = fds k" for fd a b t n k
    using assms(1) unfolding libc_fds_def by metis
  have bi: "fds (snd (c_bind C fd a n k)) = fds k" for fd a n k using assms(1) unfolding libc_fds_def by metis
  have du: "opens fds (c_dup C fd k) k" for fd k using assms(1) unfolding libc_fds_def by metis
  obtain r1 k1 where 1: "c_setsockopt C (socket_fd s) (SOL_SOCKET C) (SO_RCVTIMEO C)
      \<lparr>tv_sec = 1, tv_usec = 0\<rparr> (sizeof_timeval C) k = (r1, k1)" by fastforce
  obtain r2 k2 where 2: "c_bind C (socket_fd s) (sockaddr s) (sizeof_sockaddr_ll C) k1 = (r2, k2)" by fastforce
  have f: "fds k1 = fds k" "fds k2 = fds k"
    using so [of "socket_fd s" "SOL_SOCKET C"] bi 1 2 by (metis snd_conv)+
  have "case raw_socket_bind C s k of
      (Ok r, k') \<Rightarrow> reader_socket r = s \<and> fds k' = fds k
    | (Err e, k') \<Rightarrow> fds k' = fds k - {socket_fd s}
    | (Panic, k') \<Rightarrow> False"
    using f cl 1 2 by (simp add: raw_socket_bind_def set_receive_timeout_def raw_socket_drop_def)
  moreover have "case raw_socket_clone C s k of (t, k') \<Rightarrow>
       sockaddr t = sockaddr s \<and>
       (if socket_fd t < 0 then fds k' = fds k
        else socket_fd t \<notin> fds k \<and> fds k' = insert (socket_fd t) (fds k))"
    using du [of "socket_fd s" k] by (auto simp: raw_socket_clone_def opens_def split_beta)
  ultimately show ?thesis using cl by (simp add: raw_socket_drop_def)
qed

theorem raw_socket_bind_fds_witness:
  "\<exists>r k'. raw_socket_bind table_libc
       \<lparr>socket_fd = 3, sockaddr = \<lparr>sll_family = 17, sll_protocol = 768, sll_ifindex = 1, sll_hatype = 0,
          sll_pkttype = 0, sll_halen = 0, sll_addr = replicate 8 0\<rparr>\<rparr>
       \<lparr>tab_open = [3], tab_next = 4, tab_ifaces = []\<rparr> = (Ok r, k') \<and> set (tab_open k') = {3}"
proof -
  let ?s = "\<lparr>socket_fd = 3, sockaddr = \<lparr>sll_family = 17, sll_protocol = 768, sll_ifindex = 1, sll_hatype = 0,
          sll_pkttype = 0, sll_halen = 0, sll_addr = replicate 8 0\<rparr>\<rparr> :: raw_socket"
  let ?k = "\<lparr>tab_open = [3], tab_next = 4, tab_ifaces = []\<rparr> :: fd_table"
  have r: "raw_socket_bind table_libc ?s ?k = (Ok \<lparr>reader_socket = ?s\<rparr>, ?k)"
    by (simp add: raw_socket_bind_def set_receive_timeout_def table_libc_def)
  have "socket_fd ?s \<in> set (tab_open ?k)" by simp
  from raw_socket_bind_fds [OF table_libc_fds this] show ?thesis by (auto simp: r)
qed

text \<open>
  The protocol argument of \<open>socket\<close> is the constant byte-swapped as a 32-bit integer, not as
  the 16-bit value the call takes: for \<open>ETH_P_ALL = 3\<close> its low 16 bits are zero, so that the
  socket receives nothing until \<open>bind\<close> sets the protocol, which the address has right.
\<close>

lemma socket_protocol_swapped:
  assumes "ETH_P_ALL C = 3" "raw_socket_new C name k = (Ok s, k')"
  shows "(ucast (u32_to_be (ETH_P_ALL C)) :: u16) = 0 \<and> sll_protocol (sockaddr s) = 0x0300"
proof -
  have "(ucast (u32_to_be 3) :: u16) = 0" "u16_to_be 3 = 0x0300"
    by code_simp+
  then show ?thesis
    using assms by (auto simp: raw_socket_new_def Let_def split: prod.splits if_splits)
qed

end
