(* ===== verification/Io_Stream.thy ===== *)
theory Io_Stream
  imports Raw_Socket
begin

text \<open>
  The model of \<open>garuda-codec-core/src/io_stream.rs\<close>: input and output streams named by URIs,
  and the listeners that produce input streams.

  Output streams are handles, as descriptors are: the bytes written are in the world, under the
  number of the stream, so that a clone and its original write to the same stream. Connecting,
  binding and removing files are operations of the system, the record \<open>os\<close>; an input stream
  carries the script of its reads, and a listener the script of its accepts. A listener whose
  script is exhausted waits forever.
\<close>

section \<open>Data\<close>

text \<open>The bytes of an ASCII literal.\<close>

definition ascii :: "string \<Rightarrow> str" where
  "ascii s = map of_char s"

definition STDIN :: str where
  "STDIN = ascii ''-''"

definition STDOUT :: str where
  "STDOUT = ascii ''-''"

definition TCP_URI_PREFIX :: str where
  "TCP_URI_PREFIX = ascii ''tcp://''"

definition UNIX_SOCKET_URI_PREFIX :: str where
  "UNIX_SOCKET_URI_PREFIX = ascii ''unix://''"

definition AF_PACKET_SOCKET_URI_PREFIX :: str where
  "AF_PACKET_SOCKET_URI_PREFIX = ascii ''af_packet://''"

datatype output_stream = Stdout | OutTcp nat | OutUnix nat | OutRaw raw_socket

datatype input_stream = Stdin in_stream | InTcp in_stream | InUnix in_stream | InRaw raw_socket_reader

type_synonym accept_script = "(error_kind + in_stream) list"

datatype listener =
    LStdin bool | LTcp accept_script | LUnix accept_script | LRaw str

text \<open>
  The world: the output streams by number, the standard input, and the state of the kernel.
  Stream 0 is the standard output.
\<close>

record 'k world =
  out_streams :: "nat \<Rightarrow> out_stream"
  std_input :: in_stream
  kernel :: 'k

record 'k os =
  os_libc :: "'k libc"
  tcp_connect :: "str \<Rightarrow> 'k world \<Rightarrow> (error_kind, nat) outcome \<times> 'k world"
  unix_connect :: "str \<Rightarrow> 'k world \<Rightarrow> (error_kind, nat) outcome \<times> 'k world"
  clone_handle :: "nat \<Rightarrow> 'k world \<Rightarrow> (error_kind, unit) outcome \<times> 'k world"
  tcp_bind :: "str \<Rightarrow> 'k world \<Rightarrow> (error_kind, accept_script) outcome \<times> 'k world"
  unix_bind :: "str \<Rightarrow> 'k world \<Rightarrow> (error_kind, accept_script) outcome \<times> 'k world"
  remove_file :: "str \<Rightarrow> 'k world \<Rightarrow> (error_kind, unit) outcome \<times> 'k world"

text \<open>The first component of a result, mapped.\<close>

definition map_result ::
  "('a \<Rightarrow> 'b) \<Rightarrow> ('e, 'a) outcome \<times> 'w \<Rightarrow> ('e, 'b) outcome \<times> 'w" where
  "map_result f r = (bind_outcome (fst r) (\<lambda>a. Ok (f a)), snd r)"

text \<open>A call into the C library, on the kernel part of the world.\<close>

definition on_kernel :: "('k \<Rightarrow> 'r \<times> 'k) \<Rightarrow> 'k world \<Rightarrow> 'r \<times> 'k world" where
  "on_kernel f w = (case f (kernel w) of (r, k) \<Rightarrow> (r, w\<lparr>kernel := k\<rparr>))"

text \<open>\<open>str::strip_prefix\<close>.\<close>

definition strip_prefix :: "str \<Rightarrow> str \<Rightarrow> str option" where
  "strip_prefix p s = (if take (length p) s = p then Some (drop (length p) s) else None)"

section \<open>Output streams\<close>

definition output_from_uri ::
  "'k os \<Rightarrow> str \<Rightarrow> 'k world \<Rightarrow> (error_kind, output_stream) outcome \<times> 'k world" where
  "output_from_uri os uri w =
     (if uri = STDOUT then (Ok Stdout, w)
      else
        (case strip_prefix TCP_URI_PREFIX uri of
           Some addr \<Rightarrow> map_result OutTcp (tcp_connect os addr w)
         | None \<Rightarrow>
             (case strip_prefix UNIX_SOCKET_URI_PREFIX uri of
                Some addr \<Rightarrow> map_result OutUnix (unix_connect os addr w)
              | None \<Rightarrow>
                  (case strip_prefix AF_PACKET_SOCKET_URI_PREFIX uri of
                     Some interface_name \<Rightarrow>
                       map_result OutRaw (on_kernel (raw_socket_new (os_libc os) interface_name) w)
                   | None \<Rightarrow> (Err InvalidInput, w)))))"

fun output_try_clone ::
  "'k os \<Rightarrow> output_stream \<Rightarrow> 'k world \<Rightarrow> (error_kind, output_stream) outcome \<times> 'k world" where
  "output_try_clone os Stdout w = (Ok Stdout, w)"
| "output_try_clone os (OutTcp i) w = map_result (\<lambda>_. OutTcp i) (clone_handle os i w)"
| "output_try_clone os (OutUnix i) w = map_result (\<lambda>_. OutUnix i) (clone_handle os i w)"
| "output_try_clone os (OutRaw s) w =
     (case on_kernel (raw_socket_clone (os_libc os) s) w of (s', w') \<Rightarrow> (Ok (OutRaw s'), w'))"

text \<open>One \<open>write\<close> to the stream with number \<open>i\<close>.\<close>

definition stream_write :: "nat \<Rightarrow> bytes \<Rightarrow> 'k world \<Rightarrow> (error_kind, usize) outcome \<times> 'k world" where
  "stream_write i buf w =
     (case writer_write buf (out_streams w i) of
        (r, s) \<Rightarrow> (case r of Inl e \<Rightarrow> Err e | Inr n \<Rightarrow> Ok n,
                   w\<lparr>out_streams := (out_streams w)(i := s)\<rparr>))"

fun output_write ::
  "'k os \<Rightarrow> output_stream \<Rightarrow> bytes \<Rightarrow> 'k world \<Rightarrow> (error_kind, usize) outcome \<times> 'k world" where
  "output_write os Stdout buf w = stream_write 0 buf w"
| "output_write os (OutTcp i) buf w = stream_write i buf w"
| "output_write os (OutUnix i) buf w = stream_write i buf w"
| "output_write os (OutRaw s) buf w = on_kernel (raw_socket_write (os_libc os) s buf) w"

text \<open>Nothing is buffered in the model, so \<open>flush\<close> has nothing to do.\<close>

fun output_flush :: "output_stream \<Rightarrow> 'k world \<Rightarrow> (error_kind, unit) outcome \<times> 'k world" where
  "output_flush (OutRaw s) w = on_kernel (raw_socket_flush s) w"
| "output_flush _ w = (Ok (), w)"

text \<open>Dropping a stream closes its handle; the streams of the model outlive their handles.\<close>

fun output_drop :: "'k os \<Rightarrow> output_stream \<Rightarrow> 'k world \<Rightarrow> 'k world" where
  "output_drop os (OutRaw s) w = w\<lparr>kernel := raw_socket_drop (os_libc os) s (kernel w)\<rparr>"
| "output_drop os _ w = w"

section \<open>Input streams\<close>

text \<open>
  One \<open>read\<close> with a buffer of \<open>n\<close> bytes: the bytes, and the stream and the world afterwards.
\<close>

definition script_read :: "usize \<Rightarrow> in_stream \<Rightarrow> (error_kind, bytes) outcome \<times> in_stream" where
  "script_read n inp =
     (case reader_read n inp of (r, _, inp') \<Rightarrow> (case r of Inl e \<Rightarrow> Err e | Inr bs \<Rightarrow> Ok bs, inp'))"

fun input_read ::
  "'k os \<Rightarrow> input_stream \<Rightarrow> usize \<Rightarrow> 'k world \<Rightarrow>
   (error_kind, bytes) outcome \<times> input_stream \<times> 'k world" where
  "input_read os (Stdin inp) n w = (case script_read n inp of (r, inp') \<Rightarrow> (r, Stdin inp', w))"
| "input_read os (InTcp inp) n w = (case script_read n inp of (r, inp') \<Rightarrow> (r, InTcp inp', w))"
| "input_read os (InUnix inp) n w = (case script_read n inp of (r, inp') \<Rightarrow> (r, InUnix inp', w))"
| "input_read os (InRaw r) n w =
     (case on_kernel (raw_socket_reader_read (os_libc os) r n) w of (x, w') \<Rightarrow> (x, InRaw r, w'))"

fun input_drop :: "'k os \<Rightarrow> input_stream \<Rightarrow> 'k world \<Rightarrow> 'k world" where
  "input_drop os (InRaw r) w = w\<lparr>kernel := raw_socket_drop (os_libc os) (reader_socket r) (kernel w)\<rparr>"
| "input_drop os _ w = w"

text \<open>
  \<open>read_exact\<close> and \<open>write_all\<close> of the standard library on these streams. A raw socket may
  report interrupts forever, so neither need return.
\<close>

partial_function (option) input_read_exact ::
  "'k os \<Rightarrow> bytes \<Rightarrow> bytes \<Rightarrow> input_stream \<Rightarrow> 'k world \<Rightarrow>
   ((error_kind, unit) outcome \<times> bytes \<times> input_stream \<times> 'k world) option" where
  "input_read_exact os filled buf s w =
     (if buf = [] then Some (Ok (), filled, s, w)
      else
        (case input_read os s (length buf) w of
           (Ok bs, s', w') \<Rightarrow>
             if bs = [] then Some (Err UnexpectedEof, filled @ buf, s', w')
             else if length buf < length bs then Some (Panic, filled @ buf, s', w')
             else input_read_exact os (filled @ bs) (drop (length bs) buf) s' w'
         | (Err e, s', w') \<Rightarrow>
             if e = Interrupted then input_read_exact os filled buf s' w'
             else Some (Err e, filled @ buf, s', w')
         | (Panic, s', w') \<Rightarrow> Some (Panic, filled @ buf, s', w')))"

partial_function (option) output_write_all ::
  "'k os \<Rightarrow> output_stream \<Rightarrow> bytes \<Rightarrow> 'k world \<Rightarrow> ((error_kind, unit) outcome \<times> 'k world) option" where
  "output_write_all os out buf w =
     (if buf = [] then Some (Ok (), w)
      else
        (case output_write os out buf w of
           (Ok n, w') \<Rightarrow>
             if n = 0 then Some (Err WriteZero, w')
             else if length buf < n then Some (Panic, w')
             else output_write_all os out (drop n buf) w'
         | (Err e, w') \<Rightarrow>
             if e = Interrupted then output_write_all os out buf w' else Some (Err e, w')
         | (Panic, w') \<Rightarrow> Some (Panic, w')))"

declare input_read_exact.simps [code]
declare output_write_all.simps [code]

section \<open>Listeners\<close>

definition listener_from_uri ::
  "'k os \<Rightarrow> str \<Rightarrow> 'k world \<Rightarrow> (error_kind, listener) outcome \<times> 'k world" where
  "listener_from_uri os uri w =
     (if uri = STDIN then (Ok (LStdin False), w)
      else
        (case strip_prefix TCP_URI_PREFIX uri of
           Some addr \<Rightarrow> map_result LTcp (tcp_bind os addr w)
         | None \<Rightarrow>
             (case strip_prefix UNIX_SOCKET_URI_PREFIX uri of
                Some path \<Rightarrow>
                  (case remove_file os path w of
                     (Err e, w') \<Rightarrow>
                       if e = NotFound then map_result LUnix (unix_bind os path w') else (Err e, w')
                   | (Panic, w') \<Rightarrow> (Panic, w')
                   | (Ok _, w') \<Rightarrow> map_result LUnix (unix_bind os path w'))
              | None \<Rightarrow>
                  (case strip_prefix AF_PACKET_SOCKET_URI_PREFIX uri of
                     Some interface_name \<Rightarrow> (Ok (LRaw interface_name), w)
                   | None \<Rightarrow> (Err InvalidInput, w)))))"

text \<open>\<open>Incoming\<close> holds nothing but its listener; \<open>Listener::incoming\<close> makes one.\<close>

type_synonym incoming = listener

definition listener_incoming :: "listener \<Rightarrow> incoming" where
  [simp]: "listener_incoming l = l"

text \<open>
  \<open>Incoming::next\<close>. The inner option is the one of the source; the outer is \<open>None\<close> when the call
  never returns.
\<close>

fun incoming_next ::
  "'k os \<Rightarrow> listener \<Rightarrow> 'k world \<Rightarrow>
   ((error_kind, input_stream) outcome option \<times> listener \<times> 'k world) option" where
  "incoming_next os (LStdin is_closed) w =
     Some (if is_closed then (None, LStdin True, w)
           else (Some (Ok (Stdin (std_input w))), LStdin True, w))"
| "incoming_next os (LTcp []) w = None"
| "incoming_next os (LTcp (a # as)) w =
     Some (Some (case a of Inl e \<Rightarrow> Err e | Inr inp \<Rightarrow> Ok (InTcp inp)), LTcp as, w)"
| "incoming_next os (LUnix []) w = None"
| "incoming_next os (LUnix (a # as)) w =
     Some (Some (case a of Inl e \<Rightarrow> Err e | Inr inp \<Rightarrow> Ok (InUnix inp)), LUnix as, w)"
| "incoming_next os (LRaw interface_name) w =
     Some (case on_kernel (raw_socket_new (os_libc os) interface_name) w of
        (Ok s, w1) \<Rightarrow>
          (case map_result InRaw (on_kernel (raw_socket_bind (os_libc os) s) w1) of
             (r, w2) \<Rightarrow> (Some r, LRaw interface_name, w2))
      | (Err e, w1) \<Rightarrow> (Some (Err e), LRaw interface_name, w1)
      | (Panic, w1) \<Rightarrow> (Some Panic, LRaw interface_name, w1))"

text \<open>The first \<open>n\<close> results of the iterator.\<close>

primrec incoming_take ::
  "'k os \<Rightarrow> nat \<Rightarrow> listener \<Rightarrow> 'k world \<Rightarrow>
   ((error_kind, input_stream) outcome option list \<times> listener \<times> 'k world) option" where
  "incoming_take os 0 l w = Some ([], l, w)"
| "incoming_take os (Suc n) l w =
     (case incoming_next os l w of
        None \<Rightarrow> None
      | Some (x, l', w') \<Rightarrow> map_option (\<lambda>(xs, r). (x # xs, r)) (incoming_take os n l' w'))"

text \<open>
  A system for the examples: connections are refused except to one address, the socket files that
  exist are the names in \<open>tab_ifaces\<close>, and binding needs a fresh name.
\<close>

definition table_os :: "fd_table os" where
  "table_os =
     \<lparr>os_libc = table_libc,
      tcp_connect = (\<lambda>a w. (if a = [49] then Ok 1 else Err ConnectionRefused, w)),
      unix_connect = (\<lambda>a w. (if a = [49] then Ok 2 else Err NotFound, w)),
      clone_handle = (\<lambda>i w. (Ok (), w)),
      tcp_bind = (\<lambda>a w. (Ok [], w)),
      unix_bind = (\<lambda>a w.
        if a \<in> set (tab_ifaces (kernel w)) then (Err Other, w)
        else (Ok [], w\<lparr>kernel := (kernel w)\<lparr>tab_ifaces := a # tab_ifaces (kernel w)\<rparr>\<rparr>)),
      remove_file = (\<lambda>a w.
        if a \<in> set (tab_ifaces (kernel w))
        then (Ok (), w\<lparr>kernel := (kernel w)\<lparr>tab_ifaces := removeAll a (tab_ifaces (kernel w))\<rparr>\<rparr>)
        else (Err NotFound, w))\<rparr>"

text \<open>Nothing written yet, nothing to read, no descriptor open.\<close>

definition idle_world :: "fd_table world" where
  "idle_world = \<lparr>out_streams = (\<lambda>_. \<lparr>writes = [], wscript = []\<rparr>), std_input = [],
     kernel = \<lparr>tab_open = [], tab_next = 3, tab_ifaces = []\<rparr>\<rparr>"

section \<open>Lemmas\<close>

lemma strip_prefix_append [simp]: "strip_prefix p (p @ s) = Some s"
  by (simp add: strip_prefix_def)

lemma strip_prefix_Some_iff: "strip_prefix p s = Some t \<longleftrightarrow> s = p @ t"
  by (auto simp: strip_prefix_def) (metis append_take_drop_id)

lemma uri_bytes:
  "STDIN = [45]" "STDOUT = [45]"
  "TCP_URI_PREFIX = [116, 99, 112, 58, 47, 47]"
  "UNIX_SOCKET_URI_PREFIX = [117, 110, 105, 120, 58, 47, 47]"
  "AF_PACKET_SOCKET_URI_PREFIX = [97, 102, 95, 112, 97, 99, 107, 101, 116, 58, 47, 47]"
  by code_simp+

text \<open>The forms of a URI exclude each other.\<close>

lemma uri_disjoint:
  "strip_prefix TCP_URI_PREFIX (UNIX_SOCKET_URI_PREFIX @ s) = None"
  "strip_prefix TCP_URI_PREFIX (AF_PACKET_SOCKET_URI_PREFIX @ s) = None"
  "strip_prefix UNIX_SOCKET_URI_PREFIX (AF_PACKET_SOCKET_URI_PREFIX @ s) = None"
  "TCP_URI_PREFIX @ s \<noteq> [45]" "UNIX_SOCKET_URI_PREFIX @ s \<noteq> [45]"
  "AF_PACKET_SOCKET_URI_PREFIX @ s \<noteq> [45]"
  by (simp_all add: strip_prefix_def uri_bytes)

lemma strip_prefix_None_iff: "strip_prefix p s = None \<longleftrightarrow> (\<forall>t. s \<noteq> p @ t)"
  by (metis not_None_eq strip_prefix_Some_iff)

text \<open>
  Streams other than raw sockets: the number of the output stream, the script of the input
  stream. On these, reading and writing always return, with the results of the scripts.
\<close>

fun stream_no :: "output_stream \<Rightarrow> nat option" where
  "stream_no Stdout = Some 0"
| "stream_no (OutTcp i) = Some i"
| "stream_no (OutUnix i) = Some i"
| "stream_no (OutRaw _) = None"

fun stream_script :: "input_stream \<Rightarrow> in_stream option" where
  "stream_script (Stdin inp) = Some inp"
| "stream_script (InTcp inp) = Some inp"
| "stream_script (InUnix inp) = Some inp"
| "stream_script (InRaw _) = None"

definition set_stream :: "nat \<Rightarrow> out_stream \<Rightarrow> 'k world \<Rightarrow> 'k world" where
  "set_stream i s w = w\<lparr>out_streams := (out_streams w)(i := s)\<rparr>"

lemma set_stream_simps [simp]:
  "out_streams (set_stream i s w) j = (if j = i then s else out_streams w j)"
  "set_stream i s (set_stream i t w) = set_stream i s w"
  "set_stream i (out_streams w i) w = w"
  "kernel (set_stream i s w) = kernel w" "std_input (set_stream i s w) = std_input w"
  by (simp_all add: set_stream_def)

lemma output_write_stream:
  "stream_no out = Some i \<Longrightarrow> output_write os out buf w =
     (case writer_write buf (out_streams w i) of
        (r, s) \<Rightarrow> (case r of Inl e \<Rightarrow> Err e | Inr n \<Rightarrow> Ok n, set_stream i s w))"
  by (cases out) (simp_all add: stream_write_def set_stream_def)

lemma output_drop_stream [simp]: "stream_no out = Some i \<Longrightarrow> output_drop os out w = w"
  by (cases out) simp_all

lemma input_drop_stream [simp]: "stream_script s = Some inp \<Longrightarrow> input_drop os s w = w"
  by (cases s) simp_all

lemma writer_write_le: "writer_write buf s = (Inr n, s') \<Longrightarrow> n \<le> length buf"
  by (auto simp: writer_write_def split: list.splits write_event.splits)

lemma output_write_all_stream:
  assumes "stream_no out = Some i"
  shows "output_write_all os out buf w =
    Some (fst (write_all buf (out_streams w i)), set_stream i (snd (write_all buf (out_streams w i))) w)"
proof -
  note out = output_write_stream [OF assms]
  have "out_streams w i = t \<Longrightarrow>
    output_write_all os out buf w = Some (fst (write_all buf t), set_stream i (snd (write_all buf t)) w)" for t
  proof (induction buf t arbitrary: w rule: write_all.induct)
    case (1 buf t)
    obtain r s where r: "writer_write buf t = (r, s)" by fastforce
    note unf = output_write_all.simps [of os out buf w] write_all.simps [of buf t]
    show ?case
    proof (cases "buf = []")
      case True
      then show ?thesis using "1.prems" unf by auto
    next
      case False
      then show ?thesis
      proof (cases r)
        case (Inl e)
        then show ?thesis using "1.IH"(1) [OF False r [symmetric] Inl, of "set_stream i s w"] "1.prems" False r
          by (simp add: unf out)
      next
        case (Inr n)
        then show ?thesis using "1.IH"(2) [OF False r [symmetric] Inr, of "set_stream i s w"] "1.prems" False r
            writer_write_le [of buf t n s]
          by (simp add: unf out)
      qed
    qed
  qed
  then show ?thesis by simp
qed

lemma input_read_script:
  assumes "stream_script s = Some inp" "reader_read n inp = (r, st, inp')"
  shows "\<exists>s'. stream_script s' = Some inp' \<and>
    input_read os s n w = (case r of Inl e \<Rightarrow> Err e | Inr bs \<Rightarrow> Ok bs, s', w)"
  using assms by (cases s) (auto simp: script_read_def)

lemma reader_read_le: "reader_read n inp = (Inr bs, st, inp') \<Longrightarrow> length bs \<le> n"
  by (cases "(n, inp)" rule: reader_read.cases) (auto split: if_splits)

lemma input_read_exact_script:
  assumes "stream_script s = Some inp" "std_read_exact_loop filled buf inp = (r, b, inp')"
  shows "\<exists>s'. stream_script s' = Some inp' \<and> input_read_exact os filled buf s w = Some (r, b, s', w)"
  using assms
proof (induction filled buf inp arbitrary: s rule: std_read_exact_loop.induct)
  case (1 filled buf inp)
  obtain x st inp1 where x: "reader_read (length buf) inp = (x, st, inp1)" by (metis prod_cases3)
  obtain s1 where s1: "stream_script s1 = Some inp1"
      "input_read os s (length buf) w = (case x of Inl e \<Rightarrow> Err e | Inr bs \<Rightarrow> Ok bs, s1, w)"
    using input_read_script [OF 1(3) x] by blast
  show ?case
  proof (cases "buf = []")
    case True
    then show ?thesis using 1(3,4) by (auto simp: input_read_exact.simps std_read_exact_loop.simps)
  next
    case False
    note unf = input_read_exact.simps [of os filled buf s w]
    show ?thesis
    proof (cases x)
      case (Inl e)
      then show ?thesis
        using 1(1) [OF False x [symmetric] Inl refl] 1(4) False x s1 unf
        by (auto simp: std_read_exact_loop.simps [of filled buf inp] split: if_splits)
    next
      case (Inr bs)
      then show ?thesis
        using 1(2) [OF False x [symmetric] Inr refl] 1(4) False x s1 unf reader_read_le [of "length buf" inp bs st inp1]
        by (auto simp: std_read_exact_loop.simps [of filled buf inp] split: if_splits)
    qed
  qed
qed

lemma incoming_take_closed:
  "incoming_take os n (LStdin True) w = Some (replicate n None, LStdin True, w)"
  by (induction n) auto

lemma incoming_take_accepts:
  "n \<le> length as \<Longrightarrow> incoming_take os n (LTcp as) w =
     Some (map (\<lambda>a. Some (case a of Inl e \<Rightarrow> Err e | Inr inp \<Rightarrow> Ok (InTcp inp))) (take n as), LTcp (drop n as), w)"
  "length as < n \<Longrightarrow> incoming_take os n (LTcp as) w = None"
  "n \<le> length as \<Longrightarrow> incoming_take os n (LUnix as) w =
     Some (map (\<lambda>a. Some (case a of Inl e \<Rightarrow> Err e | Inr inp \<Rightarrow> Ok (InUnix inp))) (take n as), LUnix (drop n as), w)"
  "length as < n \<Longrightarrow> incoming_take os n (LUnix as) w = None"
proof (induction n arbitrary: as)
  case (Suc n)
  { case 1 then show ?case using Suc by (cases as) auto }
  { case 2 then show ?case using Suc by (cases as) auto }
  { case 3 then show ?case using Suc by (cases as) auto }
  { case 4 then show ?case using Suc by (cases as) auto }
qed auto

lemma incoming_take_raw:
  "\<exists>xs w'. incoming_take os n (LRaw i) w = Some (xs, LRaw i, w') \<and> length xs = n \<and> None \<notin> set xs"
proof (induction n arbitrary: w)
  case (Suc n)
  obtain x w1 where 1: "incoming_next os (LRaw i) w = Some (Some x, LRaw i, w1)"
    using that
    by (cases "on_kernel (raw_socket_new (os_libc os) i) w") (fastforce split: prod.splits outcome.splits)
  obtain xs w2 where 2: "incoming_take os n (LRaw i) w1 = Some (xs, LRaw i, w2)" "length xs = n" "None \<notin> set xs"
    using Suc by blast
  show ?case using 1 2 by (simp del: incoming_next.simps)
qed auto

section \<open>Properties\<close>

text \<open>
  Output URIs: \<open>-\<close> is the standard output; after \<open>tcp://\<close>, \<open>unix://\<close> and
  \<open>af_packet://\<close> the rest of the URI, whatever it is, is the address to connect to; every other
  URI is refused with \<open>InvalidInput\<close> without touching the world.
\<close>

lemma output_from_uri_forms:
  "output_from_uri os (ascii ''-'') w = (Ok Stdout, w) \<and>
   output_from_uri os (ascii ''tcp://'' @ a) w = map_result OutTcp (tcp_connect os a w) \<and>
   output_from_uri os (ascii ''unix://'' @ a) w = map_result OutUnix (unix_connect os a w) \<and>
   output_from_uri os (ascii ''af_packet://'' @ a) w =
     map_result OutRaw (on_kernel (raw_socket_new (os_libc os) a) w) \<and>
   ((uri \<noteq> ascii ''-'' \<and> (\<forall>a. uri \<noteq> ascii ''tcp://'' @ a) \<and> (\<forall>a. uri \<noteq> ascii ''unix://'' @ a) \<and>
     (\<forall>a. uri \<noteq> ascii ''af_packet://'' @ a)) \<longrightarrow> output_from_uri os uri w = (Err InvalidInput, w))"
proof -
  have "output_from_uri os (ascii ''-'') w = (Ok Stdout, w)"
    by (simp add: output_from_uri_def STDOUT_def)
  moreover have "output_from_uri os (TCP_URI_PREFIX @ a) w = map_result OutTcp (tcp_connect os a w)"
    using uri_disjoint by (simp add: output_from_uri_def uri_bytes(2))
  moreover have "output_from_uri os (UNIX_SOCKET_URI_PREFIX @ a) w = map_result OutUnix (unix_connect os a w)"
    using uri_disjoint by (simp add: output_from_uri_def uri_bytes(2))
  moreover have "output_from_uri os (AF_PACKET_SOCKET_URI_PREFIX @ a) w =
      map_result OutRaw (on_kernel (raw_socket_new (os_libc os) a) w)"
    using uri_disjoint by (simp add: output_from_uri_def uri_bytes(2))
  moreover have "output_from_uri os uri w = (Err InvalidInput, w)"
    if "uri \<noteq> STDOUT" "\<forall>a. uri \<noteq> TCP_URI_PREFIX @ a" "\<forall>a. uri \<noteq> UNIX_SOCKET_URI_PREFIX @ a"
      "\<forall>a. uri \<noteq> AF_PACKET_SOCKET_URI_PREFIX @ a"
    using that by (simp add: output_from_uri_def flip: strip_prefix_None_iff)
  ultimately show ?thesis
    by (simp add: TCP_URI_PREFIX_def UNIX_SOCKET_URI_PREFIX_def AF_PACKET_SOCKET_URI_PREFIX_def STDOUT_def)
qed

text \<open>
  What a listener yields. The standard input is yielded once and the iteration then ends for
  good; TCP and Unix listeners yield the accepted connections and the errors of \<open>accept\<close> in
  order and never end, so that asking for more waits forever; a raw interface yields a result
  every time and never ends.
\<close>

lemma incoming_streams:
  "incoming_take os (Suc n) (LStdin False) w =
     Some (Some (Ok (Stdin (std_input w))) # replicate n None, LStdin True, w) \<and>
   incoming_take os n (LTcp as) w =
     (if n \<le> length as
      then Some (map (\<lambda>a. Some (case a of Inl e \<Rightarrow> Err e | Inr inp \<Rightarrow> Ok (InTcp inp))) (take n as),
                 LTcp (drop n as), w)
      else None) \<and>
   incoming_take os n (LUnix as) w =
     (if n \<le> length as
      then Some (map (\<lambda>a. Some (case a of Inl e \<Rightarrow> Err e | Inr inp \<Rightarrow> Ok (InUnix inp))) (take n as),
                 LUnix (drop n as), w)
      else None) \<and>
   (\<exists>xs w'. incoming_take os n (LRaw i) w = Some (xs, LRaw i, w') \<and> length xs = n \<and> None \<notin> set xs)"
  using incoming_take_closed [of os n w] incoming_take_accepts [where n = n and as = as and os = os and w = w] incoming_take_raw [of os n i w]
  by auto

text \<open>
  A stale socket file does not keep a Unix listener from starting, under what the system
  documents: \<open>remove_file\<close> removes a file that exists, or fails with an error other than
  \<open>NotFound\<close> (no permission, a directory) and leaves it, and reports \<open>NotFound\<close> when there is
  none. The address is bound only when the file is gone; a file that cannot be removed stays and
  its error is returned.
\<close>

lemma unix_listener_replaces:
  assumes "\<And>p w r w'. remove_file os p w = (r, w') \<Longrightarrow>
      (exists p w \<and> r = Ok () \<and> \<not> exists p w') \<or>
      (exists p w \<and> (\<exists>e. r = Err e \<and> e \<noteq> NotFound) \<and> w' = w) \<or>
      (\<not> exists p w \<and> r = Err NotFound \<and> w' = w)"
    and "remove_file os path w = (r, w')"
  shows "if exists path w'
    then \<exists>e. e \<noteq> NotFound \<and> r = Err e \<and> exists path w \<and>
           listener_from_uri os (ascii ''unix://'' @ path) w = (Err e, w)
    else listener_from_uri os (ascii ''unix://'' @ path) w = map_result LUnix (unix_bind os path w')"
proof -
  have "listener_from_uri os (UNIX_SOCKET_URI_PREFIX @ path) w =
      (case remove_file os path w of
         (Err e, w') \<Rightarrow> if e = NotFound then map_result LUnix (unix_bind os path w') else (Err e, w')
       | (Panic, w') \<Rightarrow> (Panic, w')
       | (Ok _, w') \<Rightarrow> map_result LUnix (unix_bind os path w'))"
    using uri_disjoint by (simp add: listener_from_uri_def uri_bytes(1))
  then show ?thesis using assms(1) [OF assms(2)] assms(2) by (auto simp flip: UNIX_SOCKET_URI_PREFIX_def)
qed

end
