(* ===== verification/Protocol.thy ===== *)
theory Protocol
  imports Utf8 Big_Endian
begin

text \<open>
  The model of \<open>garuda-file-transfer/src/protocol.rs\<close>: the header that precedes every chunk
  of a file, its serialisation and its parsing.

  \<open>Uuid\<close> comes from the crate \<open>uuid\<close>, which is a parameter: a record with the two
  operations the code calls. \<open>uuid_ok\<close> is what the crate documents of them.
\<close>

section \<open>The header\<close>

record ('uuid, 'ue) uuid_lib =
  as_bytes :: "'uuid \<Rightarrow> bytes"
  from_slice :: "bytes \<Rightarrow> ('ue, 'uuid) outcome"

definition uuid_ok :: "('uuid, 'ue) uuid_lib \<Rightarrow> bool" where
  "uuid_ok U \<longleftrightarrow> (\<forall>u. length (as_bytes U u) = 16 \<and> from_slice U (as_bytes U u) = Ok u)"

definition FILE_NAME_LEN :: usize where
  "FILE_NAME_LEN = 256"

definition DATAGRAM_HEADER_LEN :: usize where
  "DATAGRAM_HEADER_LEN = 16 + 8 + 8 + 4 + FILE_NAME_LEN"

record 'uuid datagram_header =
  file_id :: 'uuid
  file_length :: u64
  chunk_offset :: u64
  payload_length :: u32
  file_name :: str

text \<open>The position that \<open>Utf8Error\<close> carries is only ever printed, and left out.\<close>

datatype 'ue header_error = BufferTooSmall | InvalidUuid 'ue | InvalidUtf8

text \<open>
  Its \<open>Display\<close>; the texts of the errors of \<open>uuid\<close> and of \<open>str::from_utf8\<close> are arguments.
\<close>

fun header_error_to_string :: "('ue \<Rightarrow> string) \<Rightarrow> string \<Rightarrow> 'ue header_error \<Rightarrow> string" where
  "header_error_to_string show_uuid utf8_text BufferTooSmall = ''buffer too small''"
| "header_error_to_string show_uuid utf8_text (InvalidUuid e) = ''invalid UUID: '' @ show_uuid e"
| "header_error_to_string show_uuid utf8_text InvalidUtf8 = ''file name contains invalid UTF-8: '' @ utf8_text"

text \<open>\<open>impl From<uuid::Error> for DatagramHeaderDeserializationError\<close>.\<close>

definition header_from_uuid_error :: "'ue \<Rightarrow> 'ue header_error" where
  [simp]: "header_from_uuid_error e = InvalidUuid e"

text \<open>\<open>impl From<Utf8Error> for DatagramHeaderDeserializationError\<close>; a \<open>Utf8Error\<close> holds positions that only its text uses.\<close>

definition header_from_utf8_error :: "'ue header_error" where
  [simp]: "header_from_utf8_error = InvalidUtf8"

definition datagram_header_new ::
  "'uuid \<Rightarrow> str \<Rightarrow> u64 \<Rightarrow> u64 \<Rightarrow> u32 \<Rightarrow> 'uuid datagram_header" where
  "datagram_header_new fid name flen off plen =
     \<lparr>file_id = fid, file_length = flen, chunk_offset = off, payload_length = plen,
      file_name = name\<rparr>"

section \<open>Serialisation\<close>

text \<open>The name on the wire: truncated, then without white space.\<close>

definition name_bytes :: "str \<Rightarrow> bytes or_panic" where
  "name_bytes name =
     bind_outcome (truncate_utf8 name FILE_NAME_LEN)
       (\<lambda>t. Ok (encode_utf8 (filter (\<lambda>c. \<not> is_whitespace c) (str_chars t))))"

definition serialize :: "('uuid, 'ue) uuid_lib \<Rightarrow> 'uuid datagram_header \<Rightarrow> bytes or_panic" where
  "serialize U h =
     bind_outcome (name_bytes (file_name h)) (\<lambda>nb.
       Ok (as_bytes U (file_id h) @ to_be_bytes 8 (file_length h) @
           to_be_bytes 8 (chunk_offset h) @ to_be_bytes 4 (payload_length h) @
           nb @ replicate (usize_sub FILE_NAME_LEN (length nb)) 0))"

section \<open>Parsing\<close>

text \<open>\<open>&buf[a..b]\<close>, which panics out of range.\<close>

definition byte_slice :: "bytes \<Rightarrow> usize \<Rightarrow> usize \<Rightarrow> bytes or_panic" where
  "byte_slice buf a b = (if a \<le> b \<and> b \<le> length buf then Ok (take (b - a) (drop a buf)) else Panic)"

text \<open>\<open>from_be_bytes(buf[off..off + w].try_into().map_err(..)?)\<close>.\<close>

definition read_be ::
  "bytes \<Rightarrow> usize \<Rightarrow> usize \<Rightarrow> ('ue header_error, 'a::len word) outcome" where
  "read_be buf off w =
     bind_panic (byte_slice buf off (off + w)) (\<lambda>s.
       if length s = w then Ok (from_be_bytes s) else Err BufferTooSmall)"

text \<open>\<open>iter().position(p)\<close>.\<close>

fun position :: "('a \<Rightarrow> bool) \<Rightarrow> 'a list \<Rightarrow> nat option" where
  "position p [] = None"
| "position p (x # xs) = (if p x then Some 0 else map_option Suc (position p xs))"

definition read_name :: "bytes \<Rightarrow> usize \<Rightarrow> ('ue header_error, str) outcome" where
  "read_name buf off =
     bind_panic (byte_slice buf off (off + FILE_NAME_LEN)) (\<lambda>raw_name.
       bind_panic
         (byte_slice raw_name 0
            (case position (\<lambda>b. b = 0) raw_name of Some e \<Rightarrow> e | None \<Rightarrow> FILE_NAME_LEN))
         (\<lambda>name. if valid_utf8 name then Ok name else Err header_from_utf8_error))"

definition deserialize ::
  "('uuid, 'ue) uuid_lib \<Rightarrow> bytes \<Rightarrow> ('ue header_error, 'uuid datagram_header) outcome" where
  "deserialize U buf =
     (if length buf < DATAGRAM_HEADER_LEN then Err BufferTooSmall
      else
        bind_outcome
          (bind_panic (byte_slice buf 0 16) (\<lambda>s. map_err header_from_uuid_error (from_slice U s))) (\<lambda>fid.
        bind_outcome (read_be buf 16 8) (\<lambda>flen.
        bind_outcome (read_be buf 24 8) (\<lambda>off.
        bind_outcome (read_be buf 32 4) (\<lambda>plen.
        bind_outcome (read_name buf 36) (\<lambda>name.
          Ok \<lparr>file_id = fid, file_length = flen, chunk_offset = off, payload_length = plen,
              file_name = name\<rparr>))))))"

section \<open>The name field\<close>

lemma position_takeWhile:
  "length xs = n \<Longrightarrow>
   (case position p xs of Some e \<Rightarrow> e | None \<Rightarrow> n) = length (takeWhile (\<lambda>x. \<not> p x) xs)"
  by (induction xs arbitrary: n) (auto split: option.splits)

lemma zero_byte_in_char:
  assumes "is_scalar c"
  shows "0 \<in> set (encode_char c) \<longleftrightarrow> c = 0"
  using ascii_in_char [OF assms, of 0] by (simp add: byte_of_def)

lemma takeWhile_encode:
  assumes "list_all is_scalar cs"
  shows "takeWhile (\<lambda>b. b \<noteq> 0) (encode_utf8 cs @ replicate p 0) =
    encode_utf8 (takeWhile (\<lambda>c. c \<noteq> 0) cs)"
  using assms
proof (induction cs)
  case Nil
  then show ?case by (cases p) auto
next
  case (Cons c cs)
  show ?case
  proof (cases "c = 0")
    case True
    then show ?thesis by (simp add: encode_char_def byte_of_def)
  next
    case False
    then have "\<And>b. b \<in> set (encode_char c) \<Longrightarrow> b \<noteq> 0"
      using zero_byte_in_char [of c] Cons.prems by auto
    then show ?thesis using False Cons by (simp add: takeWhile_append2)
  qed
qed

text \<open>The name a receiver sees.\<close>

definition wire_chars :: "str \<Rightarrow> rchar list" where
  "wire_chars name =
     (case truncate_utf8 name FILE_NAME_LEN of
        Ok t \<Rightarrow> filter (\<lambda>c. \<not> is_whitespace c) (str_chars t)
      | _ \<Rightarrow> [])"

definition wire_name :: "str \<Rightarrow> str" where
  "wire_name name = encode_utf8 (takeWhile (\<lambda>c. c \<noteq> 0) (wire_chars name))"

lemma str_chars_encode [simp]: "list_all is_scalar cs \<Longrightarrow> str_chars (encode_utf8 cs) = cs"
  by (simp add: str_chars_def utf8_chars_encode)

lemma list_all_filter: "list_all P xs \<Longrightarrow> list_all P (filter Q xs)"
  by (auto simp: list_all_iff)

lemma length_encode_filter: "length (encode_utf8 (filter P cs)) \<le> length (encode_utf8 cs)"
  by (induction cs) auto

lemma name_bytes_wire:
  assumes "valid_utf8 name"
  shows "name_bytes name = Ok (encode_utf8 (wire_chars name)) \<and> list_all is_scalar (wire_chars name) \<and>
    length (encode_utf8 (wire_chars name)) \<le> FILE_NAME_LEN"
proof -
  obtain cs where cs: "list_all is_scalar cs" "name = encode_utf8 cs"
    using assms by (auto simp: valid_utf8_iff)
  obtain k where "truncate_utf8 name FILE_NAME_LEN = Ok (encode_utf8 (take k cs))"
      "length (encode_utf8 (take k cs)) \<le> FILE_NAME_LEN"
    using truncate_utf8_prefix [OF cs(1)] cs(2) by blast
  moreover have "list_all is_scalar (take k cs)" using cs(1) by (rule list_all_take)
  ultimately show ?thesis
    using length_encode_filter [of "\<lambda>c. \<not> is_whitespace c" "take k cs"]
    by (simp add: name_bytes_def wire_chars_def list_all_filter)
qed

lemma read_name_encode:
  assumes "list_all is_scalar cs" "length (encode_utf8 cs) \<le> FILE_NAME_LEN" "length pre = off"
  shows "read_name (pre @ (encode_utf8 cs @ replicate (FILE_NAME_LEN - length (encode_utf8 cs)) 0) @ rest) off =
    Ok (encode_utf8 (takeWhile (\<lambda>c. c \<noteq> 0) cs))"
proof -
  let ?raw = "encode_utf8 cs @ replicate (FILE_NAME_LEN - length (encode_utf8 cs)) 0"
  let ?name = "encode_utf8 (takeWhile (\<lambda>c. c \<noteq> 0) cs)"
  have len: "length ?raw = FILE_NAME_LEN" using assms(2) by simp
  have tw: "takeWhile (\<lambda>b. b \<noteq> 0) ?raw = ?name" by (rule takeWhile_encode [OF assms(1)])
  have "(case position (\<lambda>b. b = 0) ?raw of Some e \<Rightarrow> e | None \<Rightarrow> FILE_NAME_LEN) = length ?name"
    by (simp only: position_takeWhile [OF len] tw)
  moreover have "byte_slice ?raw 0 (length ?name) = Ok ?name"
    using length_takeWhile_le [of "\<lambda>b. b \<noteq> 0" ?raw] takeWhile_eq_take [of "\<lambda>b. b \<noteq> 0" ?raw]
    unfolding tw byte_slice_def by simp
  moreover have "byte_slice (pre @ ?raw @ rest) off (off + FILE_NAME_LEN) = Ok ?raw"
    using assms(3) len by (simp add: byte_slice_def)
  moreover have "valid_utf8 ?name"
    using assms(1) by (auto simp: valid_utf8_iff list_all_iff dest: set_takeWhileD)
  ultimately show ?thesis
    by (simp only: read_name_def bind_panic.simps if_True)
qed

section \<open>Round trip\<close>

lemma header_len: "DATAGRAM_HEADER_LEN = 292" "FILE_NAME_LEN = 256"
  by (simp_all add: DATAGRAM_HEADER_LEN_def FILE_NAME_LEN_def)

lemma serialize_layout:
  assumes "uuid_ok U" "valid_utf8 (file_name h)"
  shows "serialize U h =
    Ok (as_bytes U (file_id h) @ to_be_bytes 8 (file_length h) @ to_be_bytes 8 (chunk_offset h) @
        to_be_bytes 4 (payload_length h) @ encode_utf8 (wire_chars (file_name h)) @
        replicate (FILE_NAME_LEN - length (encode_utf8 (wire_chars (file_name h)))) 0)"
  using name_bytes_wire [OF assms(2)]
  by (simp add: serialize_def usize_sub_exact FILE_NAME_LEN_def)

lemma serialize_length:
  assumes "uuid_ok U" "valid_utf8 (file_name h)"
  shows "\<exists>buf. serialize U h = Ok buf \<and> length buf = DATAGRAM_HEADER_LEN"
  using serialize_layout [OF assms] name_bytes_wire [OF assms(2)] assms(1)
  by (simp add: uuid_ok_def header_len)

lemma read_be_field:
  fixes put :: "'a::len word \<Rightarrow> bytes"
  assumes "field_codec put from_be_bytes w" "length pre = off"
  shows "read_be (pre @ put x @ post) off w = Ok x"
  using field_codec.field_slice [OF assms, of x post] field_codec.get_put [OF assms(1), of x]
    field_codec.length_put [OF assms(1), of x] assms(2)
  by (simp add: read_be_def byte_slice_def)

lemmas read_be_u64 = read_be_field [OF u64_be.field_codec_axioms]
lemmas read_be_u32 = read_be_field [OF u32_be.field_codec_axioms]

lemma deserialize_serialize:
  fixes U :: "('uuid, 'ue) uuid_lib"
  assumes "uuid_ok U" "valid_utf8 (file_name h)" "serialize U h = Ok buf"
  shows "deserialize U (buf @ rest) = Ok (h\<lparr>file_name := wire_name (file_name h)\<rparr>)"
proof -
  let ?id = "as_bytes U (file_id h)" and ?len = "to_be_bytes 8 (file_length h)"
    and ?off = "to_be_bytes 8 (chunk_offset h)" and ?pl = "to_be_bytes 4 (payload_length h)"
    and ?cs = "wire_chars (file_name h)"
  let ?nm = "encode_utf8 ?cs @ replicate (FILE_NAME_LEN - length (encode_utf8 ?cs)) 0"
  have buf: "buf @ rest = ?id @ ?len @ ?off @ ?pl @ ?nm @ rest"
    using serialize_layout [OF assms(1,2)] assms(3) by simp
  have id: "length ?id = 16" "from_slice U ?id = Ok (file_id h)"
    using assms(1) by (simp_all add: uuid_ok_def)
  have nm: "list_all is_scalar ?cs" "length (encode_utf8 ?cs) \<le> FILE_NAME_LEN"
    using name_bytes_wire [OF assms(2)] by simp_all
  have "byte_slice (buf @ rest) 0 16 = Ok ?id"
    using id by (simp add: buf byte_slice_def)
  moreover have "(read_be (buf @ rest) 16 8 :: ('ue header_error, u64) outcome) = Ok (file_length h)"
    using read_be_u64 [of ?id 16 "file_length h" "?off @ ?pl @ ?nm @ rest"] id by (simp add: buf)
  moreover have "(read_be (buf @ rest) 24 8 :: ('ue header_error, u64) outcome) = Ok (chunk_offset h)"
    using read_be_u64 [of "?id @ ?len" 24 "chunk_offset h" "?pl @ ?nm @ rest"] id by (simp add: buf)
  moreover have "(read_be (buf @ rest) 32 4 :: ('ue header_error, u32) outcome) = Ok (payload_length h)"
    using read_be_u32 [of "?id @ ?len @ ?off" 32 "payload_length h" "?nm @ rest"] id by (simp add: buf)
  moreover have "(read_name (buf @ rest) 36 :: ('ue header_error, str) outcome) = Ok (wire_name (file_name h))"
    using read_name_encode [OF nm, of "?id @ ?len @ ?off @ ?pl" 36 rest] id
    by (simp add: buf wire_name_def)
  moreover have "\<not> length (buf @ rest) < DATAGRAM_HEADER_LEN"
    using serialize_length [OF assms(1,2)] assms(3) by auto
  ultimately show ?thesis using id by (simp add: deserialize_def)
qed

section \<open>Properties\<close>

lemma wire_name_plain:
  assumes "list_all is_scalar cs" "length (encode_utf8 cs) \<le> FILE_NAME_LEN"
    and "list_all (\<lambda>c. c \<noteq> 0 \<and> \<not> is_whitespace c) cs"
  shows "wire_name (encode_utf8 cs) = encode_utf8 cs"
proof -
  have "filter (\<lambda>c. \<not> is_whitespace c) cs = cs"
    using assms(3) by (auto simp: list_all_iff filter_id_conv)
  moreover have "takeWhile (\<lambda>c. c \<noteq> 0) cs = cs"
    using assms(3) by (auto simp: list_all_iff takeWhile_eq_all_conv)
  ultimately show ?thesis
    using assms(1,2) unfolding wire_name_def wire_chars_def truncate_utf8_def
    by (simp del: takeWhile_eq_all_conv)
qed

lemma byte_slice_Ok: "a \<le> b \<Longrightarrow> b \<le> length buf \<Longrightarrow> byte_slice buf a b = Ok (take (b - a) (drop a buf))"
  by (simp add: byte_slice_def)

lemma read_be_Ok: "off + w \<le> length buf \<Longrightarrow> \<exists>x. read_be buf off w = Ok x"
  by (simp add: read_be_def byte_slice_Ok)

lemma read_name_cases:
  assumes "off + FILE_NAME_LEN \<le> length buf"
  shows "(read_name buf off :: ('ue header_error, str) outcome) = Err InvalidUtf8 \<or>
    (\<exists>name. (read_name buf off :: ('ue header_error, str) outcome) = Ok name \<and> valid_utf8 name \<and> length name \<le> FILE_NAME_LEN \<and>
       0 \<notin> set name)"
proof -
  define raw where "raw = take FILE_NAME_LEN (drop off buf)"
  have len: "length raw = FILE_NAME_LEN" using assms by (simp add: raw_def)
  let ?n = "length (takeWhile (\<lambda>b. b \<noteq> 0) raw)"
  have "byte_slice raw 0 ?n = Ok (takeWhile (\<lambda>b. b \<noteq> 0) raw)"
    using length_takeWhile_le [of _ raw] by (simp add: byte_slice_Ok flip: takeWhile_eq_take)
  then have "(read_name buf off :: ('ue header_error, str) outcome) =
      (let name = takeWhile (\<lambda>b. b \<noteq> 0) raw in if valid_utf8 name then Ok name else Err InvalidUtf8)"
    using assms by (simp add: read_name_def byte_slice_Ok [of off] position_takeWhile [OF len] Let_def
        flip: raw_def)
  moreover have "0 \<notin> set (takeWhile (\<lambda>b. b \<noteq> 0) raw)" by (auto dest: set_takeWhileD)
  ultimately show ?thesis using length_takeWhile_le [of "\<lambda>b. b \<noteq> 0" raw] len by (simp add: Let_def)
qed

lemma valid_wire_name:
  assumes "valid_utf8 name"
  shows "valid_utf8 (wire_name name) \<and> length (wire_name name) \<le> FILE_NAME_LEN"
proof -
  note nm = name_bytes_wire [OF assms]
  let ?cs = "takeWhile (\<lambda>c. c \<noteq> 0) (wire_chars name)"
  have "list_all is_scalar ?cs" using nm by (auto simp: list_all_iff dest: set_takeWhileD)
  moreover have "prefix (encode_utf8 ?cs) (encode_utf8 (wire_chars name))"
    using encode_utf8_take_prefix [of "length ?cs" "wire_chars name"] by (simp flip: takeWhile_eq_take)
  ultimately show ?thesis
    using nm prefix_length_le by (auto simp: wire_name_def valid_utf8_iff dest: prefix_length_le)
qed

text \<open>A concrete \<open>Uuid\<close>: 128 bits, written in network order.\<close>

definition uuid128 :: "(128 word, unit) uuid_lib" where
  "uuid128 = \<lparr>as_bytes = to_be_bytes 16,
     from_slice = (\<lambda>s. if length s = 16 then Ok (from_be_bytes s) else Err ())\<rparr>"

interpretation uuid_be: field_codec "to_be_bytes 16 :: 128 word \<Rightarrow> bytes" from_be_bytes 16
  by unfold_locales (simp_all add: from_to_be_bytes)

lemma uuid128_ok: "uuid_ok uuid128"
  by (simp add: uuid_ok_def uuid128_def uuid_be.get_put)

text \<open>
  C24. Serialising a header succeeds and gives exactly \<open>DATAGRAM_HEADER_LEN\<close> bytes, and
  parsing a buffer that starts with them gives the header back: every numeric field and the
  identifier unchanged, and as the name the truncated name without white space, up to its
  first NUL character.
\<close>

theorem header_roundtrip:
  assumes "uuid_ok U" "valid_utf8 (file_name h)"
  shows "\<exists>buf. serialize U h = Ok buf \<and> length buf = DATAGRAM_HEADER_LEN \<and>
    deserialize U (buf @ rest) = Ok (h\<lparr>file_name := wire_name (file_name h)\<rparr>)"
  using serialize_length [OF assms] deserialize_serialize [OF assms] by blast

theorem header_roundtrip_witness:
  "\<exists>buf. serialize uuid128 (datagram_header_new 7 [0x61, 0x20, 0x62] 100 10 1) = Ok buf \<and>
     length buf = DATAGRAM_HEADER_LEN \<and>
     deserialize uuid128 (buf @ [9]) = Ok (datagram_header_new 7 [0x61, 0x62] 100 10 1)"
proof -
  let ?h = "datagram_header_new (7 :: 128 word) [0x61, 0x20, 0x62] 100 10 1"
  have "valid_utf8 (file_name ?h)" by code_simp
  moreover have "?h\<lparr>file_name := wire_name (file_name ?h)\<rparr> = datagram_header_new 7 [0x61, 0x62] 100 10 1"
    by code_simp
  ultimately show ?thesis using header_roundtrip [OF uuid128_ok, of ?h "[9]"] by simp
qed

text \<open>
  A header whose name has at most \<open>FILE_NAME_LEN\<close> bytes, no white space and no NUL is
  parsed back unchanged.
\<close>

lemma header_roundtrip_exact:
  assumes "uuid_ok U" "valid_utf8 (file_name h)" "length (file_name h) \<le> FILE_NAME_LEN"
    and "list_all (\<lambda>c. c \<noteq> 0 \<and> \<not> is_whitespace c) (str_chars (file_name h))"
  shows "\<exists>buf. serialize U h = Ok buf \<and> deserialize U buf = Ok h"
proof -
  obtain cs where "list_all is_scalar cs" "file_name h = encode_utf8 cs"
    using assms(2) by (auto simp: valid_utf8_iff)
  then have "wire_name (file_name h) = file_name h"
    using assms(3,4) wire_name_plain by simp
  moreover obtain buf where "serialize U h = Ok buf" using serialize_length [OF assms(1,2)] by blast
  ultimately show ?thesis
    using deserialize_serialize [OF assms(1,2), of buf "[]"] by simp
qed

text \<open>
  C25. Parsing is total on arbitrary bytes: if the \<open>Uuid\<close> constructor does not panic on a slice of
  16 bytes, no buffer makes \<open>deserialize\<close> panic, \<open>BufferTooSmall\<close> is reported for the short
  buffers and for no other, and an accepted name is well-formed UTF-8 of at most
  \<open>FILE_NAME_LEN\<close> bytes without NUL.
\<close>

theorem deserialize_total:
  fixes U :: "('uuid, 'ue) uuid_lib"
  assumes "\<And>s. length s = 16 \<Longrightarrow> from_slice U s \<noteq> Panic"
  shows "deserialize U buf \<noteq> Panic \<and>
    (deserialize U buf = Err BufferTooSmall \<longleftrightarrow> length buf < DATAGRAM_HEADER_LEN) \<and>
    (\<forall>h. deserialize U buf = Ok h \<longrightarrow>
       valid_utf8 (file_name h) \<and> length (file_name h) \<le> FILE_NAME_LEN \<and> 0 \<notin> set (file_name h))"
proof (cases "length buf < DATAGRAM_HEADER_LEN")
  case True
  then show ?thesis by (simp add: deserialize_def)
next
  case False
  then have len: "292 \<le> length buf" by (simp add: header_len)
  have "\<exists>x. (read_be buf 16 8 :: ('ue header_error, u64) outcome) = Ok x"
      "\<exists>x. (read_be buf 24 8 :: ('ue header_error, u64) outcome) = Ok x"
      "\<exists>x. (read_be buf 32 4 :: ('ue header_error, u32) outcome) = Ok x"
    using len by (auto intro: read_be_Ok)
  then obtain a b c where rd: "(read_be buf 16 8 :: ('ue header_error, u64) outcome) = Ok a"
      "(read_be buf 24 8 :: ('ue header_error, u64) outcome) = Ok b"
      "(read_be buf 32 4 :: ('ue header_error, u32) outcome) = Ok c"
    by blast
  have sl: "byte_slice buf 0 16 = Ok (take 16 buf)" using len by (simp add: byte_slice_Ok)
  have "from_slice U (take 16 buf) \<noteq> Panic" using assms len by simp
  then show ?thesis using False rd sl read_name_cases [of 36 buf, where 'ue = 'ue] len
    by (cases "from_slice U (take 16 buf)") (auto simp: deserialize_def header_len)
qed

theorem deserialize_total_witness:
  "deserialize uuid128 [1, 2, 3] \<noteq> Panic \<and> deserialize uuid128 [1, 2, 3] = Err BufferTooSmall"
proof -
  have "from_slice uuid128 s \<noteq> Panic" for s by (simp add: uuid128_def)
  then show ?thesis using deserialize_total [of uuid128 "[1, 2, 3]"] by (simp add: header_len)
qed

end
