(* ===== verification/File_Transfer.thy ===== *)
theory File_Transfer
  imports Io_Stream Protocol
begin

text \<open>
  The model of \<open>garuda-file-transfer/src/transfer.rs\<close>: sending a file as a sequence of datagrams of
  one block each, and writing received datagrams into the files of a directory.

  What the file system answers is a parameter, the record \<open>host\<close>. The contents of the files the
  receiver writes are explicit, the record \<open>disk\<close>: a file is known by the identity \<open>'f\<close> that its
  path resolves to, and the single writes meet the events of a script.
\<close>

section \<open>Data\<close>

text \<open>\<open>Box<dyn Error>\<close>: the errors that the two functions put into it.\<close>

datatype transfer_error = TransferIo error_kind | TransferTryFromInt

record 'f host =
  metadata_len :: "str \<Rightarrow> error_kind + u64"
  file_open :: "str \<Rightarrow> error_kind + in_stream"
  create_dir_all :: "str \<Rightarrow> error_kind + unit"
  resolve :: "str \<Rightarrow> error_kind + 'f"

record 'f disk =
  disk_files :: "'f \<Rightarrow> bytes option"
  disk_script :: "write_event list"

section \<open>Paths\<close>

text \<open>The parts of a path between slashes.\<close>

fun path_parts :: "str \<Rightarrow> str list" where
  "path_parts [] = [[]]"
| "path_parts (b # bs) =
     (if b = 0x2F then [] # path_parts bs
      else (case path_parts bs of [] \<Rightarrow> [[b]] | p # ps \<Rightarrow> (b # p) # ps))"

text \<open>\<open>Path::file_name\<close>: empty parts and \<open>.\<close> do not count, a final \<open>..\<close> is no name.\<close>

definition path_file_name :: "str \<Rightarrow> str option" where
  "path_file_name path =
     (let ps = filter (\<lambda>p. p \<noteq> [] \<and> p \<noteq> [0x2E]) (path_parts path)
      in if ps = [] \<or> last ps = [0x2E, 0x2E] then None else Some (last ps))"

text \<open>\<open>Path::join\<close>: an absolute path replaces the base.\<close>

definition path_join :: "str \<Rightarrow> str \<Rightarrow> str" where
  "path_join base name =
     (if name \<noteq> [] \<and> hd name = 0x2F then name
      else if base = [] \<or> last base = 0x2F then base @ name
      else base @ [0x2F] @ name)"

text \<open>\<open>vec![0; n]\<close>: a capacity beyond \<open>isize::MAX\<close> panics.\<close>

definition zeroed_vec :: "usize \<Rightarrow> bytes or_panic" where
  "zeroed_vec n = (if int n < 2 ^ 63 then Ok (replicate n 0) else Panic)"

section \<open>Sending\<close>

text \<open>
  The loop of \<open>send\<close>: one read per datagram. A short read leaves the rest of the buffer as the
  previous round filled it, and the whole buffer is sent.
\<close>

partial_function (option) send_loop ::
  "'k os \<Rightarrow> ('uuid, 'ue) uuid_lib \<Rightarrow> 'uuid \<Rightarrow> str \<Rightarrow> u64 \<Rightarrow> output_stream \<Rightarrow> bytes \<Rightarrow> u64 \<Rightarrow>
   in_stream \<Rightarrow> 'k world \<Rightarrow> ((transfer_error, unit) outcome \<times> 'k world) option" where
  "send_loop os U fid name flen stream buffer offset inp w =
     (case reader_read (length buffer) inp of
        (Inl e, _, _) \<Rightarrow> Some (Err (TransferIo e), w)
      | (Inr bs, _, inp') \<Rightarrow>
          if bs = [] then Some (Ok (), w)
          else if 2 ^ 32 \<le> int (length bs) then Some (Err TransferTryFromInt, w)
          else
            (case serialize U (datagram_header_new fid name flen offset (of_nat (length bs))) of
               Ok header \<Rightarrow>
                 Option.bind (output_write_all os stream header w) (\<lambda>(r, w1).
                   case r of
                     Ok _ \<Rightarrow>
                       Option.bind (output_write_all os stream (bs @ drop (length bs) buffer) w1) (\<lambda>(r, w2).
                         case r of
                           Ok _ \<Rightarrow>
                             send_loop os U fid name flen stream (bs @ drop (length bs) buffer)
                               (offset + of_nat (length bs)) inp' w2
                         | Err e \<Rightarrow> Some (Err (TransferIo e), w2)
                         | Panic \<Rightarrow> Some (Panic, w2))
                   | Err e \<Rightarrow> Some (Err (TransferIo e), w1)
                   | Panic \<Rightarrow> Some (Panic, w1))
             | _ \<Rightarrow> Some (Panic, w)))"

declare send_loop.simps [code]

text \<open>What \<open>send\<close> does once the stream is open; \<open>fid\<close> is the value of \<open>Uuid::new_v4\<close>.\<close>

definition send_stream ::
  "'k os \<Rightarrow> ('uuid, 'ue) uuid_lib \<Rightarrow> 'f host \<Rightarrow> 'uuid \<Rightarrow> str \<Rightarrow> usize \<Rightarrow> output_stream \<Rightarrow>
   'k world \<Rightarrow> ((transfer_error, unit) outcome \<times> 'k world) option" where
  "send_stream os U H fid file_path block_size stream w =
     (case path_file_name file_path of
        None \<Rightarrow> Some (Err (TransferIo Other), w)
      | Some name \<Rightarrow>
          if \<not> valid_utf8 name then Some (Err (TransferIo Other), w)
          else
            (case metadata_len H file_path of
               Inl e \<Rightarrow> Some (Err (TransferIo e), w)
             | Inr flen \<Rightarrow>
                 (case file_open H file_path of
                    Inl e \<Rightarrow> Some (Err (TransferIo e), w)
                  | Inr inp \<Rightarrow>
                      (case zeroed_vec (usize_sub block_size DATAGRAM_HEADER_LEN) of
                         Ok buffer \<Rightarrow> send_loop os U fid name flen stream buffer 0 inp w
                       | _ \<Rightarrow> Some (Panic, w)))))"

definition send_file ::
  "'k os \<Rightarrow> ('uuid, 'ue) uuid_lib \<Rightarrow> 'f host \<Rightarrow> 'uuid \<Rightarrow> str \<Rightarrow> str \<Rightarrow> usize \<Rightarrow>
   'k world \<Rightarrow> ((transfer_error, unit) outcome \<times> 'k world) option" where
  "send_file os U H fid file_path output_uri block_size w =
     (case output_from_uri os output_uri w of
        (Err e, w1) \<Rightarrow> Some (Err (TransferIo e), w1)
      | (Panic, w1) \<Rightarrow> Some (Panic, w1)
      | (Ok stream, w1) \<Rightarrow>
          map_option (\<lambda>(r, w2). (r, output_drop os stream w2))
            (send_stream os U H fid file_path block_size stream w1))"

section \<open>Receiving\<close>

text \<open>
  The content of a file after bytes are written at an offset: a gap before them is filled with
  zeros, what lies behind them stays.
\<close>

definition write_at :: "nat \<Rightarrow> bytes \<Rightarrow> bytes \<Rightarrow> bytes" where
  "write_at off bs content =
     (if bs = [] then content
      else take off content @ replicate (off - length content) 0 @ bs @
           drop (off + length bs) content)"

text \<open>\<open>OpenOptions\<close> with \<open>create\<close> and \<open>write\<close> and without \<open>truncate\<close>.\<close>

definition open_for_writing :: "'f host \<Rightarrow> str \<Rightarrow> 'f disk \<Rightarrow> (error_kind, 'f) outcome \<times> 'f disk" where
  "open_for_writing H path d =
     (case resolve H path of
        Inl e \<Rightarrow> (Err e, d)
      | Inr f \<Rightarrow>
          (Ok f, d\<lparr>disk_files := (disk_files d)(f \<mapsto> (case disk_files d f of None \<Rightarrow> [] | Some c \<Rightarrow> c))\<rparr>))"

text \<open>
  \<open>seek(SeekFrom::Start(offset))\<close>, which refuses offsets that are negative as an \<open>i64\<close>, and
  \<open>write_all\<close> from that position.
\<close>

definition write_payload ::
  "'f \<Rightarrow> u64 \<Rightarrow> bytes \<Rightarrow> 'f disk \<Rightarrow> (error_kind, unit) outcome \<times> 'f disk" where
  "write_payload f offset payload d =
     (if sint offset < 0 then (Err InvalidInput, d)
      else
        (case write_all payload \<lparr>writes = [], wscript = disk_script d\<rparr> of
           (r, s) \<Rightarrow>
             (r, d\<lparr>disk_files := (disk_files d)(f := map_option (write_at (unat offset) (written s)) (disk_files d f)),
                   disk_script := wscript s\<rparr>)))"

text \<open>One round of \<open>process_stream\<close> on a full buffer.\<close>

definition process_datagram ::
  "('uuid, 'ue) uuid_lib \<Rightarrow> 'f host \<Rightarrow> str \<Rightarrow> bytes \<Rightarrow> 'f disk \<Rightarrow>
   (transfer_error, unit) outcome \<times> 'f disk" where
  "process_datagram U H output_path buffer d =
     (case deserialize U buffer of
        Err _ \<Rightarrow> (Ok (), d)
      | Panic \<Rightarrow> (Panic, d)
      | Ok header \<Rightarrow>
          (case byte_slice buffer DATAGRAM_HEADER_LEN
                  (usize_add DATAGRAM_HEADER_LEN (unat (payload_length header))) of
             Ok payload \<Rightarrow>
               (case open_for_writing H (path_join output_path (file_name header)) d of
                  (Ok f, d1) \<Rightarrow>
                    (case write_payload f (chunk_offset header) payload d1 of
                       (r, d2) \<Rightarrow> (map_err TransferIo r, d2))
                | (Err e, d1) \<Rightarrow> (Err (TransferIo e), d1)
                | (Panic, d1) \<Rightarrow> (Panic, d1))
           | _ \<Rightarrow> (Panic, d)))"

partial_function (option) process_loop ::
  "'k os \<Rightarrow> ('uuid, 'ue) uuid_lib \<Rightarrow> 'f host \<Rightarrow> str \<Rightarrow> bytes \<Rightarrow> input_stream \<Rightarrow> 'f disk \<Rightarrow> 'k world \<Rightarrow>
   ((transfer_error, unit) outcome \<times> input_stream \<times> 'f disk \<times> 'k world) option" where
  "process_loop os U H output_path buffer stream d w =
     Option.bind (input_read_exact os [] buffer stream w) (\<lambda>(r, buffer', stream', w').
       case r of
         Err e \<Rightarrow> Some (Err (TransferIo e), stream', d, w')
       | Panic \<Rightarrow> Some (Panic, stream', d, w')
       | Ok _ \<Rightarrow>
           (case process_datagram U H output_path buffer' d of
              (Ok _, d') \<Rightarrow> process_loop os U H output_path buffer' stream' d' w'
            | (Err e, d') \<Rightarrow> Some (Err e, stream', d', w')
            | (Panic, d') \<Rightarrow> Some (Panic, stream', d', w')))"

declare process_loop.simps [code]

definition process_stream ::
  "'k os \<Rightarrow> ('uuid, 'ue) uuid_lib \<Rightarrow> 'f host \<Rightarrow> str \<Rightarrow> input_stream \<Rightarrow> usize \<Rightarrow> 'f disk \<Rightarrow> 'k world \<Rightarrow>
   ((transfer_error, unit) outcome \<times> 'f disk \<times> 'k world) option" where
  "process_stream os U H output_path stream block_size d w =
     (case zeroed_vec block_size of
        Ok buffer \<Rightarrow>
          map_option (\<lambda>(r, stream', d', w'). (r, d', input_drop os stream' w'))
            (process_loop os U H output_path buffer stream d w)
      | _ \<Rightarrow> Some (Panic, d, input_drop os stream w))"

text \<open>The loop of \<open>receive\<close>: an error of a stream is printed, and the next stream is awaited.\<close>

partial_function (option) receive_loop ::
  "'k os \<Rightarrow> ('uuid, 'ue) uuid_lib \<Rightarrow> 'f host \<Rightarrow> str \<Rightarrow> usize \<Rightarrow> listener \<Rightarrow> 'f disk \<Rightarrow> 'k world \<Rightarrow>
   ((transfer_error, unit) outcome \<times> 'f disk \<times> 'k world) option" where
  "receive_loop os U H output_path block_size l d w =
     Option.bind (incoming_next os l w) (\<lambda>(x, l', w').
       case x of
         None \<Rightarrow> Some (Ok (), d, w')
       | Some y \<Rightarrow>
           (case y of
              Err e \<Rightarrow> Some (Err (TransferIo e), d, w')
            | Panic \<Rightarrow> Some (Panic, d, w')
            | Ok stream \<Rightarrow>
                Option.bind (process_stream os U H output_path stream block_size d w') (\<lambda>(r, d', w'').
                  case r of
                    Panic \<Rightarrow> Some (Panic, d', w'')
                  | _ \<Rightarrow> receive_loop os U H output_path block_size l' d' w'')))"

declare receive_loop.simps [code]

definition receive ::
  "'k os \<Rightarrow> ('uuid, 'ue) uuid_lib \<Rightarrow> 'f host \<Rightarrow> str \<Rightarrow> str \<Rightarrow> usize \<Rightarrow> 'f disk \<Rightarrow> 'k world \<Rightarrow>
   ((transfer_error, unit) outcome \<times> 'f disk \<times> 'k world) option" where
  "receive os U H output_path input_uri block_size d w =
     (case create_dir_all H output_path of
        Inl e \<Rightarrow> Some (Err (TransferIo e), d, w)
      | Inr _ \<Rightarrow>
          (case listener_from_uri os input_uri w of
             (Err e, w1) \<Rightarrow> Some (Err (TransferIo e), d, w1)
           | (Panic, w1) \<Rightarrow> Some (Panic, d, w1)
           | (Ok l, w1) \<Rightarrow> receive_loop os U H output_path block_size (listener_incoming l) d w1))"

section \<open>Specification of a transfer\<close>

text \<open>The successive reads of a file: the non-empty chunks, and the error that ended them, if any.\<close>

fun event_size :: "read_event \<Rightarrow> nat" where
  "event_size (Bytes bs) = Suc (length bs)"
| "event_size (Fails k stop) = 1"

definition script_size :: "in_stream \<Rightarrow> nat" where
  "script_size inp = sum_list (map event_size inp)"

lemma reader_read_script_size:
  "\<lbrakk>(Inr bs, st, inp') = reader_read n inp; bs \<noteq> []\<rbrakk> \<Longrightarrow> script_size inp' < script_size inp"
  by (cases "(n, inp)" rule: reader_read.cases) (auto simp: script_size_def split: if_splits)

function file_reads :: "usize \<Rightarrow> in_stream \<Rightarrow> bytes list \<times> error_kind option" where
  "file_reads n inp =
     (case reader_read n inp of
        (Inl e, _, _) \<Rightarrow> ([], Some e)
      | (Inr bs, _, inp') \<Rightarrow>
          if bs = [] then ([], None)
          else (case file_reads n inp' of (cs, e) \<Rightarrow> (bs # cs, e)))"
  by pat_completeness auto
termination
  by (relation "measure (\<lambda>(n, inp). script_size inp)") (auto dest: reader_read_script_size)

declare file_reads.simps [simp del]

text \<open>Chunks with their offsets.\<close>

primrec placed :: "nat \<Rightarrow> bytes list \<Rightarrow> (nat \<times> bytes) list" where
  "placed off [] = []"
| "placed off (c # cs) = (off, c) # placed (off + length c) cs"

text \<open>A datagram of \<open>bs\<close> bytes that carries the chunk \<open>c\<close> for offset \<open>off\<close> of the file \<open>name\<close>.\<close>

definition carries :: "('uuid, 'ue) uuid_lib \<Rightarrow> usize \<Rightarrow> str \<Rightarrow> nat \<times> bytes \<Rightarrow> bytes \<Rightarrow> bool" where
  "carries U bs name p g \<longleftrightarrow>
     length g = bs \<and> DATAGRAM_HEADER_LEN + length (snd p) \<le> bs \<and>
     take (length (snd p)) (drop DATAGRAM_HEADER_LEN g) = snd p \<and>
     (\<exists>h. deserialize U g = Ok h \<and> file_name h = name \<and> chunk_offset h = of_nat (fst p) \<and>
          payload_length h = of_nat (length (snd p)))"

section \<open>Sending\<close>

lemma file_reads_chunks:
  assumes "0 < n"
  shows "concat (fst (file_reads n inp)) = flow (\<lambda>_ _. False) inp \<and>
    (\<forall>c \<in> set (fst (file_reads n inp)). c \<noteq> [] \<and> length c \<le> n)"
  using assms
proof (induction n inp rule: file_reads.induct)
  case (1 n inp)
  obtain r st inp' where r: "reader_read n inp = (r, st, inp')" by (metis prod_cases3)
  show ?case
  proof (cases r)
    case (Inl e)
    then show ?thesis using r reader_read_fails [of n inp e st inp'] by (simp add: file_reads.simps [of n "Fails e st # inp'"])
  next
    case (Inr bs)
    show ?thesis
    proof (cases "bs = []")
      case True
      then show ?thesis using r Inr reader_read_eof [of n inp st inp'] 1(2)
        by (simp add: file_reads.simps [of n inp])
    next
      case False
      then show ?thesis
        using 1(1) [OF r [symmetric] Inr refl False 1(2)] r Inr 1(2)
          reader_read_flow [of n inp bs st inp' "\<lambda>_ _. False"]
        by (cases "file_reads n inp'") (simp add: file_reads.simps [of n inp])
    qed
  qed
qed

lemma serialized_datagram:
  assumes "uuid_ok U" "valid_utf8 name" "length c < 2 ^ 32"
    and "serialize U (datagram_header_new fid name flen (of_nat off) (of_nat (length c))) = Ok h"
  shows "carries U (DATAGRAM_HEADER_LEN + length c + length pad) (wire_name name) (off, c) (h @ c @ pad)"
proof -
  let ?h = "datagram_header_new fid name flen (of_nat off) (of_nat (length c))"
  have v: "valid_utf8 (file_name ?h)" using assms(2) by (simp add: datagram_header_new_def)
  have l: "length h = DATAGRAM_HEADER_LEN" using serialize_length [OF assms(1) v] assms(4) by simp
  have "deserialize U (h @ c @ pad) = Ok (?h\<lparr>file_name := wire_name name\<rparr>)"
    using deserialize_serialize [OF assms(1) v assms(4)] by (simp add: datagram_header_new_def)
  then show ?thesis using l by (simp add: carries_def datagram_header_new_def)
qed

lemma write_all_ok:
  assumes "benign s"
  shows "\<exists>s'. write_all buf s = (Ok (), s') \<and> benign s' \<and> written s' = written s @ buf"
  using write_all_benign [OF assms, of buf] write_all_written [of buf s]
  by (cases "write_all buf s") auto

text \<open>One round: a datagram with the chunk that was read.\<close>

lemma send_loop_step:
  assumes "uuid_ok U" "valid_utf8 name" "stream_no out = Some i"
    and r: "reader_read (length buffer) inp = (Inr bs, st, inp')" "bs \<noteq> []" "length buffer < 2 ^ 32"
    and w: "benign (out_streams w i)"
  obtains s g where
    "send_loop os U fid name flen out buffer (of_nat off) inp w =
      send_loop os U fid name flen out (bs @ drop (length bs) buffer) (of_nat (off + length bs)) inp' (set_stream i s w)"
    "benign s" "written s = written (out_streams w i) @ g"
    "carries U (DATAGRAM_HEADER_LEN + length buffer) (wire_name name) (off, bs) g"
    "length (bs @ drop (length bs) buffer) = length buffer"
proof -
  let ?b = "bs @ drop (length bs) buffer"
  have le: "length bs \<le> length buffer" using reader_read_le r(1) by blast
  then have "length bs < 2 ^ 32" using r(3) by (rule le_less_trans)
  then have lt: "int (length bs) < 2 ^ 32" "length bs < 2 ^ 32" by simp_all
  let ?h = "datagram_header_new fid name flen (of_nat off) (of_nat (length bs))"
  obtain h where h: "serialize U ?h = Ok h"
    using serialize_length [OF assms(1), of ?h] assms(2) by (auto simp: datagram_header_new_def)
  obtain s1 where s1: "write_all h (out_streams w i) = (Ok (), s1)" "benign s1"
      "written s1 = written (out_streams w i) @ h"
    using write_all_ok [OF w] by blast
  obtain s2 where s2: "write_all ?b s1 = (Ok (), s2)" "benign s2" "written s2 = written s1 @ ?b"
    using write_all_ok [OF s1(2)] by blast
  have "carries U (DATAGRAM_HEADER_LEN + length buffer) (wire_name name) (off, bs) (h @ ?b)"
    using serialized_datagram [OF assms(1,2) lt(2) h, of "drop (length bs) buffer"] le by simp
  moreover have "send_loop os U fid name flen out buffer (of_nat off) inp w =
      send_loop os U fid name flen out ?b (of_nat (off + length bs)) inp' (set_stream i s2 w)"
    using r(1,2) lt h s1(1) s2(1)
    by (simp add: send_loop.simps [of os U fid name flen out buffer] output_write_all_stream [OF assms(3)])
  ultimately show ?thesis using that [of s2 "h @ ?b"] s1(3) s2(2,3) le by simp
qed

lemma send_loop_stream:
  assumes "uuid_ok U" "valid_utf8 name" "stream_no out = Some i"
  shows "\<lbrakk>n < 2 ^ 32; length buffer = n; benign (out_streams w i); file_reads n inp = (cs, err)\<rbrakk> \<Longrightarrow>
    \<exists>gs s. send_loop os U fid name flen out buffer (of_nat off) inp w =
        Some (case err of None \<Rightarrow> Ok () | Some e \<Rightarrow> Err (TransferIo e), set_stream i s w) \<and>
      benign s \<and> written s = written (out_streams w i) @ concat gs \<and>
      list_all2 (carries U (DATAGRAM_HEADER_LEN + n) (wire_name name)) (placed off cs) gs"
proof (induction n inp arbitrary: buffer off w cs rule: file_reads.induct)
  case (1 n inp)
  obtain r st inp' where r: "reader_read n inp = (r, st, inp')" by (metis prod_cases3)
  show ?case
  proof (cases "\<exists>bs. r = Inr bs \<and> bs \<noteq> []")
    case True
    then obtain bs where bs: "r = Inr bs" "bs \<noteq> []" by blast
    have read: "reader_read (length buffer) inp = (Inr bs, st, inp')" using r bs(1) 1(3) by simp
    obtain cs' where cs: "file_reads n inp' = (cs', err)" "cs = bs # cs'"
      using 1(5) r bs by (auto simp: file_reads.simps [of n inp] split: prod.splits)
    obtain s g where step: "send_loop os U fid name flen out buffer (of_nat off) inp w =
        send_loop os U fid name flen out (bs @ drop (length bs) buffer) (of_nat (off + length bs)) inp' (set_stream i s w)"
        "benign s" "written s = written (out_streams w i) @ g"
        "carries U (DATAGRAM_HEADER_LEN + n) (wire_name name) (off, bs) g" "length (bs @ drop (length bs) buffer) = n"
      using send_loop_step [OF assms read bs(2) _ 1(4)] 1(2,3) by metis
    have "benign (out_streams (set_stream i s w) i)" using step(2) by simp
    from 1(1) [OF r [symmetric] bs(1) refl bs(2) 1(2) step(5) this cs(1), of "off + length bs"]
    obtain gs s' where "send_loop os U fid name flen out (bs @ drop (length bs) buffer) (of_nat (off + length bs)) inp' (set_stream i s w) =
          Some (case err of None \<Rightarrow> Ok () | Some e \<Rightarrow> Err (TransferIo e), set_stream i s' w)" "benign s'"
        "written s' = written s @ concat gs"
        "list_all2 (carries U (DATAGRAM_HEADER_LEN + n) (wire_name name)) (placed (off + length bs) cs') gs"
      by (auto simp del: of_nat_add)
    then show ?thesis using step cs(2) by (intro exI [of _ "g # gs"] exI [of _ s']) simp
  next
    case False
    then show ?thesis using 1(3-) r send_loop.simps [of os U fid name flen out buffer "of_nat off" inp w]
      by (intro exI [of _ "[]"] exI [of _ "out_streams w i"]) (auto simp: file_reads.simps [of n inp] split: sum.splits)
  qed
qed

section \<open>Receiving\<close>

text \<open>A file is an infinite sequence of bytes, zero behind its end, together with its length.\<close>

definition byte_at :: "bytes \<Rightarrow> nat \<Rightarrow> byte" where
  "byte_at c p = (if p < length c then c ! p else 0)"

definition store :: "(nat \<times> bytes) list \<Rightarrow> bytes \<Rightarrow> bytes" where
  "store ps content = fold (\<lambda>(off, c). write_at off c) ps content"

definition covered :: "(nat \<times> bytes) list \<Rightarrow> nat \<Rightarrow> bool" where
  "covered ps p \<longleftrightarrow> (\<exists>(off, c) \<in> set ps. off \<le> p \<and> p < off + length c)"

lemma store_simps [simp]:
  "store [] c = c" "store ((off, b) # ps) c = store ps (write_at off b c)"
  by (simp_all add: store_def)

lemma covered_simps [simp]:
  "\<not> covered [] p" "covered ((off, c) # ps) p \<longleftrightarrow> off \<le> p \<and> p < off + length c \<or> covered ps p"
  by (auto simp: covered_def)

lemma length_write_at:
  "length (write_at off c old) = (if c = [] then length old else max (length old) (off + length c))"
  by (auto simp: write_at_def)

lemma byte_at_write_at:
  "byte_at (write_at off c old) p = (if off \<le> p \<and> p < off + length c then c ! (p - off) else byte_at old p)"
  by (auto simp: byte_at_def write_at_def nth_append min_def)

lemma length_store: "p < length (store ps old) \<longleftrightarrow> p < length old \<or> (\<exists>q \<ge> p. covered ps q)"
proof (induction ps arbitrary: old)
  case (Cons x ps)
  obtain off c where x: "x = (off, c)" by fastforce
  have "(\<exists>q \<ge> p. off \<le> q \<and> q < off + length c) \<longleftrightarrow> c \<noteq> [] \<and> p < off + length c"
  proof
    assume "c \<noteq> [] \<and> p < off + length c"
    then show "\<exists>q \<ge> p. off \<le> q \<and> q < off + length c" by (intro exI [of _ "max p off"]) auto
  qed auto
  then show ?case using Cons by (auto simp: x length_write_at)
qed simp

text \<open>The chunks are pieces of one content.\<close>

definition pieces :: "bytes \<Rightarrow> (nat \<times> bytes) list \<Rightarrow> bool" where
  "pieces content ps \<longleftrightarrow>
     (\<forall>(off, c) \<in> set ps. off + length c \<le> length content \<and> take (length c) (drop off content) = c)"

lemma byte_at_store:
  "pieces content ps \<Longrightarrow>
   byte_at (store ps old) p = (if covered ps p then content ! p else byte_at old p)"
proof (induction ps arbitrary: old)
  case (Cons x ps)
  obtain off c where x: "x = (off, c)" by fastforce
  have c: "take (length c) (drop off content) = c" "off + length c \<le> length content" "pieces content ps"
    using Cons.prems by (auto simp: pieces_def x)
  have "c ! (p - off) = content ! p" if "off \<le> p" "p < off + length c"
  proof -
    have "c ! (p - off) = take (length c) (drop off content) ! (p - off)" by (simp only: c(1))
    also have "\<dots> = content ! p" using that c(2) by simp
    finally show ?thesis .
  qed
  then show ?case using Cons.IH [OF c(3), of "write_at off c old"] by (auto simp: x byte_at_write_at)
qed simp

lemma bytes_eqI: "\<lbrakk>length xs = length ys; \<And>p. byte_at xs p = byte_at ys p\<rbrakk> \<Longrightarrow> xs = ys"
  by (rule nth_equalityI) (simp, metis byte_at_def)

lemma pieces_placed: "pieces (pre @ concat cs) (placed (length pre) cs)"
proof (induction cs arbitrary: pre)
  case (Cons c cs)
  then show ?case using Cons.IH [of "pre @ c"] by (simp add: pieces_def)
qed (simp add: pieces_def)

lemma covered_placed: "covered (placed off cs) p \<longleftrightarrow> off \<le> p \<and> p < off + length (concat cs)"
proof (induction cs arbitrary: off)
  case (Cons c cs)
  show ?case unfolding placed.simps covered_simps Cons.IH by simp linarith
qed simp

lemma covered_mono: "\<lbrakk>covered ps p; set ps \<subseteq> set qs\<rbrakk> \<Longrightarrow> covered qs p"
  by (auto simp: covered_def)

lemma store_complete:
  assumes "set ps = set (placed 0 cs)"
  shows "store ps old = concat cs @ drop (length (concat cs)) old"
proof -
  have cov: "covered ps p \<longleftrightarrow> p < length (concat cs)" for p
    using covered_placed [of 0 cs p] assms by (simp add: covered_def)
  have "pieces (concat cs) ps" using pieces_placed [of "[]" cs] assms by (simp add: pieces_def)
  note st = byte_at_store [OF this, of old]
  show ?thesis
  proof (rule bytes_eqI)
    have "p < length (store ps old) \<longleftrightarrow> p < max (length old) (length (concat cs))" for p
      unfolding length_store cov by (auto)
    then have "length (store ps old) = max (length old) (length (concat cs))"
      by (metis linorder_neqE_nat order_less_irrefl)
    then show "length (store ps old) = length (concat cs @ drop (length (concat cs)) old)" by simp
    show "byte_at (store ps old) p = byte_at (concat cs @ drop (length (concat cs)) old) p" for p
      unfolding st cov by (auto simp: byte_at_def nth_append)
  qed
qed

text \<open>
  The content \<open>c\<close> of a file with the old content \<open>old\<close> after the chunks \<open>ps\<close> of \<open>content\<close> have arrived:
  their bytes where they lie, the old bytes (zero behind the old end) elsewhere, as far as the old
  file or the last chunk reaches.
\<close>

definition updated :: "bytes \<Rightarrow> (nat \<times> bytes) list \<Rightarrow> bytes \<Rightarrow> bytes \<Rightarrow> bool" where
  "updated content ps old c \<longleftrightarrow>
     (\<forall>p. byte_at c p = (if covered ps p then content ! p else byte_at old p)) \<and>
     (\<forall>p. p < length c \<longleftrightarrow> p < length old \<or> (\<exists>q \<ge> p. covered ps q))"

lemma store_updated: "pieces content ps \<Longrightarrow> updated content ps old (store ps old)"
  by (simp add: updated_def byte_at_store length_store)

lemma updated_cong: "set ps = set qs \<Longrightarrow> updated content ps old c = updated content qs old c"
  by (simp add: updated_def covered_def)

lemma pieces_subset: "\<lbrakk>pieces content qs; set ps \<subseteq> set qs\<rbrakk> \<Longrightarrow> pieces content ps"
  by (auto simp: pieces_def)

definition content_of :: "'f disk \<Rightarrow> 'f \<Rightarrow> bytes" where
  "content_of d f = (case disk_files d f of None \<Rightarrow> [] | Some c \<Rightarrow> c)"

definition disk_benign :: "'f disk \<Rightarrow> bool" where
  "disk_benign d \<longleftrightarrow> list_all takes_some (disk_script d)"

lemma write_payload_ok:
  assumes "disk_benign d" "off < 2 ^ 63" "disk_files d f = Some c"
  shows "\<exists>d'. write_payload f (of_nat off) payload d = (Ok (), d') \<and> disk_benign d' \<and>
    disk_files d' = (disk_files d)(f \<mapsto> write_at off payload c)"
proof -
  obtain s where s: "write_all payload \<lparr>writes = [], wscript = disk_script d\<rparr> = (Ok (), s)" "benign s"
      "written s = payload"
    using write_all_ok [of "\<lparr>writes = [], wscript = disk_script d\<rparr>" payload] assms(1)
    by (auto simp: benign_def disk_benign_def written_def)
  have off: "\<not> sint (of_nat off :: u64) < 0" "unat (of_nat off :: u64) = off"
  proof -
    show "unat (of_nat off :: u64) = off" using assms(2) by (intro unat_of_nat_less) simp
    have "sint (of_nat off :: u64) = int off"
      using assms(2) by (simp add: signed_of_nat signed_take_bit_int_eq_self)
    then show "\<not> sint (of_nat off :: u64) < 0" by simp
  qed
  show ?thesis using s off assms(3) by (auto simp: write_payload_def disk_benign_def benign_def)
qed

lemma process_datagram_ok:
  assumes "carries U bs name (off, c) g" "resolve H (path_join dir name) = Inr f" "disk_benign d"
    and "off < 2 ^ 63" "length c < 2 ^ 32"
  shows "\<exists>d'. process_datagram U H dir g d = (Ok (), d') \<and> disk_benign d' \<and>
    disk_files d' = (disk_files d)(f \<mapsto> write_at off c (content_of d f))"
proof -
  obtain h where h: "deserialize U g = Ok h" "file_name h = name" "chunk_offset h = of_nat off"
      "payload_length h = of_nat (length c)"
    using assms(1) by (auto simp: carries_def)
  have len: "length g = bs" "DATAGRAM_HEADER_LEN + length c \<le> bs" "take (length c) (drop DATAGRAM_HEADER_LEN g) = c"
    using assms(1) by (auto simp: carries_def)
  have pl: "unat (payload_length h) = length c" using h(4) assms(5) by (simp add: unat_of_nat_less)
  have "usize_add DATAGRAM_HEADER_LEN (length c) = DATAGRAM_HEADER_LEN + length c"
    using assms(5) by (intro usize_add_exact) (simp add: header_len)
  then have sl: "byte_slice g DATAGRAM_HEADER_LEN (usize_add DATAGRAM_HEADER_LEN (unat (payload_length h))) = Ok c"
    using len pl by (simp add: byte_slice_def)
  let ?d1 = "d\<lparr>disk_files := (disk_files d)(f \<mapsto> content_of d f)\<rparr>"
  have op: "open_for_writing H (path_join dir (file_name h)) d = (Ok f, ?d1)"
    using assms(2) h(2) by (simp add: open_for_writing_def content_of_def)
  have "disk_benign ?d1" using assms(3) by (simp add: disk_benign_def)
  then obtain d' where "write_payload f (of_nat off) c ?d1 = (Ok (), d')" "disk_benign d'"
      "disk_files d' = (disk_files d)(f \<mapsto> write_at off c (content_of d f))"
    using write_payload_ok [of ?d1 off f "content_of d f" c] assms(4) by auto
  then show ?thesis using h(1,3) sl op by (simp add: process_datagram_def)
qed

text \<open>The loop on a full block, and on what is left.\<close>

lemma process_loop_full:
  assumes "stream_script s = Some inp" "length buffer \<le> length (flow std_retry inp)"
  shows "\<exists>s' inp'. stream_script s' = Some inp' \<and>
    flow std_retry inp' = drop (length buffer) (flow std_retry inp) \<and>
    flow_end std_retry (\<lambda>k. k) inp' = flow_end std_retry (\<lambda>k. k) inp \<and>
    process_loop os U H dir buffer s d w =
      (let b = take (length buffer) (flow std_retry inp)
       in case process_datagram U H dir b d of
            (Ok _, d') \<Rightarrow> process_loop os U H dir b s' d' w
          | (Err e, d') \<Rightarrow> Some (Err e, s', d', w)
          | (Panic, d') \<Rightarrow> Some (Panic, s', d', w))"
proof -
  let ?b = "take (length buffer) (flow std_retry inp)"
  obtain inp' where i: "std_read_exact buffer inp = (Ok (), ?b, inp')"
      "flow std_retry inp' = drop (length buffer) (flow std_retry inp)"
      "flow_end std_retry (\<lambda>k. k) inp' = flow_end std_retry (\<lambda>k. k) inp"
    using std_reader.rd_enough [OF assms(2)] by blast
  obtain s' where s: "stream_script s' = Some inp'" "input_read_exact os [] buffer s w = Some (Ok (), ?b, s', w)"
    using input_read_exact_script [OF assms(1) i(1) [unfolded std_read_exact_def]] by blast
  show ?thesis using i s
    by (intro exI [of _ s'] exI [of _ inp']) (simp add: process_loop.simps [of os U H dir buffer s d w] Let_def)
qed

lemma process_loop_short:
  assumes "stream_script s = Some inp" "length (flow std_retry inp) < length buffer"
  shows "\<exists>s' inp'. stream_script s' = Some inp' \<and>
    process_loop os U H dir buffer s d w = Some (Err (TransferIo (flow_end std_retry (\<lambda>k. k) inp)), s', d, w)"
proof -
  obtain b inp' where i: "std_read_exact buffer inp = (Err (flow_end std_retry (\<lambda>k. k) inp), b, inp')"
    using std_reader.rd_short [OF assms(2)] by blast
  obtain s' where s: "stream_script s' = Some inp'"
      "input_read_exact os [] buffer s w = Some (Err (flow_end std_retry (\<lambda>k. k) inp), b, s', w)"
    using input_read_exact_script [OF assms(1) i [unfolded std_read_exact_def]] by blast
  then show ?thesis by (auto simp: process_loop.simps [of os U H dir buffer s d w])
qed

lemma process_loop_datagrams:
  assumes "resolve H (path_join dir name) = Inr f" "0 < bs"
  shows "\<lbrakk>list_all2 (carries U bs name) ps gs; \<forall>(off, c) \<in> set ps. off < 2 ^ 63 \<and> length c < 2 ^ 32;
     stream_script s = Some inp; flow std_retry inp = concat gs @ rest; length rest < bs; length buffer = bs;
     disk_benign d\<rbrakk> \<Longrightarrow>
   \<exists>s' inp' d'. stream_script s' = Some inp' \<and> disk_benign d' \<and>
     disk_files d' = (if ps = [] then disk_files d else (disk_files d)(f \<mapsto> store ps (content_of d f))) \<and>
     process_loop os U H dir buffer s d w =
       Some (Err (TransferIo (flow_end std_retry (\<lambda>k. k) inp)), s', d', w)"
proof (induction ps gs arbitrary: s inp buffer d rule: list_all2_induct)
  case Nil
  then show ?case using process_loop_short [of s inp buffer os U H dir d w] by auto
next
  case (Cons p ps g gs)
  obtain off c where p: "p = (off, c)" by fastforce
  have g: "length g = bs" using Cons.hyps by (simp add: carries_def)
  obtain d1 where d1: "process_datagram U H dir g d = (Ok (), d1)" "disk_benign d1"
      "disk_files d1 = (disk_files d)(f \<mapsto> write_at off c (content_of d f))"
    using process_datagram_ok [OF _ assms(1) Cons.prems(6)] Cons.hyps(1) Cons.prems(1) p by fastforce
  have "length buffer \<le> length (flow std_retry inp)" using Cons.prems(3,5) g by simp
  from process_loop_full [OF Cons.prems(2) this, of os U H dir d w]
  obtain s1 inp1 where 1: "stream_script s1 = Some inp1" "flow std_retry inp1 = concat gs @ rest"
      "flow_end std_retry (\<lambda>k. k) inp1 = flow_end std_retry (\<lambda>k. k) inp"
      "process_loop os U H dir buffer s d w = process_loop os U H dir g s1 d1 w"
    using Cons.prems(3,5) g d1(1) by auto
  have c: "content_of d1 f = write_at off c (content_of d f)" by (simp add: content_of_def d1(3))
  have "\<forall>(off, c) \<in> set ps. off < 2 ^ 63 \<and> length c < 2 ^ 32" using Cons.prems(1) by simp
  from Cons.IH [OF this 1(1,2) Cons.prems(4) g d1(2)] obtain s' inp' d' where d':
      "stream_script s' = Some inp'" "disk_benign d'"
      "disk_files d' = (if ps = [] then disk_files d1 else (disk_files d1)(f \<mapsto> store ps (content_of d1 f)))"
      "process_loop os U H dir buffer s d w = Some (Err (TransferIo (flow_end std_retry (\<lambda>k. k) inp)), s', d', w)"
    unfolding 1(3,4) by blast
  have "disk_files d' = (disk_files d)(f \<mapsto> store (p # ps) (content_of d f))"
    using d'(3) d1(3) c p by (cases "ps = []") simp_all
  then show ?case using d' by auto
qed

section \<open>File names\<close>

lemma slash_in_char:
  assumes "is_scalar c"
  shows "0x2F \<in> set (encode_char c) \<longleftrightarrow> c = 0x2F"
  using ascii_in_char [OF assms, of 47] by (simp add: byte_of_def)

lemma path_parts_nonempty [simp]: "path_parts s \<noteq> []"
  by (induction s) (auto split: list.splits)

lemma path_parts_append:
  "0x2F \<notin> set pre \<Longrightarrow> path_parts (pre @ s) = (pre @ hd (path_parts s)) # tl (path_parts s)"
  by (induction pre) (auto split: list.splits)

lemma path_parts_valid:
  assumes "list_all is_scalar cs" "p \<in> set (path_parts (encode_utf8 cs))"
  shows "valid_utf8 p"
  using assms
proof (induction cs arbitrary: p)
  case Nil
  then show ?case by (auto simp: valid_utf8_iff intro: exI [of _ "[]"])
next
  case (Cons c cs)
  have nil: "valid_utf8 []" by (auto simp: valid_utf8_iff intro: exI [of _ "[]"])
  show ?case
  proof (cases "c = 0x2F")
    case True
    then have "encode_char c = [0x2F]" by (simp add: encode_char_def byte_of_def)
    then show ?thesis using Cons nil by auto
  next
    case False
    let ?ps = "path_parts (encode_utf8 cs)"
    have "valid_utf8 (hd ?ps)" using Cons by simp
    then obtain ds where "list_all is_scalar ds" "hd ?ps = encode_utf8 ds" by (auto simp: valid_utf8_iff)
    then have "valid_utf8 (encode_char c @ hd ?ps)"
      using Cons.prems(1) by (auto simp: valid_utf8_iff intro!: exI [of _ "c # ds"])
    then show ?thesis
      using Cons False slash_in_char [of c]
      by (auto simp: path_parts_append dest: list.set_sel(2) [OF path_parts_nonempty])
  qed
qed

lemma path_file_name_valid: "\<lbrakk>valid_utf8 path; path_file_name path = Some name\<rbrakk> \<Longrightarrow> valid_utf8 name"
  by (auto simp: valid_utf8_iff path_file_name_def Let_def split: if_splits)
    (metis (no_types, lifting) filter_is_subset last_in_set path_parts_valid subsetD valid_utf8_iff)

lemma send_ok:
  assumes "uuid_ok U" "valid_utf8 path" "path_file_name path = Some name"
    and "metadata_len H path = Inr flen" "file_open H path = Inr inp"
    and "bs = DATAGRAM_HEADER_LEN + n" "n < 2 ^ 32"
    and "output_from_uri os uri w = (Ok out, w1)" "stream_no out = Some i" "benign (out_streams w1 i)"
    and "file_reads n inp = (cs, err)"
  shows "\<exists>gs s. send_file os U H fid path uri bs w =
      Some (case err of None \<Rightarrow> Ok () | Some e \<Rightarrow> Err (TransferIo e), set_stream i s w1) \<and>
    benign s \<and> written s = written (out_streams w1 i) @ concat gs \<and>
    list_all2 (carries U bs (wire_name name)) (placed 0 cs) gs"
proof -
  note v = path_file_name_valid [OF assms(2,3)]
  obtain gs s where g: "send_loop os U fid name flen out (replicate n 0) 0 inp w1 =
        Some (case err of None \<Rightarrow> Ok () | Some e \<Rightarrow> Err (TransferIo e), set_stream i s w1)" "benign s"
      "written s = written (out_streams w1 i) @ concat gs"
      "list_all2 (carries U bs (wire_name name)) (placed 0 cs) gs"
    using send_loop_stream [OF assms(1) v assms(9,7) length_replicate [where x = 0] assms(10,11), where off = 0 and os = os and fid = fid and flen = flen] assms(6)
    by auto
  have "usize_sub bs DATAGRAM_HEADER_LEN = n"
    using assms(6,7) by (simp add: usize_sub_exact header_len)
  moreover have "zeroed_vec n = Ok (replicate n 0)" using assms(7) by (simp add: zeroed_vec_def)
  ultimately have "send_file os U H fid path uri bs w =
      Some (case err of None \<Rightarrow> Ok () | Some e \<Rightarrow> Err (TransferIo e), set_stream i s w1)"
    using g(1) assms(3-5,8,9) v by (simp add: send_file_def send_stream_def)
  then show ?thesis using g by blast
qed

lemma process_stream_ok:
  assumes "resolve H (path_join dir name) = Inr f" "0 < bs" "bs < 2 ^ 63"
    and "list_all2 (carries U bs name) ps gs" "\<forall>(off, c) \<in> set ps. off < 2 ^ 63 \<and> length c < 2 ^ 32"
    and "stream_script s = Some inp" "flow std_retry inp = concat gs @ rest" "length rest < bs" "disk_benign d"
  shows "\<exists>d'. disk_files d' =
      (if ps = [] then disk_files d else (disk_files d)(f \<mapsto> store ps (content_of d f))) \<and>
    process_stream os U H dir s bs d w =
      Some (Err (TransferIo (flow_end std_retry (\<lambda>k. k) inp)), d', w)"
proof -
  obtain s' inp' d' where "stream_script s' = Some inp'"
      "disk_files d' = (if ps = [] then disk_files d else (disk_files d)(f \<mapsto> store ps (content_of d f)))"
      "process_loop os U H dir (replicate bs 0) s d w =
        Some (Err (TransferIo (flow_end std_retry (\<lambda>k. k) inp)), s', d', w)"
    using process_loop_datagrams [OF assms(1,2,4-8) length_replicate [where x = 0] assms(9), of os w] by blast
  moreover have "zeroed_vec bs = Ok (replicate bs 0)" using assms(3) by (simp add: zeroed_vec_def)
  ultimately show ?thesis by (auto simp: process_stream_def)
qed

text \<open>The chunks of a file of reasonable size fit the header.\<close>

lemma pieces_placed_0: "pieces (concat cs) (placed 0 cs)"
  using pieces_placed [of "[]" cs] by simp

lemma placed_bounds:
  assumes "set ps \<subseteq> set (placed 0 cs)" "length (concat cs) < 2 ^ 63" "\<forall>c \<in> set cs. length c < 2 ^ 32"
  shows "\<forall>(off, c) \<in> set ps. off < 2 ^ 63 \<and> length c < 2 ^ 32"
proof -
  have "c \<in> set cs" if "(off, c) \<in> set (placed k cs)" for off c k
    using that by (induction cs arbitrary: k) auto
  moreover have "off + length c \<le> length (concat cs)" if "(off, c) \<in> set (placed 0 cs)" for off c
    using pieces_placed_0 [of cs] that by (auto simp: pieces_def)
  ultimately show ?thesis using assms by fastforce
qed

text \<open>On the standard input, \<open>receive\<close> processes one stream and succeeds whatever its end was.\<close>

lemma receive_stdin:
  assumes "create_dir_all H dir = Inr ()" "r \<noteq> Panic"
    and "process_stream os U H dir (Stdin (std_input w)) bs d w = Some (r, d', w')"
  shows "receive os U H dir STDIN bs d w = Some (Ok (), d', w')"
proof -
  have "receive_loop os U H dir bs (LStdin True) d' w' = Some (Ok (), d', w')"
    by (simp add: receive_loop.simps)
  then have "receive_loop os U H dir bs (LStdin False) d w = Some (Ok (), d', w')"
    using assms(2,3) by (subst receive_loop.simps) (auto split: outcome.splits)
  then show ?thesis using assms(1) by (simp add: receive_def listener_from_uri_def)
qed

text \<open>With a positive block size the loop returns: every round takes a block from the stream.\<close>

lemma process_loop_returns:
  assumes "0 < length buffer" "stream_script s = Some inp"
  shows "\<exists>r s' inp' d'. stream_script s' = Some inp' \<and> r \<noteq> Ok () \<and>
    process_loop os U H dir buffer s d w = Some (r, s', d', w) \<and>
    (length buffer < DATAGRAM_HEADER_LEN \<longrightarrow>
       r = Err (TransferIo (flow_end std_retry (\<lambda>k. k) inp)) \<and> d' = d)"
  using assms
proof (induction "length (flow std_retry inp)" arbitrary: buffer s inp d rule: less_induct)
  case less
  show ?case
  proof (cases "length buffer \<le> length (flow std_retry inp)")
    case False
    then show ?thesis using process_loop_short [OF less.prems(2), of buffer os U H dir d w] by auto
  next
    case True
    let ?b = "take (length buffer) (flow std_retry inp)"
    obtain s1 inp1 where 1: "stream_script s1 = Some inp1"
        "flow std_retry inp1 = drop (length buffer) (flow std_retry inp)"
        "flow_end std_retry (\<lambda>k. k) inp1 = flow_end std_retry (\<lambda>k. k) inp"
        "process_loop os U H dir buffer s d w =
          (case process_datagram U H dir ?b d of
             (Ok _, d') \<Rightarrow> process_loop os U H dir ?b s1 d' w
           | (Err e, d') \<Rightarrow> Some (Err e, s1, d', w)
           | (Panic, d') \<Rightarrow> Some (Panic, s1, d', w))"
      using process_loop_full [OF less.prems(2) True, of os U H dir d w] by (auto simp: Let_def)
    have b: "length ?b = length buffer" using True by simp
    have small: "process_datagram U H dir ?b d = (Ok (), d)" if "length buffer < DATAGRAM_HEADER_LEN"
      using that b by (simp add: process_datagram_def deserialize_def)
    obtain r1 d1 where p: "process_datagram U H dir ?b d = (r1, d1)" by fastforce
    show ?thesis
    proof (cases r1)
      case (Ok u)
      have "length (flow std_retry inp1) < length (flow std_retry inp)"
        using 1(2) less.prems(1) True by (simp only: length_drop)
      moreover have "0 < length ?b" using b less.prems(1) by simp
      ultimately show ?thesis
        using less.hyps [of inp1 ?b s1 d1] 1 p Ok small b by auto
    qed (use 1 p small in auto)
  qed
qed

text \<open>With block size zero the loop never returns: the empty buffer is always full, and no header.\<close>

lemma process_loop_diverges: "process_loop os U H dir [] s d w = None"
proof -
  have "b \<noteq> []" if run: "process_loop os U H dir b s d w = Some y" for b s d w y
  proof (rule process_loop.raw_induct [where P = "\<lambda>os U H dir b s d w y. b \<noteq> []", OF _ run])
    fix loop os U H dir b s d w y
    assume hyp: "\<And>os U H dir b s d w y. loop os U H dir b s d w = Some y \<Longrightarrow> b \<noteq> []"
      and body: "Option.bind (input_read_exact os [] b s w) (\<lambda>(r, buffer', stream', w').
         case r of
           Err e \<Rightarrow> Some (Err (TransferIo e), stream', d, w')
         | Panic \<Rightarrow> Some (Panic, stream', d, w')
         | Ok _ \<Rightarrow>
             (case process_datagram U H dir buffer' d of
                (Ok _, d') \<Rightarrow> loop os U H dir buffer' stream' d' w'
              | (Err e, d') \<Rightarrow> Some (Err e, stream', d', w')
              | (Panic, d') \<Rightarrow> Some (Panic, stream', d', w'))) = Some y"
    have "process_datagram U H dir [] d = (Ok (), d)"
      by (simp add: process_datagram_def deserialize_def header_len)
    moreover have "input_read_exact os [] [] s w = Some (Ok (), [], s, w)"
      by (simp add: input_read_exact.simps)
    ultimately show "b \<noteq> []" using hyp [of os U H dir "[]" s d w y] body by auto
  qed
  then show ?thesis by (metis not_None_eq)
qed

text \<open>A host for the examples: one file to send, and every path its own file.\<close>

definition one_file_host :: "bytes \<Rightarrow> str host" where
  "one_file_host c =
     \<lparr>metadata_len = (\<lambda>_. Inr (of_nat (length c))), file_open = (\<lambda>_. Inr [Bytes c]),
      create_dir_all = (\<lambda>_. Inr ()), resolve = (\<lambda>p. Inr p)\<rparr>"

section \<open>Properties\<close>

text \<open>
  C17. Sending a file. With a block size of the header and \<open>n\<close> bytes, to an output that takes
  everything (in however many pieces): \<open>send\<close> returns, and what it has written is one datagram
  per read of the file, each of exactly the block size, whose header parses and names the file,
  the offset and the length of the chunk it carries. The chunks are the content of the file in
  order. If a read fails, the datagrams before it are written and the error is returned.
\<close>

theorem send_datagrams:
  assumes "uuid_ok U" "valid_utf8 path" "path_file_name path = Some name"
    and "metadata_len H path = Inr flen" "file_open H path = Inr inp"
    and "bs = DATAGRAM_HEADER_LEN + n" "0 < n" "n < 2 ^ 32"
    and "output_from_uri os uri w = (Ok out, w1)" "stream_no out = Some i" "benign (out_streams w1 i)"
    and "file_reads n inp = (cs, err)"
  shows "\<exists>gs s. send_file os U H fid path uri bs w =
      Some (case err of None \<Rightarrow> Ok () | Some e \<Rightarrow> Err (TransferIo e), set_stream i s w1) \<and>
    written s = written (out_streams w1 i) @ concat gs \<and>
    list_all2 (carries U bs (wire_name name)) (placed 0 cs) gs \<and>
    concat cs = flow (\<lambda>_ _. False) inp"
  using send_ok [OF assms(1-6,8-12), of fid] file_reads_chunks [OF assms(7), of inp] assms(12) by auto

theorem send_datagrams_witness:
  "\<exists>g s. send_file table_os uuid128 (one_file_host [1, 2]) 7 (ascii ''/d/f'') (ascii ''-'') 295
      \<lparr>out_streams = (\<lambda>_. \<lparr>writes = [], wscript = [Accepts 100]\<rparr>), std_input = [],
       kernel = \<lparr>tab_open = [], tab_next = 3, tab_ifaces = []\<rparr>\<rparr> =
      Some (Ok (), set_stream 0 s \<lparr>out_streams = (\<lambda>_. \<lparr>writes = [], wscript = [Accepts 100]\<rparr>), std_input = [],
       kernel = \<lparr>tab_open = [], tab_next = 3, tab_ifaces = []\<rparr>\<rparr>) \<and>
    written s = g \<and> carries uuid128 295 (wire_name (ascii ''f'')) (0, [1, 2]) g"
proof -
  let ?w = "\<lparr>out_streams = (\<lambda>_. \<lparr>writes = [], wscript = [Accepts 100]\<rparr>), std_input = [],
    kernel = \<lparr>tab_open = [], tab_next = 3, tab_ifaces = []\<rparr>\<rparr> :: fd_table world"
  let ?H = "one_file_host [1, 2]"
  have v: "valid_utf8 (ascii ''/d/f'')" by code_simp
  have n: "path_file_name (ascii ''/d/f'') = Some (ascii ''f'')" by code_simp
  have h: "metadata_len ?H (ascii ''/d/f'') = Inr 2" "file_open ?H (ascii ''/d/f'') = Inr [Bytes [1, 2]]"
    by (simp_all add: one_file_host_def)
  have b: "(295 :: nat) = DATAGRAM_HEADER_LEN + 3" "(0 :: nat) < 3" "(3 :: nat) < 2 ^ 32" by (simp_all add: header_len)
  have o: "output_from_uri table_os (ascii ''-'') ?w = (Ok Stdout, ?w)" by (simp add: output_from_uri_def STDOUT_def)
  have i: "stream_no Stdout = Some 0" "benign (out_streams ?w 0)" by (simp_all add: benign_def)
  have r: "file_reads 3 [Bytes [1, 2]] = ([[1, 2]], None)" by code_simp
  from send_datagrams [OF uuid128_ok v n h b o i r, of 7] show ?thesis
    by (auto simp: written_def list_all2_Cons1)
qed

text \<open>
  C16. Receiving datagrams in any order, with losses and repetitions. The stream holds datagrams
  that carry chunks of one file, as \<open>send\<close> produces them, in any order and any selection, and
  perhaps an incomplete block at its end. Then the file has the bytes of the content wherever a
  chunk has arrived, and the bytes it had before (zero behind its old end) everywhere else; it
  reaches as far as before, or to the end of the last chunk; no other file changes. If every chunk
  has arrived at least once, the file is the content, followed by what the old file had behind it.
  The call always ends with the error of the end of the stream.
\<close>

theorem process_stream_chunks:
  assumes "resolve H (path_join dir name) = Inr f" "0 < bs" "bs < 2 ^ 63"
    and "list_all2 (carries U bs name) ps gs" "set ps \<subseteq> set (placed 0 cs)" "ps \<noteq> []"
    and "length (concat cs) < 2 ^ 63" "\<forall>c \<in> set cs. length c < 2 ^ 32"
    and "stream_script s = Some inp" "flow std_retry inp = concat gs @ rest" "length rest < bs" "disk_benign d"
  shows "\<exists>d' c. process_stream os U H dir s bs d w =
      Some (Err (TransferIo (flow_end std_retry (\<lambda>k. k) inp)), d', w) \<and>
    disk_files d' = (disk_files d)(f \<mapsto> c) \<and>
    updated (concat cs) ps (content_of d f) c \<and>
    (set ps = set (placed 0 cs) \<longrightarrow> c = concat cs @ drop (length (concat cs)) (content_of d f))"
proof -
  note bounded = placed_bounds [OF assms(5,7,8)]
  from process_stream_ok [OF assms(1-4) bounded assms(9-12), of os w] obtain d' where d':
      "disk_files d' = (disk_files d)(f \<mapsto> store ps (content_of d f))"
      "process_stream os U H dir s bs d w = Some (Err (TransferIo (flow_end std_retry (\<lambda>k. k) inp)), d', w)"
    using assms(6) by auto
  then show ?thesis
    using store_updated [OF pieces_subset [OF pieces_placed_0 assms(5)], of "content_of d f"]
      store_complete [of ps cs "content_of d f"]
    by (intro exI [of _ d'] exI [of _ "store ps (content_of d f)"]) simp
qed

theorem process_stream_chunks_witness:
  "\<exists>g2 d' c. process_stream table_os uuid128 (one_file_host []) (ascii ''d'') (Stdin [Bytes g2]) 295
      \<lparr>disk_files = Map.empty, disk_script = []\<rparr>
      \<lparr>out_streams = (\<lambda>_. \<lparr>writes = [], wscript = []\<rparr>), std_input = [],
       kernel = \<lparr>tab_open = [], tab_next = 3, tab_ifaces = []\<rparr>\<rparr> =
      Some (Err (TransferIo UnexpectedEof), d',
        \<lparr>out_streams = (\<lambda>_. \<lparr>writes = [], wscript = []\<rparr>), std_input = [],
         kernel = \<lparr>tab_open = [], tab_next = 3, tab_ifaces = []\<rparr>\<rparr>) \<and>
    disk_files d' = Map.empty(ascii ''d/f'' \<mapsto> c) \<and> byte_at c 0 = 0 \<and> byte_at c 3 = 4 \<and> \<not> 5 < length c"
proof -
  let ?w = "\<lparr>out_streams = (\<lambda>_. \<lparr>writes = [], wscript = []\<rparr>), std_input = [],
    kernel = \<lparr>tab_open = [], tab_next = 3, tab_ifaces = []\<rparr>\<rparr> :: fd_table world"
  let ?d = "\<lparr>disk_files = Map.empty, disk_script = []\<rparr> :: str disk"
  let ?cs = "[[1, 2, 3], [4, 5]] :: bytes list"
  let ?h = "datagram_header_new (7 :: 128 word) (ascii ''f'') 5 (of_nat 3) (of_nat (length [4, 5 :: byte]))"
  have v: "valid_utf8 (ascii ''f'')" by code_simp
  have wn: "wire_name (ascii ''f'') = ascii ''f''" by code_simp
  obtain h where h: "serialize uuid128 ?h = Ok h"
    using serialize_length [OF uuid128_ok, of ?h] v by (auto simp: datagram_header_new_def)
  let ?g = "h @ [4, 5] @ [3]"
  have "carries uuid128 295 (ascii ''f'') (3, [4, 5]) ?g"
    using serialized_datagram [OF uuid128_ok v _ h, of "[3]"] wn by (simp add: header_len)
  then have ca: "list_all2 (carries uuid128 295 (ascii ''f'')) [(3, [4, 5])] [?g]" by simp
  have re: "resolve (one_file_host []) (path_join (ascii ''d'') (ascii ''f'')) = Inr (ascii ''d/f'')"
    by (simp add: one_file_host_def path_join_def ascii_def)
  have hn: "?g \<noteq> []" by simp
  have fl: "flow std_retry [Bytes ?g] = concat [?g] @ []" by simp
  have st: "stream_script (Stdin [Bytes ?g]) = Some [Bytes ?g]" "length [] < (295 :: nat)" "disk_benign ?d"
    by (simp_all add: disk_benign_def)
  have cs: "set [(3, [4, 5])] \<subseteq> set (placed 0 ?cs)" "[(3 :: nat, [4, 5 :: byte])] \<noteq> []"
      "length (concat ?cs) < 2 ^ 63" "\<forall>c \<in> set ?cs. length c < 2 ^ 32"
    by simp_all
  have b: "(0 :: nat) < 295" "(295 :: nat) < 2 ^ 63" by simp_all
  from process_stream_chunks [OF re b ca cs st(1) fl st(2,3), of table_os ?w] obtain d' c where
      "process_stream table_os uuid128 (one_file_host []) (ascii ''d'') (Stdin [Bytes ?g]) 295 ?d ?w =
        Some (Err (TransferIo UnexpectedEof), d', ?w)" "disk_files d' = Map.empty(ascii ''d/f'' \<mapsto> c)"
      and c: "\<forall>p. byte_at c p = (if covered [(3, [4, 5])] p then concat ?cs ! p else byte_at (content_of ?d (ascii ''d/f'')) p)"
      "\<forall>p. p < length c \<longleftrightarrow> p < length (content_of ?d (ascii ''d/f'')) \<or> (\<exists>q \<ge> p. covered [(3, [4, 5])] q)"
    by (auto simp: updated_def)
  moreover have "content_of ?d (ascii ''d/f'') = []" by (simp add: content_of_def)
  then have "byte_at c 0 = 0" "byte_at c 3 = 4" "\<not> 5 < length c"
    using c(1) [rule_format, of 0] c(1) [rule_format, of 3] c(2) [rule_format, of 5]
    by (simp_all add: byte_at_def [of "[]"])
  ultimately show ?thesis by blast
qed

text \<open>
  C20. \<open>process_stream\<close> returns whenever the block size is positive, never with success: every round
  takes one block from the stream. Blocks too small for a header are all skipped and no file is
  touched. With block size zero it never returns, on any stream.
\<close>

theorem process_stream_terminates:
  assumes "stream_script s = Some inp"
  shows "if bs = 0 then process_stream os U H dir s bs d w = None
    else \<exists>r d'. process_stream os U H dir s bs d w = Some (r, d', w) \<and> r \<noteq> Ok () \<and>
      (bs < DATAGRAM_HEADER_LEN \<longrightarrow> r = Err (TransferIo (flow_end std_retry (\<lambda>k. k) inp)) \<and> d' = d)"
proof (cases "bs = 0")
  case True
  then show ?thesis by (simp add: process_stream_def zeroed_vec_def process_loop_diverges)
next
  case False
  show ?thesis
  proof (cases "int bs < 2 ^ 63")
    case True
    then show ?thesis
      using False process_loop_returns [of "replicate bs 0" s inp os U H dir d w] assms
      by (auto simp: process_stream_def zeroed_vec_def)
  qed (use assms False in \<open>auto simp: process_stream_def zeroed_vec_def header_len\<close>)
qed

theorem process_stream_terminates_witness:
  "process_stream table_os uuid128 (one_file_host []) [] (Stdin [Bytes [1, 2], Fails ConnectionReset False]) 1
     \<lparr>disk_files = Map.empty, disk_script = []\<rparr>
     \<lparr>out_streams = (\<lambda>_. \<lparr>writes = [], wscript = []\<rparr>), std_input = [],
      kernel = \<lparr>tab_open = [], tab_next = 3, tab_ifaces = []\<rparr>\<rparr> =
   Some (Err (TransferIo ConnectionReset), \<lparr>disk_files = Map.empty, disk_script = []\<rparr>,
     \<lparr>out_streams = (\<lambda>_. \<lparr>writes = [], wscript = []\<rparr>), std_input = [],
      kernel = \<lparr>tab_open = [], tab_next = 3, tab_ifaces = []\<rparr>\<rparr>)"
  using process_stream_terminates [of "Stdin [Bytes [1, 2], Fails ConnectionReset False]"
      "[Bytes [1, 2], Fails ConnectionReset False]" 1 table_os uuid128 "one_file_host []" "[]"
      "\<lparr>disk_files = Map.empty, disk_script = []\<rparr>"
      "\<lparr>out_streams = (\<lambda>_. \<lparr>writes = [], wscript = []\<rparr>), std_input = [],
        kernel = \<lparr>tab_open = [], tab_next = 3, tab_ifaces = []\<rparr>\<rparr>"]
  by (auto simp: header_len)

text \<open>
  C37. Datagrams that no sender produces. A payload length that exceeds the block makes the receiver
  panic. An absolute file name replaces the output directory: the datagram is written to the same
  file whatever directory was asked for.
\<close>

theorem process_datagram_unchecked:
  assumes "deserialize U g = Ok h"
  shows "(length g < DATAGRAM_HEADER_LEN + unat (payload_length h) \<longrightarrow> process_datagram U H dir g d = (Panic, d)) \<and>
    (file_name h \<noteq> [] \<longrightarrow> hd (file_name h) = 0x2F \<longrightarrow> process_datagram U H dir g d = process_datagram U H dir' g d)"
proof -
  have "DATAGRAM_HEADER_LEN + unat (payload_length h) < 2 ^ 64"
    using unsigned_less [where ?'a = nat, of "payload_length h"] by (simp add: header_len)
  then have "usize_add DATAGRAM_HEADER_LEN (unat (payload_length h)) = DATAGRAM_HEADER_LEN + unat (payload_length h)"
    by (rule usize_add_exact)
  then show ?thesis using assms by (auto simp: process_datagram_def byte_slice_def path_join_def)
qed

theorem process_datagram_unchecked_witness:
  "\<exists>g. process_datagram uuid128 (one_file_host []) (ascii ''d'') g \<lparr>disk_files = Map.empty, disk_script = []\<rparr> =
     (Panic, \<lparr>disk_files = Map.empty, disk_script = []\<rparr>) \<and> length g = 292"
proof -
  let ?h = "datagram_header_new (7 :: 128 word) (ascii ''f'') 5 0 1"
  have v: "valid_utf8 (file_name ?h)" by code_simp
  obtain g where g: "serialize uuid128 ?h = Ok g" "length g = 292"
    using serialize_length [OF uuid128_ok v] by (auto simp: header_len)
  have "deserialize uuid128 g = Ok (?h\<lparr>file_name := wire_name (file_name ?h)\<rparr>)"
    using deserialize_serialize [OF uuid128_ok v g(1), of "[]"] by simp
  from process_datagram_unchecked [OF this, of "one_file_host []" "ascii ''d''" "\<lparr>disk_files = Map.empty, disk_script = []\<rparr>"]
  show ?thesis using g(2) by (auto simp: header_len datagram_header_new_def)
qed

text \<open>
  C38. Block sizes without room for a payload: with exactly the header, \<open>send\<close> sends nothing and
  reports success, whatever the file; with less, the payload size wraps around and the call panics.
\<close>

theorem send_small_blocks:
  assumes "path_file_name path = Some name" "valid_utf8 path"
    and "metadata_len H path = Inr flen" "file_open H path = Inr inp"
    and "output_from_uri os uri w = (Ok out, w1)" "bs \<le> DATAGRAM_HEADER_LEN"
    and "\<forall>k st r. inp \<noteq> Fails k st # r"
  shows "send_file os U H fid path uri bs w =
    Some (if bs = DATAGRAM_HEADER_LEN then Ok () else Panic, output_drop os out w1)"
proof (cases "bs = DATAGRAM_HEADER_LEN")
  case True
  have "\<exists>inp'. reader_read 0 inp = (Inr [], False, inp')"
    using assms(7) by (cases "(0 :: nat, inp)" rule: reader_read.cases) auto
  then obtain inp' where r: "reader_read 0 inp = (Inr [], False, inp')" by blast
  have "send_loop os U fid name flen out [] 0 inp w1 = Some (Ok (), w1)"
    by (subst send_loop.simps) (simp add: r)
  moreover have "usize_sub bs DATAGRAM_HEADER_LEN = 0" using True by (simp add: usize_sub_exact header_len)
  ultimately show ?thesis
    using assms path_file_name_valid [OF assms(2,1)] True by (simp add: send_file_def send_stream_def zeroed_vec_def)
next
  case False
  then have "usize_sub bs DATAGRAM_HEADER_LEN = 2 ^ 64 - (DATAGRAM_HEADER_LEN - bs)"
    using assms(6) by (intro usize_sub_underflow) (simp_all add: header_len)
  then have "\<not> int (usize_sub bs DATAGRAM_HEADER_LEN) < 2 ^ 63" using assms(6) by (simp add: header_len)
  then have "zeroed_vec (usize_sub bs DATAGRAM_HEADER_LEN) = Panic" by (simp add: zeroed_vec_def)
  then show ?thesis
    using assms path_file_name_valid [OF assms(2,1)] False by (simp add: send_file_def send_stream_def)
qed

theorem send_small_blocks_witness:
  "send_file table_os uuid128 (one_file_host [1, 2]) 7 (ascii ''f'') (ascii ''-'') 100
      \<lparr>out_streams = (\<lambda>_. \<lparr>writes = [], wscript = []\<rparr>), std_input = [],
       kernel = \<lparr>tab_open = [], tab_next = 3, tab_ifaces = []\<rparr>\<rparr> =
   Some (Panic, \<lparr>out_streams = (\<lambda>_. \<lparr>writes = [], wscript = []\<rparr>), std_input = [],
       kernel = \<lparr>tab_open = [], tab_next = 3, tab_ifaces = []\<rparr>\<rparr>)"
proof -
  let ?w = "\<lparr>out_streams = (\<lambda>_. \<lparr>writes = [], wscript = []\<rparr>), std_input = [],
    kernel = \<lparr>tab_open = [], tab_next = 3, tab_ifaces = []\<rparr>\<rparr> :: fd_table world"
  let ?H = "one_file_host [1, 2]"
  have v: "path_file_name (ascii ''f'') = Some (ascii ''f'')" "valid_utf8 (ascii ''f'')" by code_simp+
  have h: "metadata_len ?H (ascii ''f'') = Inr 2" "file_open ?H (ascii ''f'') = Inr [Bytes [1, 2]]"
    by (simp_all add: one_file_host_def)
  have o: "output_from_uri table_os (ascii ''-'') ?w = (Ok Stdout, ?w)" by (simp add: output_from_uri_def STDOUT_def)
  have b: "(100 :: nat) \<le> DATAGRAM_HEADER_LEN" "\<forall>k st r. [Bytes [1, 2]] \<noteq> Fails k st # r" by (simp_all add: header_len)
  from send_small_blocks [OF v h o b, of uuid128 7] show ?thesis by (simp add: header_len)
qed

end
