(* ===== verification/Sessions.thy ===== *)
theory Sessions
  imports Codec File_Transfer
begin

text \<open>
  The part of \<open>garuda-codec/src/main.rs\<close> that \<open>encoder\<close> and \<open>decoder\<close> share: the loop over the
  incoming streams, each of which is a session of its own.

  The threads of an encoder or a decoder run under any schedule, so a session is a relation between
  its streams and its results: \<open>wait\<close> returns when all threads have ended. A raw socket may deliver
  any script of reads and take any writes.
\<close>

section \<open>Arguments and errors\<close>

record codec_args =
  arg_input :: str
  arg_output :: str
  arg_block_size :: usize
  arg_max_packet_size :: u16
  arg_workers :: usize

text \<open>\<open>Box<dyn Error>\<close>: the errors the commands return.\<close>

datatype 'pkt cli_error =
    CliIo error_kind | CliRepair repair_error | CliEncoder "'pkt encoder_error"
  | CliDecoder decoder_error | CliTransfer transfer_error

section \<open>Streams as the threads see them\<close>

definition reads_from :: "input_stream \<Rightarrow> in_stream \<Rightarrow> bool" where
  "reads_from s inp \<longleftrightarrow> (case stream_script s of None \<Rightarrow> True | Some i \<Rightarrow> inp = i)"

definition writes_to :: "output_stream \<Rightarrow> 'k world \<Rightarrow> out_stream \<Rightarrow> bool" where
  "writes_to s w out \<longleftrightarrow> (case stream_no s of None \<Rightarrow> True | Some i \<Rightarrow> out = out_streams w i)"

definition after_writing :: "output_stream \<Rightarrow> out_stream \<Rightarrow> 'k world \<Rightarrow> 'k world" where
  "after_writing s out w = (case stream_no s of None \<Rightarrow> w | Some i \<Rightarrow> set_stream i out w)"

text \<open>
  Of the threads only the dispatcher can panic (it divides by the number of its queues); this is
  what \<open>join\<close> finds.
\<close>

definition joins :: "nat option \<Rightarrow> ('d, 'a, 'w, 'b, 'f, ('e, unit) outcome) pstate \<Rightarrow> nat \<Rightarrow> bool" where
  "joins dispatcher_thread s t \<longleftrightarrow> dispatcher_thread = Some t \<longrightarrow> dispatcher s \<noteq> Inr Panic"

section \<open>Sessions\<close>

text \<open>
  What opening and reading \<open>/dev/urandom\<close> may give when an encoder starts is the environment's choice,
  not that of the program: a parameter.
\<close>

type_synonym entropy = "error_kind + in_stream \<Rightarrow> bool"

text \<open>
  One session of an encoder: started on the streams, and waited for. The result carries the state
  of the output afterwards.
\<close>

definition encoder_session ::
  "('oti, 'plan, 'enc, 'pkt, 'dec) raptorq \<Rightarrow> entropy \<Rightarrow> codec_args \<Rightarrow> u32 \<Rightarrow> in_stream \<Rightarrow> out_stream \<Rightarrow>
   ('pkt cli_error, unit) outcome \<Rightarrow> out_stream \<Rightarrow> bool" where
  "encoder_session R E a rep inp out r out' \<longleftrightarrow>
     (\<exists>urandom tid. E urandom \<and>
       (case start_encoding R urandom tid inp out
               (encoder_new (arg_block_size a) (arg_max_packet_size a) rep (arg_workers a)) of
          (Err x, _) \<Rightarrow> r = Err (CliEncoder x) \<and> out' = out
        | (Panic, _) \<Rightarrow> r = Panic \<and> out' = out
        | (Ok t0, e) \<Rightarrow>
            (\<exists>ls t. psteps (encoder_machine R (arg_workers a)) ls t0 t \<and> all_ended t \<and>
               r = map_err CliEncoder (fst (encoder_wait (joins (enc_block_dispatcher e) t) e)) \<and>
               out' = forwarder t)))"

definition decoder_session ::
  "('oti, 'plan, 'enc, 'pkt, 'dec) raptorq \<Rightarrow> codec_args \<Rightarrow> in_stream \<Rightarrow> out_stream \<Rightarrow>
   ('pkt cli_error, unit) outcome \<Rightarrow> out_stream \<Rightarrow> bool" where
  "decoder_session R a inp out r out' \<longleftrightarrow>
     (\<exists>tid.
        case start_decoding R tid inp out
               (decoder_init (arg_block_size a) (arg_workers a) (arg_max_packet_size a)) of
          (Err x, _) \<Rightarrow> r = Err (CliDecoder x) \<and> out' = out
        | (Panic, _) \<Rightarrow> r = Panic \<and> out' = out
        | (Ok t0, e) \<Rightarrow>
            (\<exists>ls t. psteps (decoder_machine R (arg_workers a)) ls t0 t \<and> all_ended t \<and>
               r = map_err CliDecoder (fst (decoder_wait (joins (dec_packet_dispatcher e) t) e)) \<and>
               out' = forwarder t))"

text \<open>
  The loop over the incoming streams, the same in \<open>run_encoder\<close> and \<open>run_decoder\<close>: every stream is
  a session that writes to a clone of the output; the first failure ends the loop. Both streams
  belong to the threads of the session and are dropped when it is over, also when it does not start.
\<close>

definition close_session :: "'k os \<Rightarrow> input_stream \<Rightarrow> output_stream \<Rightarrow> 'k world \<Rightarrow> 'k world" where
  "close_session os s clone w = input_drop os s (output_drop os clone w)"

inductive codec_sessions ::
  "'k os \<Rightarrow> (in_stream \<Rightarrow> out_stream \<Rightarrow> ('pkt cli_error, unit) outcome \<Rightarrow> out_stream \<Rightarrow> bool) \<Rightarrow>
   output_stream \<Rightarrow> listener \<Rightarrow> 'k world \<Rightarrow> ('pkt cli_error, unit) outcome \<Rightarrow> 'k world \<Rightarrow> bool"
  for os session out where
  cs_end: "incoming_next os l w = Some (None, l', w') \<Longrightarrow> codec_sessions os session out l w (Ok ()) w'"
| cs_accept_error:
    "incoming_next os l w = Some (Some (Err e), l', w') \<Longrightarrow>
     codec_sessions os session out l w (Err (CliIo e)) w'"
| cs_accept_panic:
    "incoming_next os l w = Some (Some Panic, l', w') \<Longrightarrow> codec_sessions os session out l w Panic w'"
| cs_clone_error:
    "\<lbrakk>incoming_next os l w = Some (Some (Ok s), l', w1); output_try_clone os out w1 = (Err e, w2)\<rbrakk> \<Longrightarrow>
     codec_sessions os session out l w (Err (CliIo e)) (input_drop os s w2)"
| cs_clone_panic:
    "\<lbrakk>incoming_next os l w = Some (Some (Ok s), l', w1); output_try_clone os out w1 = (Panic, w2)\<rbrakk> \<Longrightarrow>
     codec_sessions os session out l w Panic (input_drop os s w2)"
| cs_fails:
    "\<lbrakk>incoming_next os l w = Some (Some (Ok s), l', w1); output_try_clone os out w1 = (Ok clone, w2);
      reads_from s inp; writes_to clone w2 out0; session inp out0 r out1; r \<noteq> Ok ()\<rbrakk> \<Longrightarrow>
     codec_sessions os session out l w r (close_session os s clone (after_writing clone out1 w2))"
| cs_session:
    "\<lbrakk>incoming_next os l w = Some (Some (Ok s), l', w1); output_try_clone os out w1 = (Ok clone, w2);
      reads_from s inp; writes_to clone w2 out0; session inp out0 (Ok ()) out1;
      codec_sessions os session out l' (close_session os s clone (after_writing clone out1 w2)) r w'\<rbrakk> \<Longrightarrow>
     codec_sessions os session out l w r w'"

inductive_cases sessions_closed: "codec_sessions os session out (LStdin True) w r w'"
inductive_cases sessions_refused: "codec_sessions os session out (LTcp (Inl e # accepts)) w r w'"

text \<open>From the URIs to the loop.\<close>

definition codec_streams ::
  "'k os \<Rightarrow> (in_stream \<Rightarrow> out_stream \<Rightarrow> ('pkt cli_error, unit) outcome \<Rightarrow> out_stream \<Rightarrow> bool) \<Rightarrow>
   codec_args \<Rightarrow> 'k world \<Rightarrow> ('pkt cli_error, unit) outcome \<Rightarrow> 'k world \<Rightarrow> bool" where
  "codec_streams os session a w r w' \<longleftrightarrow>
     (case listener_from_uri os (arg_input a) w of
        (Err e, w1) \<Rightarrow> r = Err (CliIo e) \<and> w' = w1
      | (Panic, w1) \<Rightarrow> r = Panic \<and> w' = w1
      | (Ok l, w1) \<Rightarrow>
          (case output_from_uri os (arg_output a) w1 of
             (Err e, w2) \<Rightarrow> r = Err (CliIo e) \<and> w' = w2
           | (Panic, w2) \<Rightarrow> r = Panic \<and> w' = w2
           | (Ok out, w2) \<Rightarrow>
               (\<exists>w3. codec_sessions os session out (listener_incoming l) w2 r w3 \<and> w' = output_drop os out w3)))"

section \<open>What a session does\<close>

text \<open>What the two kinds of sessions do once a configuration is accepted.\<close>

lemma start_encoding_cases:
  assumes "block_encoder_new R bs mps rep = Ok be"
  shows "(\<exists>s0 e. start_encoding R urandom tid inp out (encoder_new bs mps rep n) = (Ok s0, e)) \<or>
    (\<exists>x e. get_random_u8 urandom = Err x \<and> start_encoding R urandom tid inp out (encoder_new bs mps rep n) =
      (Err (EncoderBlockDispatcher (DispatchIO x)), e))"
proof -
  have "(\<exists>i. get_random_u8 urandom = Ok i) \<or> (\<exists>x. get_random_u8 urandom = Err x)"
    by (cases urandom) (auto simp: get_random_u8_eq split: list.splits)
  then show ?thesis
    using spawn_block_encoders_Ok [of R "(encoder_new bs mps rep n)\<lparr>enc_packet_forwarder := Some tid\<rparr>" be n
        "tid + 1" "[]"] assms
    by (auto simp: start_encoding_def block_dispatcher_new_def encoder_new_def simp del: upt_Suc)
qed

lemma joins_all: "dispatcher t \<noteq> Inr Panic \<Longrightarrow> joins th t u"
  by (simp add: joins_def)

lemma encoder_wait_joined:
  assumes "start_encoding R urandom tid inp out (encoder_new bs mps rep n) = (Ok s0, e)" "\<And>u. joined u"
  shows "fst (encoder_wait joined e) = Ok ()"
proof -
  have "e = (encoder_new bs mps rep n)
       \<lparr>enc_packet_forwarder := Some tid, enc_block_encoders := [tid + 1..<tid + 1 + n],
        enc_should_stop := Some (tid + 1 + n), enc_block_dispatcher := Some (tid + 1 + n)\<rparr>"
    using start_encoding_Ok [OF assms(1)] by metis
  then show ?thesis using assms(2) by (simp add: encoder_wait_def Let_def list_all_iff)
qed

lemma decoder_wait_joined:
  assumes "start_decoding R tid inp out (decoder_init bs n mps) = (Ok s0, e)" "\<And>u. joined u"
  shows "fst (decoder_wait joined e) = Ok ()"
proof -
  have "e = (decoder_init bs n mps)
       \<lparr>dec_block_forwarder := Some tid, dec_block_decoders := [tid + 1..<tid + 1 + n],
        dec_should_stop := Some (tid + 1 + n), dec_packet_dispatcher := Some (tid + 1 + n)\<rparr>"
    using start_decoding_Ok [OF assms(1)] by metis
  then show ?thesis using assms(2) by (simp add: decoder_wait_def Let_def list_all_iff)
qed

text \<open>
  What a session writes: an encoder the packets of the blocks of its input, labelled such that they
  are in order per worker; a decoder what its workers make of their shares of the packets.
\<close>

definition encoder_yields ::
  "('oti, 'plan, 'enc, 'pkt, 'dec) raptorq \<Rightarrow> codec_args \<times> u32 \<Rightarrow> in_stream \<Rightarrow> bytes \<Rightarrow> bool" where
  "encoder_yields R c inp bs \<longleftrightarrow>
     (case c of (a, rep) \<Rightarrow>
        \<exists>be i zs. block_encoder_new R (arg_block_size a) (arg_max_packet_size a) rep = Ok be \<and>
          labelled R be (arg_workers a) (cut_blocks (arg_block_size a) i (flow codec_retry inp)) zs \<and> bs = wire R zs)"

definition decoder_yields ::
  "('oti, 'plan, 'enc, 'pkt, 'dec) raptorq \<Rightarrow> codec_args \<Rightarrow> in_stream \<Rightarrow> bytes \<Rightarrow> bool" where
  "decoder_yields R a inp bs \<longleftrightarrow>
     (\<exists>k received. infer_packet_size R (arg_block_size a) (arg_max_packet_size a) = Ok k \<and>
        merge_of (arg_workers a) (\<lambda>j. stream_blocks R (with_defaults R (of_nat (arg_block_size a)) (arg_max_packet_size a))
          (arg_block_size a) (filter (\<lambda>p. packet_route R (arg_workers a) p = j) (stream_packets R k (flow codec_retry inp))))
          received \<and>
        bs = concat received)"

text \<open>The arguments that both accept, and the one way in which an encoder may fail all the same.\<close>

definition encoder_proper :: "('oti, 'plan, 'enc, 'pkt, 'dec) raptorq \<Rightarrow> codec_args \<times> u32 \<Rightarrow> bool" where
  "encoder_proper R c \<longleftrightarrow>
     (case c of (a, rep) \<Rightarrow> 0 < arg_block_size a \<and> 0 < arg_workers a \<and>
        (\<exists>be. block_encoder_new R (arg_block_size a) (arg_max_packet_size a) rep = Ok be))"

definition decoder_proper :: "('oti, 'plan, 'enc, 'pkt, 'dec) raptorq \<Rightarrow> codec_args \<Rightarrow> bool" where
  "decoder_proper R a \<longleftrightarrow> 0 < arg_workers a \<and>
     (\<exists>d. block_decoder_new R (arg_block_size a) (arg_max_packet_size a) = Ok d) \<and>
     (\<exists>k. infer_packet_size R (arg_block_size a) (arg_max_packet_size a) = Ok k \<and> 0 < k)"

definition no_entropy :: "entropy \<Rightarrow> ('pkt cli_error, unit) outcome \<Rightarrow> bool" where
  "no_entropy E r \<longleftrightarrow>
     (\<exists>u x. E u \<and> get_random_u8 u = Err x \<and> r = Err (CliEncoder (EncoderBlockDispatcher (DispatchIO x))))"

lemma no_entropy_Ok [simp]: "\<not> no_entropy E (Ok ())"
  by (simp add: no_entropy_def)

lemma no_entropy_works: "(\<And>u. E u \<Longrightarrow> \<exists>i. get_random_u8 u = Ok i) \<Longrightarrow> \<not> no_entropy E r"
  by (fastforce simp: no_entropy_def)

lemma encoder_session_result:
  assumes "encoder_session R E a rep inp out r out'" "encoder_proper R (a, rep)" "benign out"
  shows "benign out' \<and>
    (r = Ok () \<and> (\<exists>bs. encoder_yields R (a, rep) inp bs \<and> written out' = written out @ bs) \<or> no_entropy E r \<and> out' = out)"
proof -
  obtain be where be: "block_encoder_new R (arg_block_size a) (arg_max_packet_size a) rep = Ok be"
      and pos: "0 < arg_block_size a" "0 < arg_workers a"
    using assms(2) by (auto simp: encoder_proper_def)
  let ?new = "encoder_new (arg_block_size a) (arg_max_packet_size a) rep (arg_workers a)"
  obtain urandom tid where u: "E urandom" and s: "case start_encoding R urandom tid inp out ?new of
      (Err x, _) \<Rightarrow> r = Err (CliEncoder x) \<and> out' = out
    | (Panic, _) \<Rightarrow> r = Panic \<and> out' = out
    | (Ok t0, e) \<Rightarrow>
        (\<exists>ls t. psteps (encoder_machine R (arg_workers a)) ls t0 t \<and> all_ended t \<and>
           r = map_err CliEncoder (fst (encoder_wait (joins (enc_block_dispatcher e) t) e)) \<and>
           out' = forwarder t)"
    using assms(1) unfolding encoder_session_def by (elim exE conjE) (rule that)
  consider t0 e where "start_encoding R urandom tid inp out ?new = (Ok t0, e)"
    | x e where "get_random_u8 urandom = Err x" "start_encoding R urandom tid inp out ?new = (Err (EncoderBlockDispatcher (DispatchIO x)), e)"
    using start_encoding_cases [OF be] by blast
  then show ?thesis
  proof cases
    case 1
    then obtain ls t where t: "psteps (encoder_machine R (arg_workers a)) ls t0 t" "all_ended t"
        "r = map_err CliEncoder (fst (encoder_wait (joins (enc_block_dispatcher e) t) e))" "out' = forwarder t"
      using s by auto
    obtain d ws where t0: "t0 = pinit d ws out" using start_encoding_Ok [OF 1] by metis
    have "r = Ok ()"
      using t(3) encoder_wait_joined [OF 1 joins_all [OF encoder_no_panic [OF t(1) [unfolded t0] pos(2)]]]
      by simp
    moreover have "benign out'"
      using psteps_forwarder [OF t(1)] write_packets_benign [OF assms(3)] t(4) by (simp add: t0 pinit_def)
    moreover obtain be' i zs where "block_encoder_new R (arg_block_size a) (arg_max_packet_size a) rep = Ok be'"
        "labelled R be' (arg_workers a) (cut_blocks (arg_block_size a) i (flow codec_retry inp)) zs"
        "written (forwarder t) = written out @ wire R zs"
      by (rule encoder_labelled_from [OF 1 pos assms(3) t(1,2)])
    ultimately show ?thesis unfolding encoder_yields_def prod.case using be t(4) by blast
  next
    case 2
    then show ?thesis using u s assms(3) by (auto simp: no_entropy_def)
  qed
qed

lemma decoder_session_result:
  assumes "decoder_session R a inp out r out'" "decoder_proper R a" "benign out"
  shows "benign out' \<and> r = Ok () \<and> (\<exists>bs. decoder_yields R a inp bs \<and> written out' = written out @ bs)"
proof -
  let ?new = "decoder_init (arg_block_size a) (arg_workers a) (arg_max_packet_size a)"
  obtain d k where ok: "block_decoder_new R (arg_block_size a) (arg_max_packet_size a) = Ok d"
      "infer_packet_size R (arg_block_size a) (arg_max_packet_size a) = Ok k" "0 < k" "0 < arg_workers a"
    using assms(2) by (auto simp: decoder_proper_def)
  obtain tid where s: "case start_decoding R tid inp out ?new of
      (Err x, _) \<Rightarrow> r = Err (CliDecoder x) \<and> out' = out
    | (Panic, _) \<Rightarrow> r = Panic \<and> out' = out
    | (Ok t0, e) \<Rightarrow>
        (\<exists>ls t. psteps (decoder_machine R (arg_workers a)) ls t0 t \<and> all_ended t \<and>
           r = map_err CliDecoder (fst (decoder_wait (joins (dec_packet_dispatcher e) t) e)) \<and>
           out' = forwarder t)"
    using assms(1) unfolding decoder_session_def by (elim exE) (rule that)
  obtain t0 e where st: "start_decoding R tid inp out ?new = (Ok t0, e)"
    using spawn_block_decoders_Ok [of R "?new\<lparr>dec_block_forwarder := Some tid\<rparr>" d "arg_workers a" "tid + 1" "[]"] ok(1,2)
    by (auto simp: start_decoding_def decoder_init_def Let_def simp del: upt_Suc)
  then obtain ls t where t: "psteps (decoder_machine R (arg_workers a)) ls t0 t" "all_ended t"
      "r = map_err CliDecoder (fst (decoder_wait (joins (dec_packet_dispatcher e) t) e))" "out' = forwarder t"
    using s by auto
  have t0: "t0 = pinit (replicate k 0, inp) (replicate (arg_workers a) d) out"
    using start_decoding_Ok [OF st] ok by (metis outcome.inject(1))
  note run = t(1) [unfolded t0]
  have "r = Ok ()" using t(3) decoder_wait_joined [OF st joins_all [OF decoder_no_panic [OF run ok(4)]]] by simp
  moreover have "benign out'"
    using psteps_forwarder [OF t(1)] write_blocks_benign [OF assms(3)] t(4) by (simp add: t0 pinit_def)
  ultimately show ?thesis
    using decoder_threads_output [OF ok(1,3,4) assms(3) run t(2)] ok(2) t(4) unfolding decoder_yields_def by metis
qed

text \<open>Sessions one after the other on the same output, until one fails.\<close>

inductive session_chain ::
  "(in_stream \<Rightarrow> out_stream \<Rightarrow> ('e, unit) outcome \<Rightarrow> out_stream \<Rightarrow> bool) \<Rightarrow>
   in_stream list \<Rightarrow> out_stream \<Rightarrow> ('e, unit) outcome \<Rightarrow> out_stream \<Rightarrow> bool" for session where
  sc_Nil: "session_chain session [] out (Ok ()) out"
| sc_fails: "\<lbrakk>session inp out r out'; r \<noteq> Ok ()\<rbrakk> \<Longrightarrow> session_chain session (inp # inps) out r out'"
| sc_Cons:
    "\<lbrakk>session inp out (Ok ()) out1; session_chain session inps out1 r out'\<rbrakk> \<Longrightarrow>
     session_chain session (inp # inps) out r out'"

inductive_simps session_chain_Nil [simp]: "session_chain session [] out r out'"
inductive_simps session_chain_Cons: "session_chain session (inp # inps) out r out'"

text \<open>On an output other than a raw socket, every session goes on where the previous one ended.\<close>

definition clones :: "'k os \<Rightarrow> bool" where
  "clones os \<longleftrightarrow> (\<forall>j w. clone_handle os j w = (Ok (), w))"

lemma clone_ok:
  "\<lbrakk>clones os; stream_no out = Some i\<rbrakk> \<Longrightarrow> \<exists>c. output_try_clone os out w = (Ok c, w) \<and> stream_no c = Some i"
  by (cases out) (auto simp: map_result_def clones_def)

lemma sessions_step:
  assumes "codec_sessions os session out l w r w'" "clones os" "stream_no out = Some i"
    and nxt: "incoming_next os l w = Some (Some (Ok s), l', w)" and script: "stream_script s = Some inp"
  shows "(\<exists>out1. session inp (out_streams w i) r out1 \<and> r \<noteq> Ok () \<and> w' = set_stream i out1 w) \<or>
    (\<exists>out1. session inp (out_streams w i) (Ok ()) out1 \<and>
       codec_sessions os session out l' (set_stream i out1 w) r w')"
proof -
  obtain c where c: "output_try_clone os out w = (Ok c, w)" "stream_no c = Some i" using clone_ok assms(2,3) by blast
  have simps: "close_session os s c (after_writing c x w) = set_stream i x w" for x
    using c(2) script by (simp add: close_session_def after_writing_def)
  show ?thesis
    by (rule codec_sessions.cases [OF assms(1)])
      (use nxt script c simps in \<open>auto simp: reads_from_def writes_to_def\<close>)
qed

lemma sessions_stdin:
  assumes "codec_sessions os session out (LStdin False) w r w'" "clones os" "stream_no out = Some i"
  shows "\<exists>out'. session_chain session [std_input w] (out_streams w i) r out' \<and> w' = set_stream i out' w"
proof -
  have "incoming_next os (LStdin False) w = Some (Some (Ok (Stdin (std_input w))), LStdin True, w)" by simp
  from sessions_step [OF assms this stream_script.simps(1)]
  show ?thesis
  proof (elim disjE exE conjE)
    fix out1 assume o: "session (std_input w) (out_streams w i) (Ok ()) out1"
      and rest: "codec_sessions os session out (LStdin True) (set_stream i out1 w) r w'"
    have "r = Ok () \<and> w' = set_stream i out1 w"
      using rest by (auto elim: sessions_closed)
    then show ?thesis using o by (auto intro: session_chain.intros)
  qed (auto intro: session_chain.intros)
qed

lemma sessions_tcp:
  assumes "clones os" "stream_no out = Some i"
    and "codec_sessions os session out (LTcp (map Inr inps @ [Inl e])) w r w'"
  shows "\<exists>r' out'. session_chain session inps (out_streams w i) r' out' \<and> w' = set_stream i out' w \<and>
    r = (if r' = Ok () then Err (CliIo e) else r')"
  using assms(3)
proof (induction inps arbitrary: w)
  case Nil
  then have "r = Err (CliIo e) \<and> w' = w"
    by (auto elim: sessions_refused)
  then show ?case by (auto intro!: session_chain.intros exI [of _ "Ok ()"] exI [of _ "out_streams w i"])
next
  case (Cons inp inps)
  have "incoming_next os (LTcp (map Inr (inp # inps) @ [Inl e])) w =
      Some (Some (Ok (InTcp inp)), LTcp (map Inr inps @ [Inl e]), w)" by simp
  from sessions_step [OF Cons.prems assms(1,2) this stream_script.simps(2)]
  show ?case
  proof (elim disjE exE conjE)
    fix out1 assume o: "session inp (out_streams w i) (Ok ()) out1"
      and rest: "codec_sessions os session out (LTcp (map Inr inps @ [Inl e])) (set_stream i out1 w) r w'"
    from Cons.IH [OF rest] obtain r' out' where "session_chain session inps out1 r' out'"
        "w' = set_stream i out' w" "r = (if r' = Ok () then Err (CliIo e) else r')"
      by auto
    then show ?thesis using session_chain.sc_Cons [where session = session, OF o] by blast
  qed (auto intro: session_chain.intros)
qed

lemma codec_streams_stdin:
  assumes "arg_input a = ascii ''-''"
  shows "codec_streams os session a w r w' \<longleftrightarrow>
    (case output_from_uri os (arg_output a) w of
       (Err e, w2) \<Rightarrow> r = Err (CliIo e) \<and> w' = w2
     | (Panic, w2) \<Rightarrow> r = Panic \<and> w' = w2
     | (Ok out, w2) \<Rightarrow>
         (\<exists>w3. codec_sessions os session out (LStdin False) w2 r w3 \<and> w' = output_drop os out w3))"
  using assms unfolding codec_streams_def listener_incoming_def by (simp add: listener_from_uri_def STDIN_def)

lemma session_chain_one: "session_chain session [inp] out r out' \<Longrightarrow> session inp out r out'"
  by (auto simp: session_chain_Cons)

text \<open>
  A session as the loop sees it: with proper arguments it leaves the output in order, and it either
  succeeds and writes what it yields, or fails and writes nothing.
\<close>

locale serving =
  fixes session :: "'c \<Rightarrow> in_stream \<Rightarrow> out_stream \<Rightarrow> ('pkt cli_error, unit) outcome \<Rightarrow> out_stream \<Rightarrow> bool"
    and proper :: "'c \<Rightarrow> bool" and yields :: "'c \<Rightarrow> in_stream \<Rightarrow> bytes \<Rightarrow> bool"
    and fails :: "('pkt cli_error, unit) outcome \<Rightarrow> bool"
  assumes result: "\<lbrakk>session c inp out r out'; proper c; benign out\<rbrakk> \<Longrightarrow> benign out' \<and>
      (r = Ok () \<and> (\<exists>bs. yields c inp bs \<and> written out' = written out @ bs) \<or> fails r \<and> out' = out)"
    and fails_not_Ok: "\<not> fails (Ok ())"
begin

lemma chain:
  assumes "session_chain (session c) inps out r out'" "proper c" "benign out"
  shows "\<exists>bss. length bss \<le> length inps \<and> written out' = written out @ concat bss \<and>
    list_all2 (yields c) (take (length bss) inps) bss \<and> (r = Ok () \<and> length bss = length inps \<or> fails r)"
  using assms
proof (induction rule: session_chain.induct)
  case (sc_Nil out)
  then show ?case by (intro exI [of _ "[]"]) simp
next
  case (sc_fails inp out r out' inps)
  from result [OF sc_fails(1,3,4)] sc_fails(2) show ?case by (intro exI [of _ "[]"]) auto
next
  case (sc_Cons inp out out1 inps r out')
  from result [OF sc_Cons(1,4,5)] fails_not_Ok obtain bs where 1: "benign out1" "yields c inp bs" "written out1 = written out @ bs"
    by auto
  from sc_Cons(3) [OF sc_Cons(4) 1(1)] obtain bss where
      "length bss \<le> length inps" "written out' = written out1 @ concat bss"
      "list_all2 (yields c) (take (length bss) inps) bss" "r = Ok () \<and> length bss = length inps \<or> fails r"
    by blast
  then show ?case using 1(2,3) by (intro exI [of _ "bs # bss"]) auto
qed

text \<open>The command on the standard input: one session.\<close>

lemma stdin_session:
  assumes "codec_streams os (session c) a w r w'" "arg_input a = ascii ''-''"
    and "output_from_uri os (arg_output a) w = (Ok out, w1)" "stream_no out = Some i" "benign (out_streams w1 i)" "clones os"
    and "proper c"
  shows "fails r \<or>
    r = Ok () \<and> (\<exists>bs. yields c (std_input w1) bs \<and> written (out_streams w' i) = written (out_streams w1 i) @ bs)"
proof -
  have "codec_sessions os (session c) out (LStdin False) w1 r w'"
    using assms(1,3,4) by (auto simp: codec_streams_stdin [OF assms(2)])
  from sessions_stdin [OF this assms(6,4)] obtain out' where
      1: "session_chain (session c) [std_input w1] (out_streams w1 i) r out'" "w' = set_stream i out' w1"
    by blast
  from result [OF session_chain_one [OF 1(1)] assms(7,5)] 1(2) show ?thesis by auto
qed

text \<open>The command as a server on TCP: a session for each connection, until \<open>accept\<close> fails.\<close>

lemma tcp_sessions:
  assumes "codec_streams os (session c) a w r w'" "arg_input a = ascii ''tcp://'' @ addr"
    and "tcp_bind os addr w = (Ok (map Inr inps @ [Inl e]), w1)"
    and "output_from_uri os (arg_output a) w1 = (Ok out, w2)" "stream_no out = Some i" "benign (out_streams w2 i)" "clones os"
    and "proper c"
  shows "\<exists>bss. length bss \<le> length inps \<and>
    written (out_streams w' i) = written (out_streams w2 i) @ concat bss \<and>
    list_all2 (yields c) (take (length bss) inps) bss \<and>
    (r = Err (CliIo e) \<and> length bss = length inps \<or> fails r)"
proof -
  have "listener_from_uri os (arg_input a) w = (Ok (LTcp (map Inr inps @ [Inl e])), w1)"
    using uri_disjoint(4) [of addr] assms(2,3) by (simp add: listener_from_uri_def uri_bytes(1) map_result_def flip: TCP_URI_PREFIX_def)
  then have "codec_sessions os (session c) out (LTcp (map Inr inps @ [Inl e])) w2 r w'"
    using assms(1,4,5) by (auto simp: codec_streams_def)
  from sessions_tcp [OF assms(7,5) this] obtain r' out' where
      1: "session_chain (session c) inps (out_streams w2 i) r' out'" "w' = set_stream i out' w2"
      "r = (if r' = Ok () then Err (CliIo e) else r')"
    by blast
  from chain [OF 1(1) assms(8,6)] obtain bss where "length bss \<le> length inps"
      "written out' = written (out_streams w2 i) @ concat bss" "list_all2 (yields c) (take (length bss) inps) bss"
      "r' = Ok () \<and> length bss = length inps \<or> fails r'"
    by blast
  then show ?thesis using 1(2,3) fails_not_Ok by (intro exI [of _ bss]) auto
qed

end

interpretation enc_serving: serving "\<lambda>(a, rep). encoder_session R E a rep" "encoder_proper R" "encoder_yields R" "no_entropy E"
  for R E
  by unfold_locales (auto dest: encoder_session_result)

interpretation dec_serving: serving "decoder_session R" "decoder_proper R" "decoder_yields R" "\<lambda>_. False" for R
  by unfold_locales (auto dest: decoder_session_result)

text \<open>Sizes that the encoder accepts are proper on both sides.\<close>

lemma proper_sizes:
  assumes "rq_packets R" "rq_wire R" "block_encoder_new R (arg_block_size a) (arg_max_packet_size a) rep = Ok be"
    and "0 < arg_block_size a" "0 < arg_workers a"
  shows "encoder_proper R (a, rep)" "decoder_proper R a"
proof -
  have "\<exists>d. block_decoder_new R (arg_block_size a) (arg_max_packet_size a) = Ok d"
    using assms(3) by (auto simp: block_encoder_new_def block_decoder_new_def bind_outcome_Ok_iff)
  then show "encoder_proper R (a, rep)" "decoder_proper R a"
    using assms infer_packet_size_eq [OF assms(1-3)] by (auto simp: encoder_proper_def decoder_proper_def)
qed

text \<open>What is yielded, with the configuration at hand.\<close>

lemma encoder_yields_packets:
  assumes "list_all2 (encoder_yields R (a, rep)) inps bss"
    and "block_encoder_new R (arg_block_size a) (arg_max_packet_size a) rep = Ok be"
  shows "\<exists>zss. bss = map (wire R) zss \<and> list_all2 (\<lambda>inp zs. \<exists>i. labelled R be (arg_workers a)
    (cut_blocks (arg_block_size a) i (flow codec_retry inp)) zs) inps zss"
  using assms(1)
proof (induction rule: list_all2_induct)
  case (Cons inp inps bs bss)
  then obtain i zs zss where "labelled R be (arg_workers a) (cut_blocks (arg_block_size a) i (flow codec_retry inp)) zs"
      "bs = wire R zs" "bss = map (wire R) zss"
      "list_all2 (\<lambda>inp zs. \<exists>i. labelled R be (arg_workers a)
        (cut_blocks (arg_block_size a) i (flow codec_retry inp)) zs) inps zss"
    using assms(2) by (auto simp: encoder_yields_def)
  then show ?case by (intro exI [of _ "zs # zss"]) auto
qed simp

lemma decoder_yields_blocks:
  fixes R :: "('oti, 'plan, 'enc, 'pkt, 'dec) raptorq" and a :: codec_args and k :: nat
  defines "shares inp \<equiv> \<lambda>j. stream_blocks R (with_defaults R (of_nat (arg_block_size a)) (arg_max_packet_size a))
    (arg_block_size a) (filter (\<lambda>p. packet_route R (arg_workers a) p = j) (stream_packets R k (flow codec_retry inp)))"
  assumes "list_all2 (decoder_yields R a) inps bss" "infer_packet_size R (arg_block_size a) (arg_max_packet_size a) = Ok k"
  shows "\<exists>rss. bss = map concat rss \<and> list_all2 (\<lambda>inp. merge_of (arg_workers a) (shares inp)) inps rss"
  using assms(2)
proof (induction rule: list_all2_induct)
  case (Cons inp inps bs bss)
  then obtain rss where "bss = map concat rss" "list_all2 (\<lambda>inp. merge_of (arg_workers a) (shares inp)) inps rss"
    by blast
  moreover obtain received where "merge_of (arg_workers a) (shares inp) received" "bs = concat received"
    using Cons(1) assms(3) by (auto simp: decoder_yields_def shares_def)
  ultimately show ?case by (intro exI [of _ "received # rss"]) auto
qed simp

text \<open>An encoder and a decoder with the same number of workers, without losses in between.\<close>

lemma decoder_undoes_encoder:
  assumes "rq_packets R" "rq_sound R" "rq_wire R" "rq_complete R" "block_encoder_new R bs mps rep = Ok be"
    and "0 < bs" "bs < 2 ^ 64" "bs div unat (symbol_size R (with_defaults R (of_nat bs) mps)) \<le> max_source_symbols"
    and "0 < arg_workers a" "arg_workers a \<le> 128" "arg_block_size a = bs" "arg_max_packet_size a = mps"
    and "arg_block_size b = bs" "arg_max_packet_size b = mps" "arg_workers b = arg_workers a"
    and "encoder_yields R (a, rep) inp packets" "flow codec_retry inp' = packets" "decoder_yields R b inp' output"
  obtains i received where "merge_of (arg_workers a)
      (\<lambda>j. map block_data (filter (\<lambda>x. block_route (arg_workers a) x = j) (cut_blocks bs i (flow codec_retry inp)))) received"
    "output = concat received"
proof -
  obtain i zs where z: "labelled R be (arg_workers a) (cut_blocks bs i (flow codec_retry inp)) zs" "packets = wire R zs"
    using assms(5,11,12,16) by (auto simp: encoder_yields_def)
  obtain received where "merge_of (arg_workers a) (\<lambda>j. stream_blocks R (with_defaults R (of_nat bs) mps) bs
      (filter (\<lambda>p. packet_route R (arg_workers a) p = j)
        (stream_packets R (unat (symbol_size R (be_config be)) + 4) (wire R zs)))) received" "output = concat received"
    using assms(13-15,17,18) infer_packet_size_eq [OF assms(1,3,5)] z(2) by (auto simp: decoder_yields_def)
  then show ?thesis using that decoded_all [OF assms(1-8) z(1) assms(9,10)] by blast
qed

text \<open>Every session has a run.\<close>

lemma encoder_session_intros:
  fixes a :: codec_args and rep :: u32 and E :: entropy
  defines "enc \<equiv> encoder_new (arg_block_size a) (arg_max_packet_size a) rep (arg_workers a)"
  assumes "E u"
  shows "\<lbrakk>start_encoding R u tid inp out enc = (Ok t0, e); psteps (encoder_machine R (arg_workers a)) ls t0 t;
     all_ended t; r = map_err CliEncoder (fst (encoder_wait (joins (enc_block_dispatcher e) t) e))\<rbrakk> \<Longrightarrow>
     encoder_session R E a rep inp out r (forwarder t)"
    and "start_encoding R u tid inp out enc = (Err x, e) \<Longrightarrow>
     encoder_session R E a rep inp out (Err (CliEncoder x)) out"
    and "start_encoding R u tid inp out enc = (Panic, e) \<Longrightarrow> encoder_session R E a rep inp out Panic out"
  unfolding encoder_session_def enc_def
  by (rule exI [of _ u], rule exI [of _ tid], rule conjI, rule assms(2), force)+

lemma decoder_session_intros:
  fixes a :: codec_args
  defines "new \<equiv> decoder_init (arg_block_size a) (arg_workers a) (arg_max_packet_size a)"
  shows "\<lbrakk>start_decoding R tid inp out new = (Ok t0, e); psteps (decoder_machine R (arg_workers a)) ls t0 t;
     all_ended t; r = map_err CliDecoder (fst (decoder_wait (joins (dec_packet_dispatcher e) t) e))\<rbrakk> \<Longrightarrow>
     decoder_session R a inp out r (forwarder t)"
    and "start_decoding R tid inp out new = (Err x, e) \<Longrightarrow> decoder_session R a inp out (Err (CliDecoder x)) out"
    and "start_decoding R tid inp out new = (Panic, e) \<Longrightarrow> decoder_session R a inp out Panic out"
  unfolding decoder_session_def new_def by (rule exI [of _ tid], auto)+

lemma encoder_session_exists:
  assumes "0 < arg_block_size a" "E u"
  shows "\<exists>r out'. encoder_session R E a rep inp out r out'"
proof -
  let ?new = "encoder_new (arg_block_size a) (arg_max_packet_size a) rep (arg_workers a)"
  obtain x e where st: "start_encoding R u 0 inp out ?new = (x, e)" by fastforce
  show ?thesis
  proof (cases x)
    case (Ok t0)
    obtain bd ws where t0: "t0 = pinit (bd, inp) ws out" "length ws = arg_workers a" "0 < bdisp_block_size bd"
      using start_encoding_Ok [OF st [unfolded Ok]] assms(1) by (metis block_dispatcher.select_convs(1))
    obtain ls t where "psteps (encoder_machine R (arg_workers a)) ls t0 t" "all_ended t"
      using enc_pipe.some_run [of "(bd, inp)" ws "arg_workers a" R out] t0 by auto
    then show ?thesis using encoder_session_intros(1) [where E = E and u = u, OF assms(2) st [unfolded Ok]] by blast
  next
    case (Err y)
    then show ?thesis using encoder_session_intros(2) [where E = E and u = u, OF assms(2)] st by blast
  next
    case Panic
    then show ?thesis using encoder_session_intros(3) [where E = E and u = u, OF assms(2)] st by blast
  qed
qed

text \<open>
  A session cannot get stuck: whatever its threads have done so far, they can go on until all of them
  have ended and \<open>wait\<close> returns.
\<close>

definition encoder_goes_on ::
  "('oti, 'plan, 'enc, 'pkt, 'dec) raptorq \<Rightarrow> entropy \<Rightarrow> codec_args \<Rightarrow> u32 \<Rightarrow> bool" where
  "encoder_goes_on R E a rep \<longleftrightarrow>
     (\<forall>u tid inp out t0 e ls t. E u \<and>
        start_encoding R u tid inp out
          (encoder_new (arg_block_size a) (arg_max_packet_size a) rep (arg_workers a)) = (Ok t0, e) \<and>
        psteps (encoder_machine R (arg_workers a)) ls t0 t \<longrightarrow>
        (\<exists>ls' t' r. psteps (encoder_machine R (arg_workers a)) (ls @ ls') t0 t' \<and> all_ended t' \<and>
           encoder_session R E a rep inp out r (forwarder t')))"

definition decoder_goes_on :: "('oti, 'plan, 'enc, 'pkt, 'dec) raptorq \<Rightarrow> codec_args \<Rightarrow> bool" where
  "decoder_goes_on R a \<longleftrightarrow>
     (\<forall>tid inp out t0 e ls t.
        start_decoding R tid inp out
          (decoder_init (arg_block_size a) (arg_workers a) (arg_max_packet_size a)) = (Ok t0, e) \<and>
        psteps (decoder_machine R (arg_workers a)) ls t0 t \<longrightarrow>
        (\<exists>ls' t' r. psteps (decoder_machine R (arg_workers a)) (ls @ ls') t0 t' \<and> all_ended t' \<and>
           decoder_session R a inp out r (forwarder t')))"

lemma encoder_goes_on:
  assumes "0 < arg_block_size a"
  shows "encoder_goes_on R E a rep"
  unfolding encoder_goes_on_def
proof (intro allI impI, elim conjE)
  fix u tid inp out t0 e ls t
  assume u: "E u" and run: "psteps (encoder_machine R (arg_workers a)) ls t0 t"
    and st: "start_encoding R u tid inp out
      (encoder_new (arg_block_size a) (arg_max_packet_size a) rep (arg_workers a)) = (Ok t0, e)"
  obtain bd ws where t0: "t0 = pinit (bd, inp) ws out" "length ws = arg_workers a" "0 < bdisp_block_size bd"
    using start_encoding_Ok [OF st] assms by (metis block_dispatcher.select_convs(1))
  have "0 < bdisp_block_size (fst (bd, inp))" using t0(3) by simp
  from enc_pipe.every_run [OF this t0(2), of R out] run
  obtain ls' t' where "psteps (encoder_machine R (arg_workers a)) (ls @ ls') t0 t'" "all_ended t'"
    unfolding t0(1) by blast
  then show "\<exists>ls' t' r. psteps (encoder_machine R (arg_workers a)) (ls @ ls') t0 t' \<and> all_ended t' \<and>
      encoder_session R E a rep inp out r (forwarder t')"
    using encoder_session_intros(1) [where E = E and u = u, OF u st] by blast
qed

lemma infer_packet_size_pos:
  assumes "rq_packets R" "rq_wire R" "infer_packet_size R bs mps = Ok k"
  shows "0 < k"
proof -
  obtain be where "block_encoder_new R bs mps 1 = Ok be"
    using assms(3) by (cases "block_encoder_new R bs mps 1") (auto simp: infer_packet_size_def)
  then show ?thesis using infer_packet_size_eq [OF assms(1,2)] assms(3) by auto
qed

lemma decoder_session_exists:
  assumes "rq_packets R" "rq_wire R"
  shows "\<exists>r out'. decoder_session R a inp out r out'"
proof -
  let ?new = "decoder_init (arg_block_size a) (arg_workers a) (arg_max_packet_size a)"
  obtain x e where st: "start_decoding R 0 inp out ?new = (x, e)" by fastforce
  show ?thesis
  proof (cases x)
    case (Ok t0)
    obtain k ws where t0: "t0 = pinit (replicate k 0, inp) ws out" "length ws = arg_workers a" "0 < k"
      using start_decoding_Ok [OF st [unfolded Ok]] infer_packet_size_pos [OF assms] by metis
    obtain ls t where "psteps (decoder_machine R (arg_workers a)) ls t0 t" "all_ended t"
      using dec_pipe.some_run [of "(replicate k 0, inp)" ws "arg_workers a" R out] t0 by auto
    then show ?thesis using decoder_session_intros(1) [OF st [unfolded Ok]] by blast
  next
    case (Err y)
    then show ?thesis using decoder_session_intros(2) st by blast
  next
    case Panic
    then show ?thesis using decoder_session_intros(3) st by blast
  qed
qed

lemma encoder_session_runs:
  assumes "block_encoder_new R (arg_block_size a) (arg_max_packet_size a) rep = Ok be"
    and "0 < arg_block_size a" "0 < arg_workers a" "E u" "\<And>v. E v \<Longrightarrow> \<exists>i. get_random_u8 v = Ok i" "benign out"
  shows "\<exists>out'. encoder_session R E a rep inp out (Ok ()) out'"
proof -
  obtain r out' where r: "encoder_session R E a rep inp out r out'" using encoder_session_exists [where E = E and u = u, OF assms(2,4)] by blast
  moreover have "\<not> no_entropy E r" using assms(5) by (rule no_entropy_works)
  ultimately show ?thesis
    using encoder_session_result [OF r _ assms(6)] assms(1-3) by (auto simp: encoder_proper_def)
qed

lemma decoder_goes_on:
  assumes "rq_packets R" "rq_wire R"
  shows "decoder_goes_on R a"
  unfolding decoder_goes_on_def
proof (intro allI impI, elim conjE)
  fix tid inp out t0 e ls t
  assume run: "psteps (decoder_machine R (arg_workers a)) ls t0 t"
    and st: "start_decoding R tid inp out
      (decoder_init (arg_block_size a) (arg_workers a) (arg_max_packet_size a)) = (Ok t0, e)"
  obtain k ws where t0: "t0 = pinit (replicate k 0, inp) ws out" "length ws = arg_workers a" "0 < k"
    using start_decoding_Ok [OF st] infer_packet_size_pos [OF assms] by metis
  have "0 < length (fst (replicate k (0 :: byte), inp))" using t0(3) by simp
  from dec_pipe.every_run [OF this t0(2), of R out] run
  obtain ls' t' where "psteps (decoder_machine R (arg_workers a)) (ls @ ls') t0 t'" "all_ended t'"
    unfolding t0(1) by blast
  then show "\<exists>ls' t' r. psteps (decoder_machine R (arg_workers a)) (ls @ ls') t0 t' \<and> all_ended t' \<and>
      decoder_session R a inp out r (forwarder t')"
    using decoder_session_intros(1) [OF st] by blast
qed

text \<open>On the standard input, the commands return as soon as the session does.\<close>

lemma sessions_step_intros:
  assumes "incoming_next os l w = Some (Some (Ok s), l', w)" "stream_script s = Some inp" "clones os"
    and "stream_no out = Some i" "session inp (out_streams w i) r1 out1"
  shows "r1 \<noteq> Ok () \<Longrightarrow> codec_sessions os session out l w r1 (set_stream i out1 w)"
    and "\<lbrakk>r1 = Ok (); codec_sessions os session out l' (set_stream i out1 w) r w'\<rbrakk> \<Longrightarrow>
      codec_sessions os session out l w r w'"
proof -
  obtain c where c: "output_try_clone os out w = (Ok c, w)" "stream_no c = Some i" using clone_ok assms(3,4) by blast
  have cl: "close_session os s c (after_writing c out1 w) = set_stream i out1 w"
    using c(2) assms(2) by (simp add: close_session_def after_writing_def)
  have rw: "reads_from s inp" "writes_to c w (out_streams w i)"
    using c(2) assms(2) by (simp_all add: reads_from_def writes_to_def)
  note cs_fails [where session = session, OF assms(1) c(1) rw assms(5), unfolded cl]
  then show "r1 \<noteq> Ok () \<Longrightarrow> codec_sessions os session out l w r1 (set_stream i out1 w)" .
  show "codec_sessions os session out l w r w'"
    if "r1 = Ok ()" "codec_sessions os session out l' (set_stream i out1 w) r w'"
    using cs_session [where session = session, OF assms(1) c(1) rw] assms(5) that cl by simp
qed

lemma sessions_stdin_result:
  assumes "session (std_input w) (out_streams w i) r out1" "clones os" "stream_no out = Some i"
  shows "codec_sessions os session out (LStdin False) w r (set_stream i out1 w)"
proof -
  have nxt: "incoming_next os (LStdin False) w = Some (Some (Ok (Stdin (std_input w))), LStdin True, w)" by simp
  note step = sessions_step_intros [where session = session, OF nxt stream_script.simps(1) assms(2,3,1)]
  have "codec_sessions os session out (LStdin True) (set_stream i out1 w) (Ok ()) (set_stream i out1 w)"
    by (rule cs_end [where l' = "LStdin True"]) simp
  then show ?thesis using step by (cases "r = Ok ()") auto
qed

lemma sessions_stdin_exists:
  assumes "\<And>inp out. \<exists>r out'. session inp out r out'"
  shows "\<exists>r w'. codec_sessions os session out (LStdin False) w r w'"
proof -
  have nxt: "incoming_next os (LStdin False) w = Some (Some (Ok (Stdin (std_input w))), LStdin True, w)" by simp
  obtain x w2 where x: "output_try_clone os out w = (x, w2)" by fastforce
  show ?thesis
  proof (cases x)
    case (Ok c)
    obtain out0 where out0: "writes_to c w2 out0" by (cases "stream_no c") (auto simp: writes_to_def)
    have rd: "reads_from (Stdin (std_input w)) (std_input w)" by (simp add: reads_from_def)
    obtain r out1 where s: "session (std_input w) out0 r out1" using assms by blast
    let ?w3 = "close_session os (Stdin (std_input w)) c (after_writing c out1 w2)"
    have end': "codec_sessions os session out (LStdin True) ?w3 (Ok ()) ?w3"
      by (rule cs_end [where l' = "LStdin True"]) simp
    show ?thesis
      using cs_session [where session = session, OF nxt x [unfolded Ok] rd out0 _ end']
        cs_fails [where session = session, OF nxt x [unfolded Ok] rd out0 s] s
      by (cases "r = Ok ()") auto
  next
    case (Err e)
    then show ?thesis using cs_clone_error [OF nxt] x by blast
  next
    case Panic
    then show ?thesis using cs_clone_panic [OF nxt] x by blast
  qed
qed

lemma codec_streams_stdin_exists:
  assumes "arg_input a = ascii ''-''" "\<And>inp out. \<exists>r out'. session inp out r out'"
  shows "\<exists>r w'. codec_streams os session a w r w'"
proof -
  obtain x w2 where x: "output_from_uri os (arg_output a) w = (x, w2)" by fastforce
  have "\<exists>r w'. codec_sessions os session out (LStdin False) w2 r w'" for out
    using assms(2) by (rule sessions_stdin_exists)
  then show ?thesis by (cases x) (auto simp: codec_streams_stdin [OF assms(1)] x)
qed

lemma decoder_session_runs:
  assumes "rq_packets R" "rq_wire R" "decoder_proper R a" "benign out"
  shows "\<exists>out'. decoder_session R a inp out (Ok ()) out'"
  using decoder_session_exists [OF assms(1,2), of a inp out] decoder_session_result [OF _ assms(3,4)] by metis

text \<open>Two ways for a command to end: after the standard input, and when \<open>accept\<close> fails.\<close>

lemma codec_streams_stdin_ends:
  assumes "arg_input a = ascii ''-''" "output_from_uri os (arg_output a) w = (Ok out, w)" "stream_no out = Some i" "clones os"
    and "session (std_input w) (out_streams w i) r out'"
  shows "codec_streams os session a w r (set_stream i out' w)"
  using sessions_stdin_result [where session = session, OF assms(5,4,3)] assms(2,3)
  by (auto simp: codec_streams_stdin [OF assms(1)] intro: exI [of _ "set_stream i out' w"])

lemma codec_streams_tcp_ends:
  assumes "arg_input a = ascii ''tcp://'' @ addr" "tcp_bind os addr w = (Ok [Inr inp, Inl e], w)"
    and "output_from_uri os (arg_output a) w = (Ok out, w)" "stream_no out = Some i" "clones os"
    and "session inp (out_streams w i) (Ok ()) out'"
  shows "codec_streams os session a w (Err (CliIo e)) (set_stream i out' w)"
proof -
  have nxt: "incoming_next os (LTcp [Inr inp, Inl e]) w = Some (Some (Ok (InTcp inp)), LTcp [Inl e], w)" by simp
  have "codec_sessions os session out (LTcp [Inl e]) (set_stream i out' w) (Err (CliIo e)) (set_stream i out' w)"
    by (rule cs_accept_error [where l' = "LTcp []"]) simp
  from sessions_step_intros(2) [where session = session, OF nxt stream_script.simps(2) assms(5,4,6) refl this]
  have "codec_sessions os session out (LTcp [Inr inp, Inl e]) w (Err (CliIo e)) (set_stream i out' w)" .
  moreover have "listener_from_uri os (arg_input a) w = (Ok (LTcp [Inr inp, Inl e]), w)"
    using uri_disjoint(4) [of addr] assms(1,2)
    by (simp add: listener_from_uri_def uri_bytes(1) map_result_def flip: TCP_URI_PREFIX_def)
  ultimately show ?thesis using assms(3,4) by (auto simp: codec_streams_def intro: exI [of _ "set_stream i out' w"])
qed

end
