(* ===== verification/Cli.thy ===== *)
theory Cli
  imports Sessions
begin

text \<open>
  The model of \<open>garuda-codec/src/main.rs\<close>: the four commands. Parsing the command line is left to
  the crate \<open>clap\<close>; the model starts from its result. The sessions of \<open>encoder\<close> and \<open>decoder\<close> are in
  \<open>Sessions\<close>.
\<close>

section \<open>Arguments\<close>

record encoder_args =
  arg_codec :: codec_args
  arg_redundancy :: u32

record send_args =
  send_file_path :: str
  send_address :: str
  send_block_size :: usize

record receive_args =
  receive_directory :: str
  receive_address :: str
  receive_block_size :: usize

datatype command =
    CmdEncoder encoder_args | CmdDecoder codec_args | CmdSend send_args | CmdReceive receive_args

text \<open>The arguments with the default values of the options.\<close>

definition codec_args_default :: "str \<Rightarrow> str \<Rightarrow> codec_args" where
  "codec_args_default inp out =
     \<lparr>arg_input = inp, arg_output = out, arg_block_size = 287232, arg_max_packet_size = 1500,
      arg_workers = 1\<rparr>"

definition encoder_args_default :: "str \<Rightarrow> str \<Rightarrow> encoder_args" where
  "encoder_args_default inp out = \<lparr>arg_codec = codec_args_default inp out, arg_redundancy = 30\<rparr>"

definition send_args_default :: "str \<Rightarrow> str \<Rightarrow> send_args" where
  "send_args_default path address =
     \<lparr>send_file_path = path, send_address = address, send_block_size = 287232\<rparr>"

definition receive_args_default :: "str \<Rightarrow> str \<Rightarrow> receive_args" where
  "receive_args_default dir address =
     \<lparr>receive_directory = dir, receive_address = address, receive_block_size = 287232\<rparr>"

section \<open>Commands\<close>

definition run_encoder ::
  "('oti, 'plan, 'enc, 'pkt, 'dec) raptorq \<Rightarrow> entropy \<Rightarrow> 'k os \<Rightarrow> encoder_args \<Rightarrow> 'k world \<Rightarrow>
   ('pkt cli_error, unit) outcome \<Rightarrow> 'k world \<Rightarrow> bool" where
  "run_encoder R E os args w r w' \<longleftrightarrow>
     (case compute_repair_packets_per_block R (arg_block_size (arg_codec args))
             (arg_max_packet_size (arg_codec args)) (arg_redundancy args) of
        Err e \<Rightarrow> r = Err (CliRepair e) \<and> w' = w
      | Panic \<Rightarrow> r = Panic \<and> w' = w
      | Ok rep \<Rightarrow> codec_streams os (encoder_session R E (arg_codec args) rep) (arg_codec args) w r w')"

definition run_decoder ::
  "('oti, 'plan, 'enc, 'pkt, 'dec) raptorq \<Rightarrow> 'k os \<Rightarrow> codec_args \<Rightarrow> 'k world \<Rightarrow>
   ('pkt cli_error, unit) outcome \<Rightarrow> 'k world \<Rightarrow> bool" where
  "run_decoder R os args w r w' \<longleftrightarrow> codec_streams os (decoder_session R args) args w r w'"

text \<open>
  \<open>main\<close>, after the arguments are parsed; \<open>fid\<close> is the identifier that \<open>send\<close> draws, and \<open>E\<close> says what
  \<open>/dev/urandom\<close> may give to the sessions of an encoder.
\<close>

definition main ::
  "('oti, 'plan, 'enc, 'pkt, 'dec) raptorq \<Rightarrow> entropy \<Rightarrow> 'k os \<Rightarrow> ('uuid, 'ue) uuid_lib \<Rightarrow> 'f host \<Rightarrow> 'uuid \<Rightarrow>
   command \<Rightarrow> 'k world \<times> 'f disk \<Rightarrow> ('pkt cli_error, unit) outcome \<Rightarrow> 'k world \<times> 'f disk \<Rightarrow> bool" where
  "main R E os U H fid cmd s r s' \<longleftrightarrow>
     (case cmd of
        CmdEncoder args \<Rightarrow> run_encoder R E os args (fst s) r (fst s') \<and> snd s' = snd s
      | CmdDecoder args \<Rightarrow> run_decoder R os args (fst s) r (fst s') \<and> snd s' = snd s
      | CmdSend args \<Rightarrow>
          (\<exists>x. send_file os U H fid (send_file_path args) (send_address args) (send_block_size args) (fst s) =
             Some (x, fst s') \<and> r = map_err CliTransfer x) \<and> snd s' = snd s
      | CmdReceive args \<Rightarrow>
          (\<exists>x. receive os U H (receive_directory args) (receive_address args) (receive_block_size args)
                 (snd s) (fst s) = Some (x, snd s', fst s') \<and> r = map_err CliTransfer x))"

section \<open>Properties\<close>

text \<open>
  C2. \<open>garuda encoder\<close> writing to a stream and \<open>garuda decoder\<close> reading its bytes back, with the same
  number of workers, at most 128, and no loss: unless the entropy source fails, both commands succeed
  and the decoder writes the blocks that the encoder has read, each worker its share in order; with
  one worker, exactly the bytes that the encoder has read, up to an incomplete last block.
\<close>

theorem command_line_identity:
  assumes "rq_packets R" "rq_sound R" "rq_wire R" "rq_complete R"
    and "compute_repair_packets_per_block R bs mps red = Ok rep" "block_encoder_new R bs mps rep = Ok be"
    and "0 < bs" "bs < 2 ^ 64" "bs div unat (symbol_size R (with_defaults R (of_nat bs) mps)) \<le> max_source_symbols"
    and "0 < n" "n \<le> 128"
    and "main R E os U H fid (CmdEncoder \<lparr>arg_codec = \<lparr>arg_input = ascii ''-'', arg_output = o1,
        arg_block_size = bs, arg_max_packet_size = mps, arg_workers = n\<rparr>, arg_redundancy = red\<rparr>) (w, d) r (w', d')"
    and "output_from_uri os o1 w = (Ok out, w1)" "stream_no out = Some i" "benign (out_streams w1 i)"
    and "written (out_streams w1 i) = []" "clones os"
    and "main R E2 os2 U2 H2 fid2 (CmdDecoder \<lparr>arg_input = ascii ''-'', arg_output = o2,
        arg_block_size = bs, arg_max_packet_size = mps, arg_workers = n\<rparr>) (v, dv) q (v', dv')"
    and "output_from_uri os2 o2 v = (Ok out2, v1)" "stream_no out2 = Some j" "benign (out_streams v1 j)" "clones os2"
    and "flow codec_retry (std_input v1) = written (out_streams w' i)"
  shows "no_entropy E r \<or> r = Ok () \<and> q = Ok () \<and>
    (\<exists>b received. merge_of n (\<lambda>k. map block_data (filter (\<lambda>x. block_route n x = k)
        (cut_blocks bs b (flow codec_retry (std_input w1))))) received \<and>
      written (out_streams v' j) = written (out_streams v1 j) @ concat received \<and>
      (n = 1 \<longrightarrow> concat received =
        take (bs * (length (flow codec_retry (std_input w1)) div bs)) (flow codec_retry (std_input w1))))"
proof -
  let ?a = "\<lparr>arg_input = ascii ''-'', arg_output = o1, arg_block_size = bs, arg_max_packet_size = mps, arg_workers = n\<rparr>"
  let ?b = "\<lparr>arg_input = ascii ''-'', arg_output = o2, arg_block_size = bs, arg_max_packet_size = mps, arg_workers = n\<rparr>"
  have proper: "encoder_proper R (?a, rep)" "decoder_proper R ?b"
    using proper_sizes [OF assms(1,3), of ?a rep be] proper_sizes [OF assms(1,3), of ?b rep be] assms(6,7,10) by simp_all
  have "codec_streams os (case (?a, rep) of (a, rep) \<Rightarrow> encoder_session R E a rep) ?a w r w'"
    using assms(12) by (simp add: main_def run_encoder_def assms(5))
  from enc_serving.stdin_session [OF this _ _ assms(14,15,17) proper(1)] assms(13,16)
  consider "no_entropy E r" | packets where "r = Ok ()" "encoder_yields R (?a, rep) (std_input w1) packets" "written (out_streams w' i) = packets"
    by auto
  then show ?thesis
  proof cases
    case 2
    have "codec_streams os2 (decoder_session R ?b) ?b v q v'" using assms(18) by (simp add: main_def run_decoder_def)
    from dec_serving.stdin_session [OF this _ _ assms(20-22) proper(2)] assms(19)
    obtain bytes_out where q: "q = Ok ()" "decoder_yields R ?b (std_input v1) bytes_out"
        "written (out_streams v' j) = written (out_streams v1 j) @ bytes_out" by auto
    obtain b received where "merge_of n (\<lambda>k. map block_data (filter (\<lambda>x. block_route n x = k)
        (cut_blocks bs b (flow codec_retry (std_input w1))))) received" "bytes_out = concat received"
      using decoder_undoes_encoder [OF assms(1-4,6-9), of ?a ?b, simplified, OF assms(10,11) 2(2) _ q(2)] assms(23) 2(3)
      by (metis One_nat_def)
    then show ?thesis using q 2(1) decoded_identity [OF assms(7)] by (intro disjI2 conjI exI) auto
  qed blast
qed

text \<open>The entropy source and the streams of the examples.\<close>

lemma example_entropy:
  "(=) (Inr [Bytes [7]]) u \<Longrightarrow> \<exists>i. get_random_u8 u = Ok i" "\<not> no_entropy ((=) (Inr [Bytes [7]])) r"
  by (auto intro!: no_entropy_works)

lemma example_streams:
  "clones table_os" "stream_no Stdout = Some 0" "output_from_uri (table_os\<lparr>tcp_bind := f\<rparr>) (ascii ''-'') w = (Ok Stdout, w)"
  "output_from_uri table_os (ascii ''-'') w = (Ok Stdout, w)" "clones (table_os\<lparr>tcp_bind := f\<rparr>)"
  by (simp_all add: clones_def table_os_def output_from_uri_def STDOUT_def)

lemma example_codec:
  "compute_repair_packets_per_block rep_code 2 5 30 = Ok 1"
  "2 div unat (symbol_size rep_code (with_defaults rep_code (of_nat 2) 5)) \<le> max_source_symbols"
  "(0 :: nat) < 2" "(2 :: nat) < 2 ^ 64"
  by (code_simp, simp_all add: rep_code_def max_source_symbols_def)

theorem command_line_identity_witness:
  "\<exists>w' v'. main rep_code ((=) (Inr [Bytes [7]])) table_os uuid128 (one_file_host []) 7
      (CmdEncoder \<lparr>arg_codec = \<lparr>arg_input = ascii ''-'', arg_output = ascii ''-'',
        arg_block_size = 2, arg_max_packet_size = 5, arg_workers = 1\<rparr>, arg_redundancy = 30\<rparr>)
      (idle_world\<lparr>std_input := [Bytes [1, 2, 3]]\<rparr>, \<lparr>disk_files = Map.empty, disk_script = []\<rparr>)
      (Ok ()) (w', \<lparr>disk_files = Map.empty, disk_script = []\<rparr>) \<and>
    main rep_code ((=) (Inr [Bytes [7]])) table_os uuid128 (one_file_host []) 7
      (CmdDecoder \<lparr>arg_input = ascii ''-'', arg_output = ascii ''-'',
        arg_block_size = 2, arg_max_packet_size = 5, arg_workers = 1\<rparr>)
      (idle_world\<lparr>std_input := [Bytes (written (out_streams w' 0))]\<rparr>, \<lparr>disk_files = Map.empty, disk_script = []\<rparr>)
      (Ok ()) (v', \<lparr>disk_files = Map.empty, disk_script = []\<rparr>) \<and>
    written (out_streams v' 0) = [1, 2]"
proof -
  let ?disk = "\<lparr>disk_files = Map.empty, disk_script = []\<rparr> :: str disk"
  let ?a = "\<lparr>arg_input = ascii ''-'', arg_output = ascii ''-'', arg_block_size = 2, arg_max_packet_size = 5, arg_workers = 1\<rparr>"
  let ?w = "idle_world\<lparr>std_input := [Bytes [1, 2, 3]]\<rparr>"
  have out: "benign (out_streams ?w 0)" "written (out_streams ?w 0) = []"
    by (simp_all add: idle_world_def benign_def written_def)
  obtain out1 where 1: "encoder_session rep_code ((=) (Inr [Bytes [7]])) ?a 1 (std_input ?w) (out_streams ?w 0) (Ok ()) out1"
    using encoder_session_runs [of rep_code ?a 1 rep_be "(=) (Inr [Bytes [7]])", OF _ _ _ refl example_entropy(1) out(1)]
      rep_encoder by auto
  let ?w' = "set_stream 0 out1 ?w"
  have m: "main rep_code ((=) (Inr [Bytes [7]])) table_os uuid128 (one_file_host []) 7 (CmdEncoder \<lparr>arg_codec = ?a, arg_redundancy = 30\<rparr>)
      (?w, ?disk) (Ok ()) (?w', ?disk)"
    using codec_streams_stdin_ends [where session = "encoder_session rep_code ((=) (Inr [Bytes [7]])) ?a 1" and a = ?a,
        OF _ _ example_streams(2,1) 1] example_streams(4) by (simp add: main_def run_encoder_def example_codec(1))
  let ?v = "idle_world\<lparr>std_input := [Bytes (written (out_streams ?w' 0))]\<rparr>"
  have proper: "decoder_proper rep_code ?a"
    using proper_sizes(2) [OF rep_code_packets rep_code_wire, of ?a 1 rep_be] rep_encoder by simp
  have outv: "benign (out_streams ?v 0)" "flow codec_retry (std_input ?v) = written (out_streams ?w' 0)"
    using out(1) by simp_all
  obtain out2 where 2: "decoder_session rep_code ?a (std_input ?v) (out_streams ?v 0) (Ok ()) out2"
    using decoder_session_runs [OF rep_code_packets rep_code_wire proper outv(1)] by blast
  let ?v' = "set_stream 0 out2 ?v"
  have m2: "main rep_code ((=) (Inr [Bytes [7]])) table_os uuid128 (one_file_host []) 7 (CmdDecoder ?a) (?v, ?disk) (Ok ()) (?v', ?disk)"
    using codec_streams_stdin_ends [where session = "decoder_session rep_code ?a" and a = ?a,
        OF _ _ example_streams(2,1) 2] example_streams(4) by (simp add: main_def run_decoder_def)
  have "written (out_streams ?v' 0) = [1, 2]"
    using command_line_identity [OF rep_code_packets rep_code_sound rep_code_wire rep_code_complete example_codec(1) rep_encoder
        example_codec(3,4,2) zero_less_one _ m example_streams(4,2) out example_streams(1) m2 example_streams(4,2) outv(1)
        example_streams(1) outv(2)] out(2) by (auto simp: example_entropy(2))
  then show ?thesis using m m2 by blast
qed

text \<open>
  C18. \<open>garuda encoder\<close> as a server on TCP: connections are served one after the other, each as a
  session with its own block ids and the same output. The output holds, one after the other, the
  packets of the blocks of each connection, in order per worker; the command ends with the first
  error of \<open>accept\<close>, after all connections before it, or when the entropy source fails a session.
\<close>

theorem encoder_serves_connections:
  assumes "compute_repair_packets_per_block R bs mps red = Ok rep" "block_encoder_new R bs mps rep = Ok be"
    and "0 < bs" "0 < n" "clones os"
    and "main R E os U H fid (CmdEncoder \<lparr>arg_codec = \<lparr>arg_input = ascii ''tcp://'' @ addr, arg_output = o1,
        arg_block_size = bs, arg_max_packet_size = mps, arg_workers = n\<rparr>, arg_redundancy = red\<rparr>) (w, d) r (w', d')"
    and "tcp_bind os addr w = (Ok (map Inr inps @ [Inl e]), w1)"
    and "output_from_uri os o1 w1 = (Ok out, w2)" "stream_no out = Some i" "benign (out_streams w2 i)"
  shows "\<exists>zss. length zss \<le> length inps \<and>
    written (out_streams w' i) = written (out_streams w2 i) @ concat (map (wire R) zss) \<and>
    list_all2 (\<lambda>inp zs. \<exists>b. labelled R be n (cut_blocks bs b (flow codec_retry inp)) zs) (take (length zss) inps) zss \<and>
    (r = Err (CliIo e) \<and> length zss = length inps \<or> no_entropy E r) \<and> d' = d"
proof -
  let ?a = "\<lparr>arg_input = ascii ''tcp://'' @ addr, arg_output = o1, arg_block_size = bs, arg_max_packet_size = mps,
    arg_workers = n\<rparr>"
  have proper: "encoder_proper R (?a, rep)" using assms(2-4) by (simp add: encoder_proper_def)
  have "codec_streams os (case (?a, rep) of (a, rep) \<Rightarrow> encoder_session R E a rep) ?a w r w'" and d: "d' = d"
    using assms(6) by (simp_all add: main_def run_encoder_def assms(1))
  from enc_serving.tcp_sessions [OF this(1) _ assms(7) _ assms(9,10,5) proper] assms(8) obtain bss where
      bss: "length bss \<le> length inps" "written (out_streams w' i) = written (out_streams w2 i) @ concat bss"
      "list_all2 (encoder_yields R (?a, rep)) (take (length bss) inps) bss"
      "r = Err (CliIo e) \<and> length bss = length inps \<or> no_entropy E r"
    by auto
  obtain zss where "bss = map (wire R) zss"
      "list_all2 (\<lambda>inp zs. \<exists>b. labelled R be n (cut_blocks bs b (flow codec_retry inp)) zs) (take (length bss) inps) zss"
    using encoder_yields_packets [OF bss(3), of be] assms(2) by auto
  then show ?thesis using bss(1,2,4) d by (intro exI [of _ zss]) simp
qed

theorem encoder_serves_connections_witness:
  "\<exists>w' zs b. main rep_code ((=) (Inr [Bytes [7]])) (table_os\<lparr>tcp_bind := (\<lambda>a w. (Ok [Inr [Bytes [1, 2]], Inl Other], w))\<rparr>) uuid128
      (one_file_host []) 7 (CmdEncoder \<lparr>arg_codec = \<lparr>arg_input = ascii ''tcp://'' @ ascii ''h'', arg_output = ascii ''-'',
        arg_block_size = 2, arg_max_packet_size = 5, arg_workers = 3\<rparr>, arg_redundancy = 30\<rparr>)
      (idle_world, \<lparr>disk_files = Map.empty, disk_script = []\<rparr>)
      (Err (CliIo Other)) (w', \<lparr>disk_files = Map.empty, disk_script = []\<rparr>) \<and>
    written (out_streams w' 0) = wire rep_code zs \<and>
    labelled rep_code rep_be 3 [\<lparr>block_id = b, block_data = [1, 2]\<rparr>] zs"
proof -
  let ?os = "table_os\<lparr>tcp_bind := (\<lambda>a w. (Ok [Inr [Bytes [1, 2]], Inl Other], w))\<rparr>"
  let ?a = "\<lparr>arg_input = ascii ''tcp://'' @ ascii ''h'', arg_output = ascii ''-'', arg_block_size = 2,
    arg_max_packet_size = 5, arg_workers = 3\<rparr>"
  have out: "benign (out_streams idle_world 0)" "written (out_streams idle_world 0) = []"
    by (simp_all add: idle_world_def benign_def written_def)
  have tcp: "tcp_bind ?os (ascii ''h'') idle_world = (Ok (map Inr [[Bytes [1, 2]]] @ [Inl Other]), idle_world)" by simp
  obtain out1 where 1: "encoder_session rep_code ((=) (Inr [Bytes [7]])) ?a 1 [Bytes [1, 2]] (out_streams idle_world 0) (Ok ()) out1"
    using encoder_session_runs [of rep_code ?a 1 rep_be "(=) (Inr [Bytes [7]])", OF _ _ _ refl example_entropy(1) out(1)]
      rep_encoder by auto
  let ?w' = "set_stream 0 out1 idle_world"
  have m: "main rep_code ((=) (Inr [Bytes [7]])) ?os uuid128 (one_file_host []) 7 (CmdEncoder \<lparr>arg_codec = ?a, arg_redundancy = 30\<rparr>)
      (idle_world, \<lparr>disk_files = Map.empty, disk_script = []\<rparr>) (Err (CliIo Other))
      (?w', \<lparr>disk_files = Map.empty, disk_script = []\<rparr>)"
    using codec_streams_tcp_ends [where session = "encoder_session rep_code ((=) (Inr [Bytes [7]])) ?a 1" and a = ?a, OF _ _ _ example_streams(2,5) 1]
      example_streams(3) by (simp add: main_def run_encoder_def example_codec(1))
  have "cut_blocks 2 b [1, 2] = [\<lparr>block_id = b, block_data = [1, 2]\<rparr>]" for b
    by (simp add: cut_blocks_step cut_blocks_short)
  moreover obtain zss where "written (out_streams ?w' 0) = concat (map (wire rep_code) zss)" "length zss = 1"
      "list_all2 (\<lambda>inp zs. \<exists>b. labelled rep_code rep_be 3 (cut_blocks 2 b (flow codec_retry inp)) zs) [[Bytes [1, 2]]] zss"
    using encoder_serves_connections [OF example_codec(1) rep_encoder example_codec(3) _ example_streams(5) m tcp
        example_streams(3,2) out(1)] out(2) by (auto simp: example_entropy(2))
  ultimately obtain zs b where "written (out_streams ?w' 0) = wire rep_code zs"
      "labelled rep_code rep_be 3 [\<lparr>block_id = b, block_data = [1, 2]\<rparr>] zs"
    by (auto simp: list_all2_Cons1)
  then show ?thesis using m by blast
qed

text \<open>
  C19. \<open>garuda decoder\<close> as a server on TCP: connections are served one after the other, and each is
  decoded on its own, by new block decoders: the output holds, one after the other, what the workers
  make of the packets of each connection, in order per worker, and the command ends with the first
  error of \<open>accept\<close>. Nothing of a connection is left over in the next.
\<close>

theorem decoder_serves_connections:
  assumes "block_decoder_new R bs mps = Ok dec" "infer_packet_size R bs mps = Ok k" "0 < k" "0 < n" "clones os"
    and "main R E os U H fid (CmdDecoder \<lparr>arg_input = ascii ''tcp://'' @ addr, arg_output = o1,
        arg_block_size = bs, arg_max_packet_size = mps, arg_workers = n\<rparr>) (w, d) r (w', d')"
    and "tcp_bind os addr w = (Ok (map Inr inps @ [Inl e]), w1)"
    and "output_from_uri os o1 w1 = (Ok out, w2)" "stream_no out = Some i" "benign (out_streams w2 i)"
  shows "r = Err (CliIo e) \<and> d' = d \<and>
    (\<exists>rss. written (out_streams w' i) = written (out_streams w2 i) @ concat (map concat rss) \<and>
       list_all2 (\<lambda>inp. merge_of n (\<lambda>j. stream_blocks R (with_defaults R (of_nat bs) mps) bs
         (filter (\<lambda>p. packet_route R n p = j) (stream_packets R k (flow codec_retry inp))))) inps rss)"
proof -
  let ?a = "\<lparr>arg_input = ascii ''tcp://'' @ addr, arg_output = o1, arg_block_size = bs, arg_max_packet_size = mps,
    arg_workers = n\<rparr>"
  have proper: "decoder_proper R ?a" using assms(1-4) by (simp add: decoder_proper_def)
  have "codec_streams os (decoder_session R ?a) ?a w r w'" and d: "d' = d"
    using assms(6) by (simp_all add: main_def run_decoder_def)
  from dec_serving.tcp_sessions [OF this(1) _ assms(7) _ assms(9,10,5) proper] assms(8) obtain bss where
      bss: "written (out_streams w' i) = written (out_streams w2 i) @ concat bss" "list_all2 (decoder_yields R ?a) inps bss"
      "r = Err (CliIo e)"
    by auto
  then show ?thesis using decoder_yields_blocks [OF bss(2), of k] assms(2) d by auto
qed

theorem decoder_serves_connections_witness:
  "\<exists>w'. main rep_code ((=) (Inr [Bytes [7]])) (table_os\<lparr>tcp_bind := (\<lambda>a w. (Ok [Inr [Bytes [7, 0, 0, 0, 1, 7, 0, 0, 1, 2]], Inl Other], w))\<rparr>) uuid128
      (one_file_host []) 7 (CmdDecoder \<lparr>arg_input = ascii ''tcp://'' @ ascii ''h'', arg_output = ascii ''-'',
        arg_block_size = 2, arg_max_packet_size = 5, arg_workers = 1\<rparr>)
      (idle_world, \<lparr>disk_files = Map.empty, disk_script = []\<rparr>)
      (Err (CliIo Other)) (w', \<lparr>disk_files = Map.empty, disk_script = []\<rparr>) \<and>
    written (out_streams w' 0) = [1, 2]"
proof -
  let ?inp = "[Bytes [7, 0, 0, 0, 1, 7, 0, 0, 1, 2]]"
  let ?os = "table_os\<lparr>tcp_bind := (\<lambda>a w. (Ok [Inr ?inp, Inl Other], w))\<rparr>"
  let ?a = "\<lparr>arg_input = ascii ''tcp://'' @ ascii ''h'', arg_output = ascii ''-'', arg_block_size = 2,
    arg_max_packet_size = 5, arg_workers = 1\<rparr>"
  have out: "benign (out_streams idle_world 0)" "written (out_streams idle_world 0) = []"
    by (simp_all add: idle_world_def benign_def written_def)
  have tcp: "tcp_bind ?os (ascii ''h'') idle_world = (Ok (map Inr [?inp] @ [Inl Other]), idle_world)" by simp
  obtain dec where dec: "block_decoder_new rep_code 2 5 = Ok dec" by (rule rep_decoder)
  then have "decoder_proper rep_code ?a" by (simp add: decoder_proper_def rep_packet_size)
  from decoder_session_runs [OF rep_code_packets rep_code_wire this out(1)]
  obtain out1 where 1: "decoder_session rep_code ?a ?inp (out_streams idle_world 0) (Ok ()) out1" by blast
  let ?w' = "set_stream 0 out1 idle_world"
  have m: "main rep_code ((=) (Inr [Bytes [7]])) ?os uuid128 (one_file_host []) 7 (CmdDecoder ?a)
      (idle_world, \<lparr>disk_files = Map.empty, disk_script = []\<rparr>) (Err (CliIo Other))
      (?w', \<lparr>disk_files = Map.empty, disk_script = []\<rparr>)"
    using codec_streams_tcp_ends [where session = "decoder_session rep_code ?a" and a = ?a, OF _ _ _ example_streams(2,5) 1]
      example_streams(3) by (simp add: main_def run_decoder_def)
  have blocks: "stream_blocks rep_code (with_defaults rep_code (of_nat 2) 5) 2
      (filter (\<lambda>p. packet_route rep_code 1 p = 0) (stream_packets rep_code 5 [7, 0, 0, 0, 1, 7, 0, 0, 1, 2])) = [[1, 2]]"
    by code_simp
  have pos: "(0 :: nat) < 5" "(0 :: nat) < 1" by simp_all
  have "written (out_streams ?w' 0) = [1, 2]"
    using decoder_serves_connections [OF dec rep_packet_size pos example_streams(5) m tcp example_streams(3,2) out(1)] out(2) blocks
    by (auto simp: list_all2_Cons1 merge_of_one)
  then show ?thesis using m by blast
qed

text \<open>The commands on the standard input, with an entropy source that works.\<close>

lemma stdin_encoder_succeeds:
  assumes "arg_input a = ascii ''-''" "0 < arg_block_size a" "get_random_u8 u = Ok i" "0 < arg_workers a"
    and "compute_repair_packets_per_block R (arg_block_size a) (arg_max_packet_size a) red = Ok rep"
    and "block_encoder_new R (arg_block_size a) (arg_max_packet_size a) rep = Ok be"
    and "output_from_uri os (arg_output a) (fst s) = (Ok out, w1)" "stream_no out = Some j"
    and "benign (out_streams w1 j)" "clones os"
    and "main R ((=) u) os U H fid (CmdEncoder \<lparr>arg_codec = a, arg_redundancy = red\<rparr>) s r s'"
  shows "r = Ok () \<and> (\<exists>b zs. labelled R be (arg_workers a)
      (cut_blocks (arg_block_size a) b (flow codec_retry (std_input w1))) zs \<and>
    written (out_streams (fst s') j) = written (out_streams w1 j) @ wire R zs)"
proof -
  have proper: "encoder_proper R (a, rep)" using assms(2,4,6) by (simp add: encoder_proper_def)
  have "codec_streams os (case (a, rep) of (a, rep) \<Rightarrow> encoder_session R ((=) u) a rep) a (fst s) r (fst s')"
    using assms(11) by (simp add: main_def run_encoder_def assms(5))
  from enc_serving.stdin_session [OF this assms(1,7-10) proper] no_entropy_works [of "(=) u" r] assms(3)
  obtain packets where "r = Ok ()" "encoder_yields R (a, rep) (std_input w1) packets"
      "written (out_streams (fst s') j) = written (out_streams w1 j) @ packets" by auto
  then show ?thesis using assms(6) by (auto simp: encoder_yields_def)
qed

lemma stdin_decoder_succeeds:
  assumes "arg_input a = ascii ''-''" "rq_packets R" "rq_wire R" "0 < arg_block_size a" "0 < arg_workers a"
    and "block_encoder_new R (arg_block_size a) (arg_max_packet_size a) rep = Ok be"
    and "output_from_uri os (arg_output a) (fst s) = (Ok out, w1)" "stream_no out = Some j"
    and "benign (out_streams w1 j)" "clones os"
    and "main R E os U H fid (CmdDecoder a) s r s'"
  shows "r = Ok ()"
proof -
  have proper: "decoder_proper R a" by (rule proper_sizes(2) [OF assms(2,3,6,4,5)])
  have "codec_streams os (decoder_session R a) a (fst s) r (fst s')"
    using assms(11) by (simp add: main_def run_decoder_def)
  from dec_serving.stdin_session [OF this assms(1,7-10) proper] show ?thesis by simp
qed

text \<open>
  C21. Both commands on the standard input, with any one behaviour of \<open>/dev/urandom\<close>, every system,
  configuration and number of workers and a positive block size: they can run to their end, and
  whatever the threads of a session have done so far, the session can be completed. When
  \<open>/dev/urandom\<close> works, the sizes are accepted, there is a worker and the output can be opened and
  written to, every run of them succeeds, and the encoder has then written the packets of all blocks
  of its input.
\<close>

theorem commands_return:
  assumes "arg_input a = ascii ''-''" "rq_packets R" "rq_wire R" "0 < arg_block_size a"
  shows "(\<exists>r s'. main R ((=) u) os U H fid (CmdEncoder \<lparr>arg_codec = a, arg_redundancy = red\<rparr>) s r s') \<and>
    (\<exists>r s'. main R ((=) u) os U H fid (CmdDecoder a) s r s') \<and>
    (\<forall>rep. encoder_goes_on R ((=) u) a rep) \<and> decoder_goes_on R a \<and>
    (\<forall>i rep be out w1 j. get_random_u8 u = Ok i \<and> 0 < arg_workers a \<and>
       compute_repair_packets_per_block R (arg_block_size a) (arg_max_packet_size a) red = Ok rep \<and>
       block_encoder_new R (arg_block_size a) (arg_max_packet_size a) rep = Ok be \<and>
       output_from_uri os (arg_output a) (fst s) = (Ok out, w1) \<and> stream_no out = Some j \<and>
       benign (out_streams w1 j) \<and> clones os \<longrightarrow>
       (\<forall>r s'. main R ((=) u) os U H fid (CmdEncoder \<lparr>arg_codec = a, arg_redundancy = red\<rparr>) s r s' \<longrightarrow>
          r = Ok () \<and> (\<exists>b zs. labelled R be (arg_workers a)
              (cut_blocks (arg_block_size a) b (flow codec_retry (std_input w1))) zs \<and>
            written (out_streams (fst s') j) = written (out_streams w1 j) @ wire R zs)) \<and>
       (\<forall>r s'. main R ((=) u) os U H fid (CmdDecoder a) s r s' \<longrightarrow> r = Ok ()))"
proof (intro conjI)
  have "\<exists>r w'. run_encoder R ((=) u) os \<lparr>arg_codec = a, arg_redundancy = red\<rparr> (fst s) r w'"
  proof (cases "compute_repair_packets_per_block R (arg_block_size a) (arg_max_packet_size a) red")
    case (Ok rep)
    have "\<exists>r w'. codec_streams os (encoder_session R ((=) u) a rep) a (fst s) r w'"
      by (rule codec_streams_stdin_exists [OF assms(1) encoder_session_exists [OF assms(4) refl]])
    then show ?thesis using Ok by (simp add: run_encoder_def)
  qed (auto simp: run_encoder_def)
  then show "\<exists>r s'. main R ((=) u) os U H fid (CmdEncoder \<lparr>arg_codec = a, arg_redundancy = red\<rparr>) s r s'"
    by (auto simp: main_def)
  have "\<exists>r w'. run_decoder R os a (fst s) r w'"
    unfolding run_decoder_def by (rule codec_streams_stdin_exists [OF assms(1) decoder_session_exists [OF assms(2,3)]])
  then show "\<exists>r s'. main R ((=) u) os U H fid (CmdDecoder a) s r s'" by (auto simp: main_def)
  show "\<forall>rep. encoder_goes_on R ((=) u) a rep" "decoder_goes_on R a"
    using encoder_goes_on [OF assms(4)] decoder_goes_on [OF assms(2,3)] by blast+
qed (intro allI impI, elim conjE, rule conjI; intro allI impI;
  rule stdin_encoder_succeeds [OF assms(1,4)] stdin_decoder_succeeds [OF assms]; assumption)

theorem commands_return_witness:
  "\<exists>s'. main rep_code ((=) (Inr [Bytes [7]])) table_os uuid128 (one_file_host []) 7
     (CmdEncoder \<lparr>arg_codec = \<lparr>arg_input = ascii ''-'', arg_output = ascii ''-'', arg_block_size = 2,
        arg_max_packet_size = 5, arg_workers = 3\<rparr>, arg_redundancy = 30\<rparr>)
     (idle_world, \<lparr>disk_files = Map.empty, disk_script = []\<rparr>) (Ok ()) s'"
proof -
  let ?a = "\<lparr>arg_input = ascii ''-'', arg_output = ascii ''-'', arg_block_size = 2, arg_max_packet_size = 5, arg_workers = 3\<rparr>"
  have a: "arg_input ?a = ascii ''-''" "0 < arg_block_size ?a" by simp_all
  have out: "benign (out_streams idle_world 0)" by (simp add: idle_world_def benign_def)
  from commands_return [OF a(1) rep_code_packets rep_code_wire a(2), of "Inr [Bytes [7]]" table_os uuid128 "one_file_host []" 7 30
      "(idle_world, \<lparr>disk_files = Map.empty, disk_script = []\<rparr>)"]
  show ?thesis
    using out example_streams(1,2,4) example_codec(1) rep_encoder random_byte by fastforce
qed

end
