(* ===== verification/Delivery.thy ===== *)
theory Delivery
  imports Codec File_Transfer
begin

text \<open>
  A file on its way through an encoder, a medium that loses packets, a decoder and a receiver: what
  arrives of its chunks, and what the receiver makes of them.
\<close>

section \<open>What arrives of a file\<close>

text \<open>Cutting a sequence of pieces of the block size gives the pieces.\<close>

lemma cut_blocks_pieces:
  "\<lbrakk>0 < bs; \<forall>g \<in> set gs. length g = bs\<rbrakk> \<Longrightarrow> map block_data (cut_blocks bs i (concat gs)) = gs"
  by (induction gs arbitrary: i) (auto simp: cut_blocks_short cut_blocks_step)

text \<open>An interleaving of the parts of a list is a permutation of it.\<close>

lemma mset_routed: "\<forall>p \<in> set ts. fst p < n \<Longrightarrow> mset (map snd ts) = (\<Sum>j<n. mset (routed ts j))"
proof (induction ts)
  case (Cons p ts)
  have "(\<Sum>j<n. mset (routed (p # ts) j)) = (\<Sum>j<n. (if j = fst p then {#snd p#} else {#}) + mset (routed ts j))"
    by (intro sum.cong) (auto simp: routed_def)
  also have "\<dots> = {#snd p#} + (\<Sum>j<n. mset (routed ts j))"
    using Cons.prems by (simp add: sum.distrib)
  finally show ?case using Cons by simp
qed (simp add: routed_def)

lemma merge_of_mset:
  assumes "merge_of n (\<lambda>j. map f (filter (\<lambda>x. r x = j) xs)) zs" "\<And>x. r x < n"
  shows "mset zs = mset (map f xs)"
proof -
  obtain ts where ts: "map snd ts = zs" "\<forall>p \<in> set ts. fst p < n" "\<forall>j < n. routed ts j = map f (filter (\<lambda>x. r x = j) xs)"
    using assms(1) by (auto simp: merge_of_def)
  have "routed (map (\<lambda>x. (r x, f x)) xs) j = map f (filter (\<lambda>x. r x = j) xs)" for j
    by (simp add: routed_def filter_map comp_def)
  then have "(\<Sum>j<n. mset (routed ts j)) = (\<Sum>j<n. mset (routed (map (\<lambda>x. (r x, f x)) xs) j))"
    using ts(3) by (intro sum.cong) auto
  then have "mset (map snd ts) = mset (map snd (map (\<lambda>x. (r x, f x)) xs))"
    using mset_routed [OF ts(2)] mset_routed [of "map (\<lambda>x. (r x, f x)) xs" n] assms(2) by simp
  then show ?thesis using ts(1) by (simp add: comp_def)
qed

text \<open>The chunks of those datagrams for which the packets that are left suffice.\<close>

definition arrived ::
  "('oti, 'plan, 'enc, 'pkt, 'dec) raptorq \<Rightarrow> 'oti \<Rightarrow> usize \<Rightarrow> bytes list \<Rightarrow> (nat \<times> 'pkt) list \<Rightarrow>
   (nat \<times> bytes) list" where
  "arrived R cfg bs cs ys =
     map ((!) (placed 0 cs)) (filter (\<lambda>k. run_block R cfg bs (routed ys k) \<noteq> None) [0..<length cs])"

lemma length_placed [simp]: "length (placed off cs) = length cs"
  by (induction cs arbitrary: off) simp_all

lemma arrived_subset: "set (arrived R cfg bs cs ys) \<subseteq> set (placed 0 cs)"
  by (auto simp: arrived_def)

lemma arrived_all:
  assumes "\<forall>k < length cs. run_block R cfg bs (routed ys k) \<noteq> None"
  shows "arrived R cfg bs cs ys = placed 0 cs"
proof -
  have "filter (\<lambda>k. run_block R cfg bs (routed ys k) \<noteq> None) [0..<length cs] = [0..<length cs]"
    using assms by (intro filter_True) simp
  then show ?thesis using map_nth [of "placed 0 cs"] by (simp add: arrived_def)
qed

text \<open>The recovered blocks are, in some order, the datagrams of these chunks.\<close>

lemma recovered_carries:
  assumes "list_all2 (carries U bs name) (placed 0 cs) gs" "\<forall>g \<in> set gs. length g = bs" "0 < bs"
    and "mset received = mset (map block_data (recovered R cfg bs (cut_blocks bs i (concat gs)) ys))"
  obtains ps where "list_all2 (carries U bs name) ps received" "set ps = set (arrived R cfg bs cs ys)"
proof -
  let ?blocks = "cut_blocks bs i (concat gs)"
  have data: "map block_data ?blocks = gs" by (rule cut_blocks_pieces [OF assms(3,2)])
  then have nth: "block_data (?blocks ! k) = gs ! k" if "k < length ?blocks" for k
    using that nth_map [of k ?blocks block_data] by simp
  have len: "length ?blocks = length cs" "length gs = length cs"
    using arg_cong [OF data, of length] list_all2_lengthD [OF assms(1)] by simp_all
  let ?K = "filter (\<lambda>k. run_block R cfg bs (routed ys k) \<noteq> None) [0..<length cs]"
  have "map block_data (recovered R cfg bs ?blocks ys) = map ((!) gs) ?K"
    using len nth by (auto simp: recovered_def)
  then have m: "mset received = mset (map ((!) gs) ?K)" using assms(4) by simp
  have "list_all2 (\<lambda>g p. carries U bs name p g) (map ((!) gs) ?K) (arrived R cfg bs cs ys)"
    using list_all2_nthD [OF assms(1)]
    by (auto simp: arrived_def list_all2_map1 list_all2_map2 list_all2_same)
  from list_all2_reorder_left_invariance [OF this m]
  obtain ps where "list_all2 (\<lambda>g p. carries U bs name p g) received ps" "mset ps = mset (arrived R cfg bs cs ys)"
    by blast
  then show ?thesis using that [of ps] mset_eq_setD by (auto simp: list_all2_conv_all_nth)
qed

text \<open>What the receiver makes of them on its standard input.\<close>

lemma receive_chunks:
  assumes "list_all2 (carries U bs name) ps received" "set ps \<subseteq> set (placed 0 cs)"
    and "length (concat cs) < 2 ^ 63" "\<forall>c \<in> set cs. length c < 2 ^ 32" "0 < bs" "bs < 2 ^ 63"
    and "flow std_retry (std_input w) = concat received"
    and "create_dir_all H dir = Inr ()" "resolve H (path_join dir name) = Inr f" "disk_benign d"
  shows "\<exists>d' c. receive os U H dir STDIN bs d w = Some (Ok (), d', w) \<and>
    disk_files d' = (if ps = [] then disk_files d else (disk_files d)(f \<mapsto> c)) \<and>
    updated (concat cs) ps (content_of d f) c \<and>
    (set ps = set (placed 0 cs) \<longrightarrow> c = concat cs @ drop (length (concat cs)) (content_of d f))"
proof -
  from process_stream_ok [OF assms(9,5,6,1) placed_bounds [OF assms(2-4)], of "Stdin (std_input w)" "std_input w" "[]" d os w]
  obtain d' where d': "disk_files d' = (if ps = [] then disk_files d else (disk_files d)(f \<mapsto> store ps (content_of d f)))"
      "process_stream os U H dir (Stdin (std_input w)) bs d w =
        Some (Err (TransferIo (flow_end std_retry (\<lambda>k. k) (std_input w))), d', w)"
    using assms(5,7,10) by auto
  have "receive os U H dir STDIN bs d w = Some (Ok (), d', w)"
    by (rule receive_stdin [OF assms(8) _ d'(2)]) simp
  then show ?thesis
    using d'(1) store_updated [OF pieces_subset [OF pieces_placed_0 assms(2)], of "content_of d f"]
      store_complete [of ps cs "content_of d f"]
    by (intro exI [of _ d'] exI [of _ "store ps (content_of d f)"]) simp
qed

section \<open>From the packets to the file\<close>

text \<open>
  What a decoder and a receiver behind it make of what is left of the packets: the receiver returns,
  and the file has the bytes of the chunks that have arrived.
\<close>

definition arrives ::
  "('oti, 'plan, 'enc, 'pkt, 'dec) raptorq \<Rightarrow> ('uuid, 'ue) uuid_lib \<Rightarrow> 'fd os \<Rightarrow> 'f host \<Rightarrow> usize \<Rightarrow> u16 \<Rightarrow>
   'oti \<Rightarrow> nat \<Rightarrow> block list \<Rightarrow> (nat \<times> 'pkt) list \<Rightarrow> str \<Rightarrow> bytes list \<Rightarrow> bool" where
  "arrives R U os H bs mps cfg k blocks zs name cs \<longleftrightarrow>
     (\<forall>ys k' tid inp out s0 e ls s dir f w d.
        subseq ys zs \<longrightarrow> k dvd k' \<longrightarrow> 0 < k' \<longrightarrow> separated k' blocks ys \<longrightarrow>
        start_decoding R tid inp out (decoder_init bs k' mps) = (Ok s0, e) \<longrightarrow>
        flow codec_retry inp = wire R ys \<longrightarrow> benign out \<longrightarrow> written out = [] \<longrightarrow>
        psteps (decoder_machine R k') ls s0 s \<longrightarrow> all_ended s \<longrightarrow>
        flow std_retry (std_input w) = written (forwarder s) \<longrightarrow>
        create_dir_all H dir = Inr () \<longrightarrow> resolve H (path_join dir name) = Inr f \<longrightarrow> disk_benign d \<longrightarrow>
        (let ps = arrived R cfg bs cs ys
         in \<exists>d' c. receive os U H dir STDIN bs d w = Some (Ok (), d', w) \<and>
              disk_files d' = (if ps = [] then disk_files d else (disk_files d)(f \<mapsto> c)) \<and>
              updated (concat cs) ps (content_of d f) c \<and>
              (ps = placed 0 cs \<longrightarrow> c = concat cs @ drop (length (concat cs)) (content_of d f))))"

lemma arrivesD:
  assumes "arrives R U os H bs mps cfg k blocks zs name cs"
    and "subseq ys zs" "k dvd k'" "0 < k'" "separated k' blocks ys"
    and "start_decoding R tid inp out (decoder_init bs k' mps) = (Ok s0, e)"
    and "flow codec_retry inp = wire R ys" "benign out" "written out = []"
    and "psteps (decoder_machine R k') ls s0 s" "all_ended s"
    and "flow std_retry (std_input w) = written (forwarder s)"
    and "create_dir_all H dir = Inr ()" "resolve H (path_join dir name) = Inr f" "disk_benign d"
    and "arrived R cfg bs cs ys = ps"
  obtains d' c where "receive os U H dir STDIN bs d w = Some (Ok (), d', w)"
    "disk_files d' = (if ps = [] then disk_files d else (disk_files d)(f \<mapsto> c))"
    "updated (concat cs) ps (content_of d f) c"
    "ps = placed 0 cs \<Longrightarrow> c = concat cs @ drop (length (concat cs)) (content_of d f)"
proof -
  have "let ps = arrived R cfg bs cs ys
        in \<exists>d' c. receive os U H dir STDIN bs d w = Some (Ok (), d', w) \<and>
              disk_files d' = (if ps = [] then disk_files d else (disk_files d)(f \<mapsto> c)) \<and>
              updated (concat cs) ps (content_of d f) c \<and>
              (ps = placed 0 cs \<longrightarrow> c = concat cs @ drop (length (concat cs)) (content_of d f))"
    using assms(1) unfolding arrives_def by (elim allE impE) (fact assms)+
  then show ?thesis using that unfolding Let_def assms(16) by blast
qed

lemma delivers_arrives:
  fixes os :: "'fd os" and H :: "'f host"
  assumes del: "delivers R bs mps cfg k (cut_blocks bs i (concat gs)) zs"
    and gs: "list_all2 (carries U bs name) (placed 0 cs) gs" "\<forall>g \<in> set gs. length g = bs"
    and size: "length (concat cs) < 2 ^ 63" "\<forall>c \<in> set cs. length c < 2 ^ 32" "0 < bs" "bs < 2 ^ 63"
  shows "arrives R U os H bs mps cfg k (cut_blocks bs i (concat gs)) zs name cs"
  unfolding arrives_def Let_def
proof (intro allI impI)
  fix ys k' tid inp out s0 e ls s dir f and w :: "'fd world" and d :: "'f disk"
  assume sub: "subseq ys zs" "k dvd k'" "0 < k'" "separated k' (cut_blocks bs i (concat gs)) ys"
    and dec: "start_decoding R tid inp out (decoder_init bs k' mps) = (Ok s0, e)"
      "flow codec_retry inp = wire R ys" "benign out" and out: "written out = []"
    and run: "psteps (decoder_machine R k') ls s0 s" "all_ended s"
    and w: "flow std_retry (std_input w) = written (forwarder s)"
    and files: "create_dir_all H dir = Inr ()" "resolve H (path_join dir name) = Inr f" "disk_benign d"
  obtain received where m: "merge_of k' (\<lambda>j. map block_data (filter (\<lambda>b. block_route k' b = j)
        (recovered R cfg bs (cut_blocks bs i (concat gs)) ys))) received"
      "written (forwarder s) = written out @ concat received"
    by (rule deliversD [OF del sub dec run])
  have "mset received = mset (map block_data (recovered R cfg bs (cut_blocks bs i (concat gs)) ys))"
    using merge_of_mset [OF m(1)] sub(3) by (simp add: block_route_def)
  then obtain ps where ps: "list_all2 (carries U bs name) ps received" "set ps = set (arrived R cfg bs cs ys)"
    using recovered_carries [OF gs size(3)] by metis
  have "set ps \<subseteq> set (placed 0 cs)" using arrived_subset [of R cfg bs cs ys] by (simp add: ps(2))
  moreover have "flow std_retry (std_input w) = concat received" using w m(2) out by simp
  ultimately obtain d' c where "receive os U H dir STDIN bs d w = Some (Ok (), d', w)"
      "disk_files d' = (if ps = [] then disk_files d else (disk_files d)(f \<mapsto> c))"
      "updated (concat cs) ps (content_of d f) c"
      "set ps = set (placed 0 cs) \<longrightarrow> c = concat cs @ drop (length (concat cs)) (content_of d f)"
    using receive_chunks [OF ps(1) _ size _ files] by metis
  then show "\<exists>d' c. receive os U H dir STDIN bs d w = Some (Ok (), d', w) \<and>
      disk_files d' = (if arrived R cfg bs cs ys = [] then disk_files d else (disk_files d)(f \<mapsto> c)) \<and>
      updated (concat cs) (arrived R cfg bs cs ys) (content_of d f) c \<and>
      (arrived R cfg bs cs ys = placed 0 cs \<longrightarrow> c = concat cs @ drop (length (concat cs)) (content_of d f))"
    using updated_cong [OF ps(2)] ps(2) by (metis set_empty)
qed

text \<open>Without losses and with one worker: there is a run at the end of which the file is there.\<close>

lemma arrives_runs:
  assumes arr: "arrives R U os H bs mps cfg 1 blocks zs name cs" "separated 1 blocks zs" "cs \<noteq> []"
    and enough: "\<forall>j < length cs. run_block R cfg bs (routed zs j) \<noteq> None"
    and dec: "block_decoder_new R bs mps = Ok dec" "infer_packet_size R bs mps = Ok q" "0 < q"
    and io: "flow codec_retry inp = wire R zs" "benign out" "written out = []"
    and files: "create_dir_all H dir = Inr ()" "resolve H (path_join dir name) = Inr f" "disk_benign d"
  obtains s0 e ls s d' where "start_decoding R tid inp out (decoder_init bs 1 mps) = (Ok s0, e)"
    "psteps (decoder_machine R 1) ls s0 s" "all_ended s"
    "receive os U H dir STDIN bs d (w\<lparr>std_input := [Bytes (written (forwarder s))]\<rparr>) =
      Some (Ok (), d', w\<lparr>std_input := [Bytes (written (forwarder s))]\<rparr>)"
    "disk_files d' = (disk_files d)(f \<mapsto> concat cs @ drop (length (concat cs)) (content_of d f))"
proof -
  obtain s0 e ls s where st: "start_decoding R tid inp out (decoder_init bs 1 mps) = (Ok s0, e)"
      and run: "psteps (decoder_machine R 1) ls s0 s" "all_ended s"
    by (rule start_decoding_runs [OF dec])
  let ?w = "w\<lparr>std_input := [Bytes (written (forwarder s))]\<rparr>"
  have fl: "flow std_retry (std_input ?w) = written (forwarder s)" by simp
  obtain d' c where d': "receive os U H dir STDIN bs d ?w = Some (Ok (), d', ?w)"
      "disk_files d' = (if placed 0 cs = [] then disk_files d else (disk_files d)(f \<mapsto> c))"
      "c = concat cs @ drop (length (concat cs)) (content_of d f)"
    by (rule arrivesD [OF arr(1) subseq_order.order_refl one_dvd zero_less_one arr(2) st io run fl files arrived_all [OF enough]]) simp
  have "placed 0 cs \<noteq> []" using arr(3) by (cases cs) simp_all
  then show ?thesis using that [OF st run d'(1)] d'(2,3) by simp
qed

end
