(* ===== verification/Tests.thy ===== *)
theory Tests
  imports Sessions Delivery "HOL-Library.List_Lexorder"
begin

text \<open>
  The unit tests of the repository, as functions of what a test chooses at random, with a value that
  says whether its assertions hold. The theorems show that they hold for every choice. The test with
  threads of its own, \<open>test_encode_decode_stream\<close>, is in \<open>Stream_Test\<close>.
\<close>

section \<open>\<open>vector.rs\<close>\<close>

definition test_equal_length :: bool where
  "test_equal_length \<longleftrightarrow> interleave [1, 3, 5] [2, 4, 6 :: int] = [6, 5, 4, 3, 2, 1]"

definition test_different_length :: bool where
  "test_different_length \<longleftrightarrow> interleave [10, 20, 30, 40, 50] [1, 2 :: int] = [2, 50, 40, 1, 30, 20, 10]"

definition test_one_empty :: bool where
  "test_one_empty \<longleftrightarrow> interleave [] [1, 2, 3 :: int] = [3, 2, 1]"

definition test_both_empty :: bool where
  "test_both_empty \<longleftrightarrow> interleave [] ([] :: int list) = []"

lemma interleave_tests: "test_equal_length" "test_different_length" "test_one_empty" "test_both_empty"
  by code_simp+

section \<open>\<open>string.rs\<close>\<close>

text \<open>A string literal is the list of its bytes; outside ASCII they are written out.\<close>

definition returns_original_if_shorter :: bool where
  "returns_original_if_shorter \<longleftrightarrow> truncate_utf8 (ascii ''hello'') 10 = Ok (ascii ''hello'')"

definition truncates_on_ascii_boundary :: bool where
  "truncates_on_ascii_boundary \<longleftrightarrow> truncate_utf8 (ascii ''hello world'') 5 = Ok (ascii ''hello'')"

definition does_not_split_multibyte_char :: bool where
  "does_not_split_multibyte_char \<longleftrightarrow>
     (case truncate_utf8 ([0x68, 0xC3, 0xA9] @ ascii ''llo'') 2 of
        Ok t \<Rightarrow> is_char_boundary t (length t) \<and> t = ascii ''h''
      | _ \<Rightarrow> False)"

definition handles_emoji :: bool where
  "handles_emoji \<longleftrightarrow>
     (case truncate_utf8 (ascii ''hi '' @ [0xF0, 0x9F, 0x91, 0x8B] @ ascii '' world'') 5 of
        Ok t \<Rightarrow> is_char_boundary t (length t) \<and> t = ascii ''hi ''
      | _ \<Rightarrow> False)"

definition exact_boundary_is_kept :: bool where
  "exact_boundary_is_kept \<longleftrightarrow> truncate_utf8 (ascii ''abcdef'') 3 = Ok (ascii ''abc'')"

lemma truncate_tests:
  "returns_original_if_shorter" "truncates_on_ascii_boundary" "does_not_split_multibyte_char"
  "handles_emoji" "exact_boundary_is_kept"
  by code_simp+

section \<open>\<open>protocol.rs\<close>\<close>

text \<open>The identifier that \<open>Uuid::parse_str\<close> yields is an argument.\<close>

definition make_header :: "'uuid \<Rightarrow> str \<Rightarrow> 'uuid datagram_header" where
  "make_header u name = datagram_header_new u name 100 10 1"

definition test_serialize_deserialize :: "('uuid, 'ue) uuid_lib \<Rightarrow> 'uuid \<Rightarrow> bool" where
  "test_serialize_deserialize U u \<longleftrightarrow>
     (let header = make_header u (ascii ''test.txt'')
      in case bind_panic (serialize U header) (deserialize U) of
           Ok d \<Rightarrow> file_id d = file_id header \<and> file_length d = file_length header \<and>
             chunk_offset d = chunk_offset header \<and> payload_length d = payload_length header \<and>
             file_name d = file_name header
         | _ \<Rightarrow> False)"

definition test_deserialize_buffer_too_small :: "('uuid, 'ue) uuid_lib \<Rightarrow> bool" where
  "test_deserialize_buffer_too_small U \<longleftrightarrow>
     (case deserialize U (replicate (usize_sub DATAGRAM_HEADER_LEN 1) 0) of
        Err BufferTooSmall \<Rightarrow> True
      | _ \<Rightarrow> False)"

definition test_file_name_truncation :: "('uuid, 'ue) uuid_lib \<Rightarrow> 'uuid \<Rightarrow> bool" where
  "test_file_name_truncation U u \<longleftrightarrow>
     (let header = make_header u (concat (replicate (usize_mul FILE_NAME_LEN 2) (ascii ''a'')))
      in case bind_panic (serialize U header) (deserialize U) of
           Ok d \<Rightarrow> length (file_name d) \<le> FILE_NAME_LEN \<and> file_id d = file_id header
         | _ \<Rightarrow> False)"

lemma valid_replicate_ascii: "uint b < 0x80 \<Longrightarrow> valid_utf8 (replicate n b)"
  by (induction n) (simp_all add: valid_ascii_Cons valid_utf8_def)

lemma parse_own_header:
  assumes "uuid_ok U" "valid_utf8 (file_name h)"
  shows "bind_panic (serialize U h) (deserialize U) = Ok (h\<lparr>file_name := wire_name (file_name h)\<rparr>)"
  using serialize_length [OF assms] deserialize_serialize [OF assms, where rest = "[]"] by auto

lemma protocol_tests:
  assumes "uuid_ok U"
  shows "test_serialize_deserialize U u" "test_deserialize_buffer_too_small U" "test_file_name_truncation U u"
proof -
  have "valid_utf8 (ascii ''test.txt'')" "wire_name (ascii ''test.txt'') = ascii ''test.txt''" by code_simp+
  then show "test_serialize_deserialize U u"
    using parse_own_header [OF assms, of "make_header u (ascii ''test.txt'')"]
    by (simp add: test_serialize_deserialize_def make_header_def datagram_header_new_def)
  show "test_deserialize_buffer_too_small U"
    by (simp add: test_deserialize_buffer_too_small_def deserialize_def header_len usize_sub_exact)
  have "concat (replicate k (ascii ''a'')) = replicate k 97" for k by (induction k) (simp_all add: ascii_def)
  then have "valid_utf8 (concat (replicate k (ascii ''a'')))" for k by (simp add: valid_replicate_ascii)
  then show "test_file_name_truncation U u"
    using parse_own_header [OF assms, of "make_header u (concat (replicate (usize_mul FILE_NAME_LEN 2) (ascii ''a'')))"]
      valid_wire_name
    by (simp add: test_file_name_truncation_def make_header_def datagram_header_new_def Let_def)
qed

section \<open>\<open>block_encoder.rs\<close>\<close>

text \<open>The constants of the three test modules of the codec.\<close>

definition TEST_BLOCK_SIZE :: usize where
  "TEST_BLOCK_SIZE = 1496 * 192"

definition TEST_MAX_PACKET_SIZE :: u16 where
  "TEST_MAX_PACKET_SIZE = 1500"

definition TEST_REPAIR_PACKETS :: u32 where
  "TEST_REPAIR_PACKETS = 15"

definition test_encode :: "('oti, 'plan, 'enc, 'pkt, 'dec) raptorq \<Rightarrow> bytes \<Rightarrow> bytes \<Rightarrow> bool" where
  "test_encode R source another \<longleftrightarrow>
     (case block_encoder_new R TEST_BLOCK_SIZE TEST_MAX_PACKET_SIZE TEST_REPAIR_PACKETS of
        Ok encoder \<Rightarrow>
          (case encode R encoder \<lparr>block_id = 1, block_data = source\<rparr> of
             Ok packets \<Rightarrow>
               length packets =
                 TEST_BLOCK_SIZE div unat (symbol_size R (be_config encoder)) + unat TEST_REPAIR_PACKETS \<and>
               (case encode R encoder \<lparr>block_id = 2, block_data = another\<rparr> of Ok _ \<Rightarrow> True | _ \<Rightarrow> False)
           | _ \<Rightarrow> False)
      | _ \<Rightarrow> False)"

section \<open>\<open>block_decoder.rs\<close>\<close>

text \<open>The loop of the first test, up to its \<open>break\<close>.\<close>

fun decode_until ::
  "('oti, 'plan, 'enc, 'pkt, 'dec) raptorq \<Rightarrow> ('oti, 'dec) block_decoder \<Rightarrow> 'pkt list \<Rightarrow>
   bytes \<times> ('oti, 'dec) block_decoder" where
  "decode_until R d [] = ([], d)"
| "decode_until R d (p # ps) =
     (case decode R p d of (Some v, d') \<Rightarrow> (v, d') | (None, d') \<Rightarrow> decode_until R d' ps)"

definition test_encode_decode :: "('oti, 'plan, 'enc, 'pkt, 'dec) raptorq \<Rightarrow> bytes \<Rightarrow> bool" where
  "test_encode_decode R source \<longleftrightarrow>
     (case (block_encoder_new R (length source) TEST_MAX_PACKET_SIZE TEST_REPAIR_PACKETS,
            block_decoder_new R (length source) TEST_MAX_PACKET_SIZE) of
        (Ok encoder, Ok decoder) \<Rightarrow>
          (case encode R encoder \<lparr>block_id = 1, block_data = source\<rparr> of
             Ok packets \<Rightarrow>
               (let n = usize_sub (length packets) (unat TEST_REPAIR_PACKETS)
                in case decode_until R decoder (take n packets) of
                     (decoded_block, decoder') \<Rightarrow>
                       decoded_block = source \<and>
                       (case drop n packets of
                          [] \<Rightarrow> False
                        | p # _ \<Rightarrow> fst (decode R p decoder') = None))
           | _ \<Rightarrow> False)
      | _ \<Rightarrow> False)"

section \<open>\<open>decoder.rs\<close>\<close>

text \<open>\<open>slice::chunks\<close>: the last piece may be shorter.\<close>

function slice_chunks :: "usize \<Rightarrow> bytes \<Rightarrow> bytes list" where
  "slice_chunks k c = (if k = 0 \<or> c = [] then [] else take k c # slice_chunks k (drop k c))"
  by pat_completeness auto

termination
  by (relation "measure (\<lambda>(k, c). length c)") auto

declare slice_chunks.simps [simp del]

definition test_args :: codec_args where
  "test_args = \<lparr>arg_input = [], arg_output = [], arg_block_size = TEST_BLOCK_SIZE,
     arg_max_packet_size = TEST_MAX_PACKET_SIZE, arg_workers = 3\<rparr>"

text \<open>
  A run of the test with its two pipes: what the encoder and the decoder return from \<open>wait\<close>, and the
  bytes that come out. The far end of both pipes is read until it is closed, so that how many bytes a
  pipe holds at a time makes no difference to the bytes that come out.
\<close>

definition decoder_test_run ::
  "('oti, 'plan, 'enc, 'pkt, 'dec) raptorq \<Rightarrow> entropy \<Rightarrow> bytes list \<Rightarrow> ('pkt cli_error, unit) outcome \<Rightarrow>
   ('pkt cli_error, unit) outcome \<Rightarrow> bytes \<Rightarrow> bool" where
  "decoder_test_run R E source_blocks r1 r2 output_bytes \<longleftrightarrow>
     (\<exists>input_stream forward_writer forward_writer' forward_reader output_writer output_writer'.
        flow codec_retry input_stream = concat source_blocks \<and>
        benign forward_writer \<and> written forward_writer = [] \<and>
        encoder_session R E test_args TEST_REPAIR_PACKETS input_stream forward_writer r1 forward_writer' \<and>
        flow codec_retry forward_reader = written forward_writer' \<and>
        benign output_writer \<and> written output_writer = [] \<and>
        decoder_session R test_args forward_reader output_writer r2 output_writer' \<and>
        output_bytes = written output_writer')"

definition decoder_test_assertions :: "bytes list \<Rightarrow> bytes \<Rightarrow> bool" where
  "decoder_test_assertions source_blocks output_bytes \<longleftrightarrow>
     (let decoded_blocks = slice_chunks TEST_BLOCK_SIZE output_bytes
      in length decoded_blocks = length source_blocks \<and>
         (case decoded_blocks of [] \<Rightarrow> False | b # _ \<Rightarrow> length b = TEST_BLOCK_SIZE) \<and>
         sort decoded_blocks = sort source_blocks)"

section \<open>Why they hold\<close>

text \<open>
  The symbol size that \<open>raptorq\<close> chooses for the sizes of the tests: the tests' own arithmetic
  relies on it.
\<close>

definition rq_test_symbols :: "('oti, 'plan, 'enc, 'pkt, 'dec) raptorq \<Rightarrow> bool" where
  "rq_test_symbols R \<longleftrightarrow> symbol_size R (with_defaults R (of_nat TEST_BLOCK_SIZE) TEST_MAX_PACKET_SIZE) = 1496"

lemma test_sizes [simp]:
  "unat TEST_REPAIR_PACKETS = 15" "TEST_BLOCK_SIZE div 1496 = 192" "0 < TEST_BLOCK_SIZE" "TEST_BLOCK_SIZE < 2 ^ 64"
  "1496 dvd TEST_BLOCK_SIZE"
  by (simp_all add: TEST_BLOCK_SIZE_def TEST_REPAIR_PACKETS_def)

lemma test_encoder:
  assumes "rq_test_symbols R"
  obtains be where "block_encoder_new R TEST_BLOCK_SIZE TEST_MAX_PACKET_SIZE TEST_REPAIR_PACKETS = Ok be"
    "unat (symbol_size R (be_config be)) = 1496"
  using assms by (simp add: rq_test_symbols_def block_encoder_new_def get_configuration_def usize_div_def Let_def)

lemma test_decoder:
  assumes "rq_test_symbols R"
  obtains d where "block_decoder_new R TEST_BLOCK_SIZE TEST_MAX_PACKET_SIZE = Ok d"
  using assms by (simp add: rq_test_symbols_def block_decoder_new_def get_configuration_def Let_def)

lemma test_encode_holds:
  assumes "rq_packets R" "rq_test_symbols R" "length source = TEST_BLOCK_SIZE" "length another = TEST_BLOCK_SIZE"
  shows "test_encode R source another"
proof -
  obtain be where be: "block_encoder_new R TEST_BLOCK_SIZE TEST_MAX_PACKET_SIZE TEST_REPAIR_PACKETS = Ok be"
      "unat (symbol_size R (be_config be)) = 1496" by (rule test_encoder [OF assms(2)])
  have sized: "well_sized be \<lparr>block_id = i, block_data = b\<rparr>" if "length b = TEST_BLOCK_SIZE" for i b
    using that block_encoder_new_Ok(1) [OF be(1)] by (simp add: well_sized_def)
  note sh = block_packets_shuffles [OF assms(1) be(1) sized [OF assms(3), of 1]]
  have "length (block_packets R be \<lparr>block_id = 1, block_data = source\<rparr>) = 192 + 15"
    using length_shuffles [OF sh(1)] sh(2,3) be(2) by simp
  then show ?thesis using be sized [OF assms(3)] sized [OF assms(4)] by (simp add: test_encode_def encode_eq)
qed

text \<open>The loop of the first decoder test, on packets of one block.\<close>

lemma decode_until_run:
  assumes "current_block_id d = Some i" "\<not> current_block_is_decoded d" "\<forall>p \<in> set ps. source_block_number R p = i"
  shows "\<exists>d'. decode_until R d ps = (case rq_feed R (current_decoder d) ps of None \<Rightarrow> [] | Some b \<Rightarrow> b, d') \<and>
    current_block_id d' = Some i \<and>
    (current_block_is_decoded d' \<longleftrightarrow> rq_feed R (current_decoder d) ps \<noteq> None)"
  using assms
proof (induction ps arbitrary: d)
  case (Cons p ps)
  obtain r dec where rd: "decoder_decode R (current_decoder d) [p] = (r, dec)" by fastforce
  let ?d = "d\<lparr>current_decoder := dec, current_block_is_decoded := (r \<noteq> None)\<rparr>"
  have step: "decode R p d = (r, ?d)"
    using Cons.prems rd by (cases d) (auto simp: decode_def try_decode_def Let_def)
  show ?case
  proof (cases r)
    case None
    then show ?thesis using Cons.IH [of ?d] Cons.prems rd step by simp
  next
    case (Some b)
    then show ?thesis using Cons.prems rd step by simp
  qed
qed simp

lemma decode_until_new:
  assumes "block_decoder_new R bs mps = Ok d" "ps \<noteq> []" "\<forall>p \<in> set ps. source_block_number R p = i"
  shows "\<exists>d'. decode_until R d ps =
      (case run_block R (with_defaults R (of_nat bs) mps) bs ps of None \<Rightarrow> [] | Some b \<Rightarrow> b, d') \<and>
    current_block_id d' = Some i \<and>
    (current_block_is_decoded d' \<longleftrightarrow> run_block R (with_defaults R (of_nat bs) mps) bs ps \<noteq> None)"
proof -
  note new = block_decoder_new_Ok [OF assms(1)]
  let ?r = "reset_current_decoder R i d"
  obtain p qs where ps: "ps = p # qs" using assms(2) by (cases ps) auto
  then have "source_block_number R p = i" using assms(3) by simp
  then have "decode_until R d ps = decode_until R ?r ps"
    using decode_reset [of d R p] new(3) ps by simp
  moreover have "current_block_id ?r = Some i" "\<not> current_block_is_decoded ?r"
      "rq_feed R (current_decoder ?r) ps = run_block R (with_defaults R (of_nat bs) mps) bs ps"
    using new ps assms(3) by (simp_all add: reset_current_decoder_def run_block_def)
  ultimately show ?thesis using decode_until_run [of ?r i ps R] assms(3) by simp
qed

text \<open>
  The first decoder test holds exactly when the packets that it keeps suffice, which is for \<open>raptorq\<close>
  to say; the second one in any case.
\<close>

lemma test_encode_decode_iff:
  assumes "rq_packets R" "rq_sound R" "rq_test_symbols R" "length source = TEST_BLOCK_SIZE"
    and "block_encoder_new R TEST_BLOCK_SIZE TEST_MAX_PACKET_SIZE TEST_REPAIR_PACKETS = Ok be"
  shows "test_encode_decode R source \<longleftrightarrow>
    run_block R (be_config be) TEST_BLOCK_SIZE (take 192 (block_packets R be \<lparr>block_id = 1, block_data = source\<rparr>)) \<noteq> None"
proof -
  let ?b = "\<lparr>block_id = 1, block_data = source\<rparr> :: block"
  let ?ps = "block_packets R be ?b"
  obtain be' where "block_encoder_new R TEST_BLOCK_SIZE TEST_MAX_PACKET_SIZE TEST_REPAIR_PACKETS = Ok be'"
      "unat (symbol_size R (be_config be')) = 1496" by (rule test_encoder [OF assms(3)])
  then have sym: "unat (symbol_size R (be_config be)) = 1496" using assms(5) by simp
  obtain d where d: "block_decoder_new R TEST_BLOCK_SIZE TEST_MAX_PACKET_SIZE = Ok d" by (rule test_decoder [OF assms(3)])
  have sized: "well_sized be ?b" using assms(4) block_encoder_new_Ok(1) [OF assms(5)] by (simp add: well_sized_def)
  note sh = block_packets_shuffles [OF assms(1,5) sized]
  have len: "length ?ps = 207" using length_shuffles [OF sh(1)] sh(2,3) sym by simp
  have ids: "\<forall>p \<in> set ?ps. source_block_number R p = 1" using block_packets_id [OF assms(1,5) sized] by simp
  have "take 192 ?ps \<noteq> []" "\<forall>p \<in> set (take 192 ?ps). source_block_number R p = 1"
    using len ids set_take_subset [of 192 ?ps] by (auto simp flip: length_greater_0_conv)
  from decode_until_new [OF d this] block_encoder_new_Ok(6) [OF assms(5)] obtain d' where
      d': "decode_until R d (take 192 ?ps) =
        (case run_block R (be_config be) TEST_BLOCK_SIZE (take 192 ?ps) of None \<Rightarrow> [] | Some b \<Rightarrow> b, d')"
      "current_block_id d' = Some 1"
      "current_block_is_decoded d' \<longleftrightarrow> run_block R (be_config be) TEST_BLOCK_SIZE (take 192 ?ps) \<noteq> None"
    by auto
  obtain p qs where p: "drop 192 ?ps = p # qs" using len by (cases "drop 192 ?ps") auto
  then have "source_block_number R p = 1" using ids by (metis in_set_dropD list.set_intros(1))
  then have ignored: "current_block_is_decoded d' \<Longrightarrow> fst (decode R p d') = None"
    using d'(2) by (simp add: decode_def Let_def)
  have n: "usize_sub (length ?ps) 15 = 192" by (simp add: len usize_sub_exact)
  have some: "run_block R (be_config be) TEST_BLOCK_SIZE (take 192 ?ps) = Some x \<Longrightarrow> x = source" for x
    using run_block_sound [OF assms(1,2,5) sized test_sizes(4) \<open>take 192 ?ps \<noteq> []\<close> set_take_subset] by simp
  have "source \<noteq> []" using assms(4) by (auto simp: TEST_BLOCK_SIZE_def)
  then show ?thesis
    using d' ignored some assms(4,5) d sized n p
    by (cases "run_block R (be_config be) TEST_BLOCK_SIZE (take 192 ?ps)") (auto simp: test_encode_decode_def encode_eq)
qed

text \<open>The test of the whole codec.\<close>

lemma slice_chunks_concat: "\<lbrakk>0 < k; \<forall>b \<in> set bs. length b = k\<rbrakk> \<Longrightarrow> slice_chunks k (concat bs) = bs"
  by (induction bs) (auto simp: slice_chunks.simps)

lemma sort_same: "mset xs = mset ys \<Longrightarrow> sort xs = sort ys"
  by (metis mset_sort properties_for_sort sorted_sort)

lemma decoder_test_holds:
  assumes "rq_packets R" "rq_sound R" "rq_complete R" "rq_wire R" "rq_test_symbols R"
    and "source_blocks \<noteq> []" "\<forall>s \<in> set source_blocks. length s = TEST_BLOCK_SIZE"
    and "\<And>u. E u \<Longrightarrow> \<exists>i. get_random_u8 u = Ok i" "decoder_test_run R E source_blocks r1 r2 output_bytes"
  shows "r1 = Ok () \<and> r2 = Ok () \<and> decoder_test_assertions source_blocks output_bytes"
proof -
  obtain be where be: "block_encoder_new R TEST_BLOCK_SIZE TEST_MAX_PACKET_SIZE TEST_REPAIR_PACKETS = Ok be"
      "unat (symbol_size R (be_config be)) = 1496" by (rule test_encoder [OF assms(5)])
  have args [simp]: "arg_block_size test_args = TEST_BLOCK_SIZE" "arg_max_packet_size test_args = TEST_MAX_PACKET_SIZE"
      "arg_workers test_args = 3" by (simp_all add: test_args_def)
  have proper: "encoder_proper R (test_args, TEST_REPAIR_PACKETS)" "decoder_proper R test_args"
    using proper_sizes [OF assms(1,4), of test_args TEST_REPAIR_PACKETS be] be(1) by simp_all
  have sy: "TEST_BLOCK_SIZE div unat (symbol_size R (with_defaults R (of_nat TEST_BLOCK_SIZE) TEST_MAX_PACKET_SIZE)) \<le>
      max_source_symbols"
    using be block_encoder_new_Ok(6) [OF be(1)] by (simp add: max_source_symbols_def)
  obtain inp fw fw' fr ow ow' where run: "flow codec_retry inp = concat source_blocks" "benign fw" "written fw = []"
      "encoder_session R E test_args TEST_REPAIR_PACKETS inp fw r1 fw'" "flow codec_retry fr = written fw'"
      "benign ow" "written ow = []" "decoder_session R test_args fr ow r2 ow'" "output_bytes = written ow'"
    using assms(9) unfolding decoder_test_run_def by (elim exE conjE) (rule that)
  from encoder_session_result [OF run(4) proper(1) run(2)] run(3) no_entropy_works [where E = E and r = r1, OF assms(8)]
  obtain packets where 1: "r1 = Ok ()" "encoder_yields R (test_args, TEST_REPAIR_PACKETS) inp packets" "written fw' = packets"
    by auto
  from decoder_session_result [OF run(8) proper(2) run(6)] run(7,9)
  have r2: "r2 = Ok ()" "decoder_yields R test_args fr output_bytes" by auto
  obtain i received where m: "merge_of 3 (\<lambda>j. map block_data (filter (\<lambda>x. block_route 3 x = j)
      (cut_blocks TEST_BLOCK_SIZE i (concat source_blocks)))) received" "output_bytes = concat received"
    using decoder_undoes_encoder [OF assms(1,2,4,3) be(1) test_sizes(3,4) sy, of test_args test_args, simplified,
        OF 1(2) _ r2(2)] run(1,5) 1(3) by auto
  have perm: "mset received = mset source_blocks"
    using merge_of_mset [OF m(1)] cut_blocks_pieces [OF test_sizes(3) assms(7)] by (simp add: block_route_def)
  then have "\<forall>b \<in> set received. length b = TEST_BLOCK_SIZE" using assms(7) mset_eq_setD by blast
  then have "slice_chunks TEST_BLOCK_SIZE output_bytes = received" "\<forall>b \<in> set received. length b = TEST_BLOCK_SIZE"
    using m(2) slice_chunks_concat [OF test_sizes(3)] by simp_all
  then show ?thesis
    using assms(6) 1(1) r2(1) sort_same [OF perm] mset_eq_length [OF perm]
    by (cases received) (auto simp: decoder_test_assertions_def)
qed

section \<open>Properties\<close>

text \<open>
  The tests of \<open>vector.rs\<close>, \<open>string.rs\<close> and \<open>protocol.rs\<close> pass, whatever identifier the header carries
  and whatever implementation of \<open>uuid\<close> keeps its contract.
\<close>

lemmas unit_tests_pass = interleave_tests truncate_tests protocol_tests

text \<open>
  C39. The tests of \<open>block_encoder.rs\<close> and \<open>decoder.rs\<close> pass, whatever the random blocks are and as long
  as \<open>/dev/urandom\<close> works: the encoder makes as many packets as its test counts, and with three workers
  on each side the decoder gives back all blocks, as a permutation, under every schedule of the threads.
  The first test of \<open>block_decoder.rs\<close>, which leaves out 15 packets of a block, also depends on the error
  correction: it passes exactly when the packets it keeps are enough for \<open>raptorq\<close>.
\<close>

theorem codec_tests_pass:
  assumes "rq_packets R" "rq_sound R" "rq_complete R" "rq_wire R" "rq_test_symbols R"
    and "length source = TEST_BLOCK_SIZE" "length another = TEST_BLOCK_SIZE"
    and "length sources = 10" "\<forall>s \<in> set sources. length s = TEST_BLOCK_SIZE"
    and "\<And>u. E u \<Longrightarrow> \<exists>i. get_random_u8 u = Ok i" "decoder_test_run R E sources r1 r2 output_bytes"
  shows "test_encode R source another \<and>
    r1 = Ok () \<and> r2 = Ok () \<and> decoder_test_assertions sources output_bytes \<and>
    (\<exists>be. block_encoder_new R TEST_BLOCK_SIZE TEST_MAX_PACKET_SIZE TEST_REPAIR_PACKETS = Ok be \<and>
       (test_encode_decode R source \<longleftrightarrow> run_block R (be_config be) TEST_BLOCK_SIZE
          (take 192 (block_packets R be \<lparr>block_id = 1, block_data = source\<rparr>)) \<noteq> None))"
proof (intro conjI)
  show "test_encode R source another" by (rule test_encode_holds [OF assms(1,5-7)])
  have "sources \<noteq> []" using assms(8) by auto
  from decoder_test_holds [OF assms(1-5) this assms(9-11)]
  show "r1 = Ok ()" "r2 = Ok ()" "decoder_test_assertions sources output_bytes" by simp_all
  obtain be where "block_encoder_new R TEST_BLOCK_SIZE TEST_MAX_PACKET_SIZE TEST_REPAIR_PACKETS = Ok be"
    by (rule test_encoder [OF assms(5)])
  then show "\<exists>be. block_encoder_new R TEST_BLOCK_SIZE TEST_MAX_PACKET_SIZE TEST_REPAIR_PACKETS = Ok be \<and>
       (test_encode_decode R source \<longleftrightarrow> run_block R (be_config be) TEST_BLOCK_SIZE
          (take 192 (block_packets R be \<lparr>block_id = 1, block_data = source\<rparr>)) \<noteq> None)"
    using test_encode_decode_iff [OF assms(1,2,5,6)] by blast
qed

theorem codec_tests_pass_witness:
  "let z = replicate TEST_BLOCK_SIZE 0 in \<exists>(r2 :: (rep_packet cli_error, unit) outcome) output_bytes.
    decoder_test_run rep_code ((=) (Inr [Bytes [7]])) (replicate 10 z) (Ok ()) r2 output_bytes \<and> r2 = Ok () \<and>
    decoder_test_assertions (replicate 10 z) output_bytes \<and> test_encode rep_code z z"
proof -
  let ?z = "replicate TEST_BLOCK_SIZE 0 :: bytes" and ?E = "(=) (Inr [Bytes [7]]) :: entropy"
  have sym: "rq_test_symbols rep_code" by (simp add: rq_test_symbols_def TEST_MAX_PACKET_SIZE_def rep_code_def)
  have args: "arg_block_size test_args = TEST_BLOCK_SIZE" "arg_max_packet_size test_args = TEST_MAX_PACKET_SIZE"
      "arg_workers test_args = 3" by (simp_all add: test_args_def)
  obtain be where be: "block_encoder_new rep_code TEST_BLOCK_SIZE TEST_MAX_PACKET_SIZE TEST_REPAIR_PACKETS = Ok be"
    by (rule test_encoder [OF sym])
  let ?out = "\<lparr>writes = [], wscript = []\<rparr> :: out_stream" and ?inp = "[Bytes (concat (replicate 10 ?z))]"
  have ok: "\<exists>i. get_random_u8 u = Ok i" if "?E u" for u using that by auto
  have "benign ?out" by (simp add: benign_def)
  then obtain out1 where o1: "encoder_session rep_code ?E test_args TEST_REPAIR_PACKETS ?inp ?out (Ok ()) out1"
    using encoder_session_runs [of rep_code test_args TEST_REPAIR_PACKETS be ?E, OF _ _ _ refl ok] be args by auto
  obtain r2 out2 where o2: "decoder_session rep_code test_args [Bytes (written out1)] ?out r2 out2"
    using decoder_session_exists [OF rep_code_packets rep_code_wire] by blast
  have run: "decoder_test_run rep_code ?E (replicate 10 ?z) (Ok ()) r2 (written out2)"
    unfolding decoder_test_run_def
    by (rule exI [of _ ?inp], rule exI [of _ ?out], rule exI [of _ out1], rule exI [of _ "[Bytes (written out1)]"],
      rule exI [of _ ?out], rule exI [of _ out2]) (use o1 o2 in \<open>simp add: benign_def written_def\<close>)
  have len: "length ?z = TEST_BLOCK_SIZE" "length (replicate 10 ?z) = 10" "\<forall>s \<in> set (replicate 10 ?z). length s = TEST_BLOCK_SIZE"
    by simp_all
  show ?thesis
    using codec_tests_pass [OF rep_code_packets rep_code_sound rep_code_complete rep_code_wire sym len(1) len(1) len(2,3) ok run] run
    by (auto simp: Let_def)
qed

end
