(* ===== verification/Stream_Test.thy ===== *)
theory Stream_Test
  imports Tests
begin

text \<open>
  The test \<open>test_encode_decode_stream\<close> of \<open>block_decoder.rs\<close> with its threads and its three bounded
  channels, as a step relation: the main thread fills the first channel before it starts the threads,
  and empties the last one after it has joined them. Its threads are those of theory \<open>Pipeline\<close>: the
  encoder thread in the place of the dispatcher, the decoder thread as the only worker, and the main
  thread as the forwarder, which collects what it receives.
\<close>

section \<open>The test\<close>

definition TEST_NUM_BLOCKS :: nat where
  "TEST_NUM_BLOCKS = 10"

text \<open>
  The sends of the main thread into the channel of blocks, which nobody reads yet: it waits forever
  (no value) when the channel is full.
\<close>

fun fill_input :: "block list \<Rightarrow> block list \<Rightarrow> block list option" where
  "fill_input q [] = Some q"
| "fill_input q (b # bs) = (if length q < QUEUE_CAP then fill_input (q @ [b]) bs else None)"

text \<open>
  The encoder thread up to its next \<open>send\<close>: \<open>encode_stream\<close> with the packets of the current block
  that are left to send, and the blocks left in its channel, whose sender is gone.
\<close>

fun stream_next ::
  "('oti, 'plan, 'enc, 'pkt, 'dec) raptorq \<Rightarrow> ('oti, 'plan) block_encoder \<Rightarrow> 'pkt list \<times> block list \<Rightarrow>
   ('pkt, 'pkt list \<times> block list, ('pkt block_encoder_error, unit) outcome) dispatch_step" where
  "stream_next R be (p # ps, bs) = Emit 0 p (ps, bs)"
| "stream_next R be ([], []) = Stop (Ok ())"
| "stream_next R be ([], b # bs) =
     (case encode R be b of
        Ok packets \<Rightarrow> stream_next R be (packets, bs)
      | Err e \<Rightarrow> Stop (Err e)
      | Panic \<Rightarrow> Stop Panic)"

type_synonym ('oti, 'pkt, 'dec) stream_state =
  "('pkt list \<times> block list, 'pkt, ('oti, 'dec) block_decoder, bytes, bytes list,
    ('pkt block_encoder_error, unit) outcome) pstate"

definition stream_machine ::
  "('oti, 'plan, 'enc, 'pkt, 'dec) raptorq \<Rightarrow> ('oti, 'plan) block_encoder \<Rightarrow>
   ('pkt list \<times> block list, 'pkt, ('oti, 'dec) block_decoder, bytes, bytes list,
    ('pkt block_encoder_error, unit) outcome) machine" where
  "stream_machine R be =
     \<lparr>m_next = stream_next R be, m_refused = (\<lambda>p. Err (from_packet_send_error p)),
      m_work = decode_work R, m_write = (\<lambda>decoded_blocks b. (True, decoded_blocks @ [b]))\<rparr>"

text \<open>From the beginning of the test to the start of the threads; an \<open>unwrap\<close> may panic.\<close>

definition stream_test_start ::
  "('oti, 'plan, 'enc, 'pkt, 'dec) raptorq \<Rightarrow> bytes list \<Rightarrow>
   (unit, ('oti, 'plan) block_encoder \<times> ('oti, 'pkt, 'dec) stream_state) outcome option" where
  "stream_test_start R source_blocks =
     map_option
       (\<lambda>inp. case (block_encoder_new R TEST_BLOCK_SIZE TEST_MAX_PACKET_SIZE TEST_REPAIR_PACKETS,
                    block_decoder_new R TEST_BLOCK_SIZE TEST_MAX_PACKET_SIZE) of
          (Ok encoder, Ok decoder) \<Rightarrow> Ok (encoder, pinit ([], inp) [decoder] [])
        | _ \<Rightarrow> Panic)
       (fill_input [] (map (\<lambda>i. \<lparr>block_id = of_nat i, block_data = source_blocks ! i\<rparr>) [0..<length source_blocks]))"

text \<open>Both \<open>join\<close>s have returned, and no \<open>unwrap\<close> has panicked.\<close>

definition stream_joined :: "('oti, 'pkt, 'dec) stream_state \<Rightarrow> bool" where
  "stream_joined s \<longleftrightarrow> dispatcher s = Inr (Ok ()) \<and> (\<forall>c \<in> set (cells s). snd c = Ended)"

text \<open>
  A step of one of the threads. The main thread receives only after both \<open>join\<close>s; until then it holds
  the receiver, so that no \<open>send\<close> of the decoder fails.
\<close>

inductive stream_test_step ::
  "('oti, 'plan, 'enc, 'pkt, 'dec) raptorq \<Rightarrow> ('oti, 'plan) block_encoder \<Rightarrow> ('pkt, bytes) label \<Rightarrow>
   ('oti, 'pkt, 'dec) stream_state \<Rightarrow> ('oti, 'pkt, 'dec) stream_state \<Rightarrow> bool" for R be where
  sts_thread:
    "\<lbrakk>pstep (stream_machine R be) l s t; \<forall>b. l \<noteq> Written b; forwarding t = forwarding s\<rbrakk> \<Longrightarrow>
     stream_test_step R be l s t"
| sts_main: "\<lbrakk>pstep (stream_machine R be) l s t; stream_joined s\<rbrakk> \<Longrightarrow> stream_test_step R be l s t"

inductive stream_test_steps ::
  "('oti, 'plan, 'enc, 'pkt, 'dec) raptorq \<Rightarrow> ('oti, 'plan) block_encoder \<Rightarrow> ('pkt, bytes) label list \<Rightarrow>
   ('oti, 'pkt, 'dec) stream_state \<Rightarrow> ('oti, 'pkt, 'dec) stream_state \<Rightarrow> bool" for R be where
  sts_refl: "stream_test_steps R be [] s s"
| sts_step: "\<lbrakk>stream_test_steps R be ls s t; stream_test_step R be l t u\<rbrakk> \<Longrightarrow> stream_test_steps R be (ls @ [l]) s u"

text \<open>The assertions, on what the main thread has collected.\<close>

definition stream_test_assertions :: "bytes list \<Rightarrow> bytes list \<Rightarrow> bool" where
  "stream_test_assertions source_blocks decoded_blocks \<longleftrightarrow>
     length decoded_blocks = TEST_NUM_BLOCKS \<and>
     (case decoded_blocks of [] \<Rightarrow> False | b # _ \<Rightarrow> length b = TEST_BLOCK_SIZE) \<and>
     decoded_blocks = source_blocks"

section \<open>The two threads as a pipeline\<close>

lemma fill_input_eq: "fill_input q bs = (if length q + length bs \<le> QUEUE_CAP \<or> bs = [] then Some (q @ bs) else None)"
  by (induction bs arbitrary: q) auto

definition stream_items ::
  "('oti, 'plan, 'enc, 'pkt, 'dec) raptorq \<Rightarrow> ('oti, 'plan) block_encoder \<Rightarrow> 'pkt list \<times> block list \<Rightarrow> (nat \<times> 'pkt) list" where
  "stream_items R be d = map (Pair 0) (fst d @ concat (map (block_packets R be) (takeWhile (well_sized be) (snd d))))"

definition stream_result ::
  "('oti, 'plan) block_encoder \<Rightarrow> 'pkt list \<times> block list \<Rightarrow> ('pkt block_encoder_error, unit) outcome" where
  "stream_result be d = (if list_all (well_sized be) (snd d) then Ok () else Err UnexpectedBlockSize)"

lemma stream_machine_sel [simp]:
  "m_next (stream_machine R be) = stream_next R be" "m_work (stream_machine R be) = decode_work R"
  "m_write (stream_machine R be) = (\<lambda>f b. (True, f @ [b]))"
  by (simp_all add: stream_machine_def)

lemma emits_same:
  assumes "m_next M d = m_next M d'" "emits M d' xs r"
  shows "emits M d xs r"
  using assms(2)
proof (cases rule: emits.cases)
  case emits_Stop
  then show ?thesis using emits.emits_Stop [of M d r] assms(1) by simp
next
  case (emits_Emit j x d'' ys)
  then show ?thesis using emits.emits_Emit [of M d j x d'' ys r] assms(1) by simp
qed

lemma stream_emits_packets:
  assumes "emits (stream_machine R be) ([], bs) xs r"
  shows "emits (stream_machine R be) (ps, bs) (map (Pair 0) ps @ xs) r"
  using assms by (induction ps) (auto intro: emits_Emit)

lemma stream_emits: "emits (stream_machine R be) (ps, bs) (stream_items R be (ps, bs)) (stream_result be (ps, bs))"
proof (induction bs arbitrary: ps)
  case Nil
  have "emits (stream_machine R be) ([], []) [] (Ok ())" by (rule emits_Stop) simp
  from stream_emits_packets [OF this, of ps] show ?case by (simp add: stream_items_def stream_result_def)
next
  case (Cons b bs)
  have "emits (stream_machine R be) ([], b # bs) (stream_items R be ([], b # bs)) (stream_result be ([], b # bs))"
  proof (cases "well_sized be b")
    case True
    then have "m_next (stream_machine R be) ([], b # bs) = m_next (stream_machine R be) (block_packets R be b, bs)"
      by (simp add: encode_eq)
    from emits_same [OF this Cons [of "block_packets R be b"]] True show ?thesis
      by (simp add: stream_items_def stream_result_def)
  next
    case False
    then show ?thesis by (auto simp: stream_items_def stream_result_def encode_eq intro: emits_Stop)
  qed
  from stream_emits_packets [OF this, of ps] show ?case by (simp add: stream_items_def stream_result_def)
qed

interpretation stream_pipe: worker_pipeline "stream_machine R be" 1 "\<lambda>_. True" "stream_items R be" "stream_result be"
  by unfold_locales (use stream_emits in \<open>auto simp: stream_items_def\<close>)

interpretation stream_ok:
  healthy_pipeline "stream_machine R be" 1 "\<lambda>_. True" "stream_items R be" "stream_result be" "\<lambda>d. True" "\<lambda>p. True" "\<lambda>f. True"
  by unfold_locales (auto simp: decode_work_def split_beta)

lemma stream_outs: "outs (stream_machine R be) d ps = fst (decode_seq R d ps)"
  by (induction ps arbitrary: d) (auto simp: decode_work_def split: prod.splits option.splits)

lemma stream_write_seq: "write_seq (stream_machine R be) f ys = f @ ys"
  by (induction ys arbitrary: f) (simp_all add: write_seq_def)

section \<open>Every schedule\<close>

text \<open>Nothing fails: all blocks still to come have the right size, and no thread has ended too early.\<close>

definition stream_safe :: "('oti, 'plan) block_encoder \<Rightarrow> ('oti, 'pkt, 'dec) stream_state \<Rightarrow> bool" where
  "stream_safe be s \<longleftrightarrow>
     (case dispatcher s of Inl d \<Rightarrow> list_all (well_sized be) (snd d) | Inr r \<Rightarrow> r = Ok ()) \<and>
     healthy (\<lambda>_. True) (\<lambda>_. True) UNIV s \<and> length (cells s) = 1"

lemma stream_next_safe:
  "list_all (well_sized be) (snd d) \<Longrightarrow>
   (case stream_next R be d of Emit j x d' \<Rightarrow> j = 0 \<and> list_all (well_sized be) (snd d') | Stop r \<Rightarrow> r = Ok ())"
  by (induction R be d rule: stream_next.induct) (simp_all add: encode_eq)

lemma stream_safe_step:
  assumes "pstep (stream_machine R be) l s t" "stream_safe be s"
  shows "stream_safe be t"
proof -
  obtain xs where "backlog (stream_machine R be) s xs"
    using stream_emits [of R be] by (cases "dispatcher s") (auto simp: backlog_def)
  then have "healthy (\<lambda>_. True) (\<lambda>_. True) UNIV t"
    using assms(2) by (intro pstep_healthy [OF assms(1)]) (auto simp: stream_safe_def decode_work_def split_beta)
  moreover have "case dispatcher t of Inl d \<Rightarrow> list_all (well_sized be) (snd d) | Inr r \<Rightarrow> r = Ok ()"
    using assms(1)
  proof (cases rule: pstep.cases)
    case (dispatch_send d j x d' q ph)
    then show ?thesis using stream_next_safe [of be d R] assms(2) by (simp add: stream_safe_def)
  next
    case (dispatch_refused d j x d' q)
    have "\<exists>r. dispatcher s = Inr r"
      using healthy_nth [where I = "\<lambda>_. True" and P = "\<lambda>_. True" and X = UNIV, OF _ dispatch_refused(5,6)] assms(2)
      by (simp add: stream_safe_def sound_cell_def)
    then show ?thesis using dispatch_refused(3) by simp
  next
    case (dispatch_stop d r)
    then show ?thesis using stream_next_safe [of be d R] assms(2) by (simp add: stream_safe_def)
  qed (use assms(2) in \<open>simp_all add: stream_safe_def\<close>)
  ultimately show ?thesis using assms by (simp add: stream_safe_def)
qed

lemma stream_joined_step:
  assumes "pstep (stream_machine R be) l s t" "stream_joined s"
  shows "stream_joined t"
proof -
  have e: "snd (cells s ! j) = Ended" if "j < length (cells s)" for j
    using assms(2) that by (simp add: stream_joined_def)
  show ?thesis
    using assms(1) by (cases rule: pstep.cases) (use e assms(2) in \<open>fastforce simp: stream_joined_def\<close>)+
qed

lemma stream_test_run:
  assumes "stream_test_steps R be ls s0 s" "stream_safe be s0" "forwarding s0"
  shows "psteps (stream_machine R be) ls s0 s \<and> stream_safe be s \<and>
    (stream_joined s \<or> forwarding s \<and> concat (map written_msg ls) = [])"
  using assms
proof (induction rule: stream_test_steps.induct)
  case (sts_refl s)
  then show ?case by (simp add: psteps_refl)
next
  case (sts_step ls s t l u)
  have st: "pstep (stream_machine R be) l t u" using sts_step(2) by (auto elim: stream_test_step.cases)
  have "stream_joined u \<or> forwarding u \<and> concat (map written_msg (ls @ [l])) = []"
    using sts_step.hyps(2)
  proof (cases rule: stream_test_step.cases)
    case sts_thread
    then have "written_msg l = []" by (cases l) auto
    then show ?thesis using sts_step.IH [OF sts_step.prems] sts_thread stream_joined_step [OF st] by auto
  qed (use stream_joined_step [OF st] in simp)
  then show ?case
    using sts_step.IH [OF sts_step.prems] psteps_snoc [OF _ st] stream_safe_step [OF st] by blast
qed

text \<open>
  As long as nothing is received, the last channel holds all that the decoder has sent: it has room
  for as many blocks as the decoder gives back.
\<close>

lemma stream_room:
  assumes "psteps (stream_machine R be) ls (pinit d [dec] f) s" "concat (map written_msg ls) = []"
    and "cells s ! 0 = (q, Sending (y # ys) k)"
    and "length (fst (decode_seq R dec (routed (stream_items R be d) 0))) \<le> QUEUE_CAP"
  shows "length (shared s) < QUEUE_CAP"
proof -
  note start = stream_pipe.start_facts [OF TrueI, where ws = "[dec]" and f = f]
  have "shared s = concat (map pushed ls)" using psteps_fifo [OF assms(1)] assms(2) by (simp add: pinit_def)
  then have sh: "shared s = pushes 0 ls" using pushes_merge [OF assms(1)] merge_of_one by (metis One_nat_def cells_pinit length_Cons list.size(3))
  obtain zs where "prefix (pushes 0 ls @ future (stream_machine R be) zs s 0)
      (future (stream_machine R be) (stream_items R be d) (pinit d [dec] f) 0)"
    using psteps_future [OF assms(1) start(1)] by auto
  then have "prefix (pushes 0 ls @ future (stream_machine R be) zs s 0) (fst (decode_seq R dec (routed (stream_items R be d) 0)))"
    using start(3) [where j = 0 and d = d and R = R and be = be] by (simp add: stream_outs)
  then have "length (pushes 0 ls @ future (stream_machine R be) zs s 0) \<le> QUEUE_CAP"
    using assms(4) prefix_length_le le_trans by blast
  moreover have "0 < length (future (stream_machine R be) zs s 0)" using assms(3) by (simp add: future_def)
  ultimately show ?thesis using sh by (simp del: length_greater_0_conv)
qed

text \<open>Progress: until all threads have ended one of them can go on.\<close>

lemma stream_worker_progress:
  assumes "length (cells s) = 1" "cells s ! 0 = (q, ph)" "ph \<noteq> Ended" "forwarding s"
    and "\<And>y ys k. ph = Sending (y # ys) k \<Longrightarrow> length (shared s) < QUEUE_CAP"
    and "q = [] \<Longrightarrow> \<exists>r. dispatcher s = Inr r"
  shows "\<exists>l t. stream_test_step R be l s t"
proof (cases ph)
  case (Idle w)
  show ?thesis
  proof (cases q)
    case Nil
    then obtain r where "dispatcher s = Inr r" using assms(6) by blast
    from worker_end [OF _ _ this, of 0 w "stream_machine R be"] show ?thesis
      using assms(1,2) Nil Idle by (auto intro!: sts_thread exI)
  next
    case (Cons x q')
    obtain ys k where "m_work (stream_machine R be) w x = (ys, k)" by fastforce
    from worker_take [OF _ _ this, of 0 s q'] show ?thesis
      using assms(1,2) Cons Idle by (auto intro!: sts_thread exI)
  qed
next
  case (Sending ys k)
  show ?thesis
  proof (cases ys)
    case Nil
    from worker_next [of 0 s q k "stream_machine R be"] show ?thesis
      using assms(1,2) Nil Sending by (auto intro!: sts_thread exI)
  next
    case (Cons y ys')
    from worker_push [of 0 s q y ys' k "stream_machine R be"] show ?thesis
      using assms(1,2,4,5) Cons Sending by (auto intro!: sts_thread exI)
  qed
qed (use assms(3) in simp)

lemma stream_progress:
  assumes "stream_safe be s" "\<not> stream_joined s" "forwarding s"
    and room: "\<And>q y ys k. cells s ! 0 = (q, Sending (y # ys) k) \<Longrightarrow> length (shared s) < QUEUE_CAP"
  shows "\<exists>l t. stream_test_step R be l s t"
proof -
  obtain q ph where c: "cells s ! 0 = (q, ph)" by fastforce
  have len: "length (cells s) = 1" using assms(1) by (simp add: stream_safe_def)
  then have all: "set (cells s) = {(q, ph)}" using c by (cases "cells s") auto
  have sound: "ph = Ended \<Longrightarrow> \<exists>r. dispatcher s = Inr r"
    using healthy_nth [of "\<lambda>_. True" "\<lambda>_. True" UNIV s 0, OF _ _ c] assms(1) len by (simp add: stream_safe_def sound_cell_def)
  note worker = stream_worker_progress [where R = R and be = be, OF len c _ assms(3)]
  show ?thesis
  proof (cases "dispatcher s")
    case (Inr r)
    then have "ph \<noteq> Ended" using assms(1,2) all by (auto simp: stream_safe_def stream_joined_def)
    then show ?thesis using worker room c Inr by blast
  next
    case (Inl d)
    then have ph: "ph \<noteq> Ended" using sound by auto
    show ?thesis
    proof (cases "stream_next R be d")
      case (Stop r)
      with dispatch_stop [OF Inl, of "stream_machine R be" r] show ?thesis by (auto intro!: sts_thread exI)
    next
      case (Emit j x d')
      then have j: "j = 0" using stream_next_safe [of be d R] Inl assms(1) by (simp add: stream_safe_def)
      show ?thesis
      proof (cases "length q < QUEUE_CAP")
        case True
        with dispatch_send [OF Inl, of "stream_machine R be" j x d' q ph] show ?thesis
          using Emit j c ph len by (auto intro!: sts_thread exI)
      next
        case False
        then have "q \<noteq> []" by (auto simp: QUEUE_CAP_def)
        then show ?thesis using worker [OF ph] room c by blast
      qed
    qed
  qed
qed

lemma stream_main_progress:
  assumes "stream_joined s" "forwarding s"
  shows "\<exists>l t. stream_test_step R be l s t"
proof -
  have "\<exists>l t. pstep (stream_machine R be) l s t"
  proof (cases "shared s")
    case Nil
    with forward_end [OF assms(2), of "stream_machine R be"] assms(1) show ?thesis
      by (auto simp: stream_joined_def)
  next
    case (Cons y ys)
    with forward_write [OF assms(2), of y ys "stream_machine R be"] show ?thesis by auto
  qed
  then show ?thesis using assms(1) by (blast intro: sts_main)
qed

text \<open>What the two threads make of ten blocks.\<close>

lemma keep_all: "\<forall>x \<in> set xs. P (g x) \<Longrightarrow> [f x. (x, y) \<leftarrow> map (\<lambda>x. (x, g x)) xs, P y] = map f xs"
  by (induction xs) auto

lemma stream_decoded:
  fixes R :: "('oti, 'plan, 'enc, 'pkt, 'dec) raptorq" and sources :: "bytes list"
  defines "inp \<equiv> map (\<lambda>i. \<lparr>block_id = of_nat i, block_data = sources ! i\<rparr>) [0..<length sources]"
  assumes "rq_packets R" "rq_sound R" "rq_complete R"
    and be: "block_encoder_new R TEST_BLOCK_SIZE TEST_MAX_PACKET_SIZE TEST_REPAIR_PACKETS = Ok be"
    and sym: "unat (symbol_size R (be_config be)) = 1496"
    and d: "block_decoder_new R TEST_BLOCK_SIZE TEST_MAX_PACKET_SIZE = Ok d"
    and sources: "length sources = 10" "\<forall>s \<in> set sources. length s = TEST_BLOCK_SIZE"
  shows "list_all (well_sized be) inp" "fst (decode_seq R d (routed (stream_items R be ([], inp)) 0)) = sources"
proof -
  let ?rc = "map (\<lambda>b. (b, block_packets R be b)) inp"
  have data: "map block_data inp = sources" by (simp add: inp_def comp_def map_nth)
  have sized: "\<forall>b \<in> set inp. well_sized be b"
    using sources(2) block_encoder_new_Ok(1) [OF be] by (auto simp: inp_def well_sized_def)
  then show "list_all (well_sized be) inp" by (simp add: list_all_iff)
  have enough: "\<forall>b \<in> set inp. run_block R (be_config be) TEST_BLOCK_SIZE (block_packets R be b) \<noteq> None"
    using all_packets_decode [OF assms(2,4) be _ test_sizes(3,4)] sized sym by (simp add: max_source_symbols_def)
  then have full: "\<forall>(b, run) \<in> set ?rc. \<exists>ps. encode R be b = Ok ps \<and> run \<noteq> [] \<and> set run \<subseteq> set ps"
    using sized by (auto simp: encode_eq run_block_def)
  have "distinct_adj (map of_nat [0..<10] :: u8 list)" by code_simp
  then have ids: "distinct_adj (map (block_id \<circ> fst) ?rc)" using sources(1) by (simp add: inp_def comp_def)
  have "decode_stream R d (concat (map (block_packets R be) inp)) \<lparr>sent = [], hangup = None\<rparr> =
      (Ok (), \<lparr>sent = sources, hangup = None\<rparr>)"
    using decode_stream_recovers [OF assms(2,3) test_sizes(4) be d full ids]
      keep_all [where P = "\<lambda>r. run_block R (be_config be) TEST_BLOCK_SIZE r \<noteq> None" and g = "block_packets R be"
        and xs = inp and f = block_data] enough
    by (simp add: comp_def data)
  then have "fst (decode_seq R d (concat (map (block_packets R be) inp))) = sources"
    by (simp add: decode_stream_seq deliver_def)
  moreover have "takeWhile (well_sized be) inp = inp" using sized by simp
  ultimately show "fst (decode_seq R d (routed (stream_items R be ([], inp)) 0)) = sources"
    by (simp add: stream_items_def routed_def comp_def filter_map del: takeWhile_eq_all_conv)
qed

text \<open>A run that is bounded and can go on until \<open>Q\<close> holds can be continued to such a state.\<close>

lemma stream_test_completes:
  assumes "\<And>ls s. stream_test_steps R be ls s0 s \<Longrightarrow> length ls \<le> N"
    and "\<And>ls s. stream_test_steps R be ls s0 s \<Longrightarrow> (\<exists>l t. stream_test_step R be l s t) \<or> Q s"
    and "stream_test_steps R be ls s0 s"
  shows "\<exists>ls' t. stream_test_steps R be ls' s0 t \<and> Q t"
  using assms(3)
proof (induction "N - length ls" arbitrary: ls s rule: less_induct)
  case less
  show ?case
  proof (cases "Q s")
    case False
    then obtain l t where "stream_test_step R be l s t" using assms(2) less.prems by blast
    then have run: "stream_test_steps R be (ls @ [l]) s0 t" using less.prems by (rule sts_step [rotated])
    have "N - length (ls @ [l]) < N - length ls" using assms(1) [OF run] by simp
    then show ?thesis using less.hyps run by blast
  qed (use less.prems in blast)
qed

section \<open>Properties\<close>

text \<open>
  C40. The test \<open>test_encode_decode_stream\<close> of \<open>block_decoder.rs\<close>, with its two threads and its three
  channels of ten messages: for all random blocks and under every schedule it ends, no thread waits
  forever, no \<open>unwrap\<close> panics and its assertions hold. It relies on its number of blocks: with more
  than ten, the main thread waits forever for room in the first channel, which nobody reads yet.
\<close>

theorem stream_test_passes:
  fixes R :: "('oti, 'plan, 'enc, 'pkt, 'dec) raptorq"
  assumes "rq_packets R" "rq_sound R" "rq_complete R" "rq_test_symbols R"
    and "length sources = TEST_NUM_BLOCKS" "\<forall>s \<in> set sources. length s = TEST_BLOCK_SIZE"
  shows "(\<exists>be s0. stream_test_start R sources = Some (Ok (be, s0)) \<and>
      (\<exists>N. \<forall>ls s. stream_test_steps R be ls s0 s \<longrightarrow> length ls \<le> N) \<and>
      (\<forall>ls s. stream_test_steps R be ls s0 s \<longrightarrow>
         (\<exists>l t. stream_test_step R be l s t) \<or>
         stream_joined s \<and> all_ended s \<and> stream_test_assertions sources (forwarder s))) \<and>
    (\<forall>more. TEST_NUM_BLOCKS < length more \<longrightarrow> stream_test_start R more = None)"
proof (intro conjI)
  have len: "length sources = 10" using assms(5) by (simp add: TEST_NUM_BLOCKS_def)
  let ?inp = "map (\<lambda>i. \<lparr>block_id = of_nat i, block_data = sources ! i\<rparr>) [0..<length sources] :: block list"
  obtain be where be: "block_encoder_new R TEST_BLOCK_SIZE TEST_MAX_PACKET_SIZE TEST_REPAIR_PACKETS = Ok be"
      "unat (symbol_size R (be_config be)) = 1496" by (rule test_encoder [OF assms(4)])
  obtain d where d: "block_decoder_new R TEST_BLOCK_SIZE TEST_MAX_PACKET_SIZE = Ok d" by (rule test_decoder [OF assms(4)])
  let ?s0 = "pinit ([], ?inp) [d] [] :: ('oti, 'pkt, 'dec) stream_state"
  note dec = stream_decoded [OF assms(1-3) be d len assms(6)]
  have start: "stream_test_start R sources = Some (Ok (be, ?s0))"
    using be(1) d len by (simp add: stream_test_start_def fill_input_eq QUEUE_CAP_def)
  have safe: "stream_safe be ?s0" "forwarding ?s0"
    using dec(1) stream_ok.start_healthy [of "[d]" "[]"] by (simp_all add: stream_safe_def pinit_def healthy_def sound_cell_def)
  have run: "psteps (stream_machine R be) ls ?s0 s" "stream_safe be s"
      "stream_joined s \<or> forwarding s \<and> concat (map written_msg ls) = []" if "stream_test_steps R be ls ?s0 s" for ls s
    using stream_test_run [OF that safe] by simp_all
  have "(\<exists>l t. stream_test_step R be l s t) \<or>
      stream_joined s \<and> all_ended s \<and> stream_test_assertions sources (forwarder s)" if s: "stream_test_steps R be ls ?s0 s" for ls s
  proof (cases "all_ended s")
    case True
    from stream_ok.complete_run [OF TrueI _ _ TrueI run(1) [OF s] True]
    obtain ys where ys: "merge_of 1 (\<lambda>j. outs (stream_machine R be) ([d] ! j) (routed (stream_items R be ([], ?inp)) j)) ys"
        "forwarder s = write_seq (stream_machine R be) [] ys" by auto
    then have "forwarder s = sources" using dec(2) by (simp add: merge_of_one stream_outs stream_write_seq)
    moreover have "stream_joined s"
      using True run(2) [OF s] by (auto simp: all_ended_def stream_joined_def stream_safe_def)
    moreover have "stream_test_assertions sources sources"
      using assms(5,6) by (cases sources) (auto simp: stream_test_assertions_def TEST_NUM_BLOCKS_def)
    ultimately show ?thesis using True by simp
  next
    case False
    show ?thesis
    proof (cases "stream_joined s")
      case True
      then have "forwarding s" using False by (auto simp: all_ended_def stream_joined_def)
      then show ?thesis using stream_main_progress True by blast
    next
      case n: False
      then have w: "forwarding s" "concat (map written_msg ls) = []" using run(3) [OF s] by simp_all
      have "length (fst (decode_seq R d (routed (stream_items R be ([], ?inp)) 0))) \<le> QUEUE_CAP"
        using dec(2) len by (simp add: QUEUE_CAP_def)
      then show ?thesis
        using stream_progress [OF run(2) [OF s] n w(1)] stream_room [OF run(1) [OF s] w(2)] by blast
    qed
  qed
  moreover have "\<exists>N. \<forall>ls s. stream_test_steps R be ls ?s0 s \<longrightarrow> length ls \<le> N"
    using stream_pipe.run_length [OF TrueI run(1)] by blast
  ultimately show "\<exists>be s0. stream_test_start R sources = Some (Ok (be, s0)) \<and>
      (\<exists>N. \<forall>ls s. stream_test_steps R be ls s0 s \<longrightarrow> length ls \<le> N) \<and>
      (\<forall>ls s. stream_test_steps R be ls s0 s \<longrightarrow>
         (\<exists>l t. stream_test_step R be l s t) \<or>
         stream_joined s \<and> all_ended s \<and> stream_test_assertions sources (forwarder s))"
    using start by blast
  show "\<forall>more. TEST_NUM_BLOCKS < length more \<longrightarrow> stream_test_start R more = None"
    by (auto simp: stream_test_start_def fill_input_eq TEST_NUM_BLOCKS_def QUEUE_CAP_def)
qed

theorem stream_test_passes_witness:
  "let z = replicate TEST_BLOCK_SIZE 0 in \<exists>be s0 ls s.
    stream_test_start rep_code (replicate 10 z) = Some (Ok (be, s0)) \<and>
    stream_test_steps rep_code be ls s0 s \<and> stream_joined s \<and> stream_test_assertions (replicate 10 z) (forwarder s)"
proof -
  let ?z = "replicate TEST_BLOCK_SIZE 0 :: bytes"
  have sym: "rq_test_symbols rep_code" by (simp add: rq_test_symbols_def TEST_MAX_PACKET_SIZE_def rep_code_def)
  have len: "length (replicate 10 ?z) = TEST_NUM_BLOCKS" "\<forall>s \<in> set (replicate 10 ?z). length s = TEST_BLOCK_SIZE"
    by (simp_all add: TEST_NUM_BLOCKS_def)
  obtain be s0 N where st: "stream_test_start rep_code (replicate 10 ?z) = Some (Ok (be, s0))"
      and bound: "\<And>ls s. stream_test_steps rep_code be ls s0 s \<Longrightarrow> length ls \<le> N"
      and goes: "\<And>ls s. stream_test_steps rep_code be ls s0 s \<Longrightarrow> (\<exists>l t. stream_test_step rep_code be l s t) \<or>
        stream_joined s \<and> all_ended s \<and> stream_test_assertions (replicate 10 ?z) (forwarder s)"
    using stream_test_passes [OF rep_code_packets rep_code_sound rep_code_complete sym len] by blast
  have "\<exists>ls s. stream_test_steps rep_code be ls s0 s \<and>
      stream_joined s \<and> all_ended s \<and> stream_test_assertions (replicate 10 ?z) (forwarder s)"
    by (rule stream_test_completes, erule bound, erule goes, rule sts_refl)
  then show ?thesis unfolding Let_def using st by blast
qed

end
