(* ===== verification/Spec2Isabelle.thy ===== *)
theory Spec2Isabelle
  imports Cli Delivery Stream_Test
begin

text \<open>
  A verification development for the Garuda codec, an encoder and decoder with forward error
  correction for unidirectional networks, and for the file transfer built on it.

  \<^bold>\<open>The program.\<close> \<open>garuda encoder\<close> reads a byte stream, cuts it into blocks of a fixed size, encodes each
  block into packets and writes the packets; \<open>garuda decoder\<close> reads packets, some of which may be
  missing, and writes the blocks. Either is a pipeline of threads: a dispatcher reads and
  distributes work over bounded queues, workers encode or decode, a forwarder writes. \<open>garuda send\<close>
  turns a file into blocks with a header and a chunk each, \<open>garuda receive\<close> writes such blocks into
  files. Streams are named by URIs: standard input and output, TCP, Unix sockets, raw sockets.

  \<^bold>\<open>The theories\<close>, in the order of their imports, and the files under \<open>src/\<close> they model:
    \<^item> \<open>Garuda_Prelude\<close>: machine types, results with panics, the arithmetic of \<open>usize\<close>.
    \<^item> \<open>Vector_Interleave\<close>: \<open>garuda-codec-core/src/vector.rs\<close>. The iterator of \<open>interleave\<close> with its
      captured state; it yields a shuffle of its vectors, evenly spread.
    \<^item> \<open>Byte_Io\<close>: \<open>io.rs\<close>, \<open>random.rs\<close>. Scripted readers and writers, the stop flag, both \<open>read_exact\<close>,
      \<open>write_all\<close>; the locale \<open>exact_reader\<close> is the contract on which the dispatchers and the receiver rest.
    \<^item> \<open>Utf8\<close>: \<open>garuda-file-transfer/src/string.rs\<close>, over a model of \<open>str\<close> as its UTF-8 bytes.
    \<^item> \<open>Big_Endian\<close> and \<open>Protocol\<close>: \<open>garuda-file-transfer/src/protocol.rs\<close>. The datagram header, its
      serialisation and parsing, with round trips and totality of the parser.
    \<^item> \<open>Raptorq\<close>: the interface of the crate \<open>raptorq\<close>, a record of its functions, and what the code
      relies on as named predicates; \<open>Repetition_Code\<close>: a concrete code on which they hold, for the
      examples. \<open>Channel\<close>: the sending end of a queue as a sequential function sees it.
    \<^item> \<open>Block_Encoder\<close>, \<open>Block_Decoder\<close>: \<open>block_encoder.rs\<close>, \<open>block_decoder.rs\<close>. The behaviour of encoding
      on every branch; the state machine of decoding and its refinement of the specification
      \<open>stream_blocks\<close>, one decoding attempt per run of packets with the same block id, with the
      invariant that ties its state to the packets it has seen.
    \<^item> \<open>Pipeline\<close>: what \<open>encoder.rs\<close> and \<open>decoder.rs\<close> share, the threads and their bounded queues as a
      labelled step relation. The locales \<open>worker_pipeline\<close> and \<open>healthy_pipeline\<close> give, for every
      schedule, bounded queues, no deadlock, termination, in every reachable state an output that is
      an interleaving of prefixes of what the workers make of their shares, and at the end the whole
      of it unless a write has failed; both theories below interpret them.
    \<^item> \<open>Encoder\<close>, \<open>Decoder\<close>: \<open>encoder.rs\<close>, \<open>decoder.rs\<close>. Dispatchers, forwarders, the life cycle of
      \<open>start\<close>, \<open>stop\<close> and \<open>wait\<close>, and the machines of their threads. The stop flag is shared by its
      address: \<open>start\<close> hands the address of the dispatcher's flag to the encoder, \<open>stop\<close> stores there,
      and \<open>encoder_observes\<close> is what the dispatcher reads when it loads its flag after failed reads.
    \<^item> \<open>Codec\<close>: encoder, lossy medium and decoder together. Any packets may be lost; the blocks of
      which enough is left come out, as long as the losses are \<open>separated\<close>: a decoder knows a block by
      its 8-bit id, so something must be left between two blocks of a worker with the same id. What
      happens where this fails is shown too: more than 128 workers, and a second session of an encoder
      that starts with the last id of the first.
    \<^item> \<open>Raw_Socket\<close>, \<open>Io_Stream\<close>: \<open>socket.rs\<close>, \<open>io_stream.rs\<close>. Descriptors and their owners, URIs,
      streams, listeners. The C library and the operating system are the records \<open>libc\<close> and \<open>os\<close>.
    \<^item> \<open>File_Transfer\<close>: \<open>garuda-file-transfer/src/transfer.rs\<close>. Sending, receiving and the contents of
      the files; the file system is the record \<open>host\<close>, what is written is the record \<open>disk\<close>.
    \<^item> \<open>Delivery\<close>: a file on its way through encoder, medium, decoder and receiver.
    \<^item> \<open>Sessions\<close> and \<open>Cli\<close>: \<open>garuda-codec/src/main.rs\<close>. Sessions of an encoder or a decoder as relations
      over all schedules, the loop over incoming streams, the commands. The locale \<open>serving\<close> is what
      the loop needs of a session; both kinds interpret it, so that the commands on the standard input
      and as servers on TCP need no proof of their own.
    \<^item> \<open>Tests\<close>: the modules \<open>tests\<close> of \<open>vector.rs\<close>, \<open>string.rs\<close>, \<open>protocol.rs\<close>, \<open>block_encoder.rs\<close>,
      \<open>block_decoder.rs\<close> and \<open>decoder.rs\<close> as functions of what they choose at random. They pass; for
      the codec this rests on \<open>rq_test_symbols\<close>, the symbol size that the tests count with.
      \<open>Stream_Test\<close>: the one test of \<open>block_decoder.rs\<close> that runs threads of its own, as a step relation
      with its bounded channels; a third interpretation of the locales of \<open>Pipeline\<close>.
    \<^item> This theory: a file from one machine to the other, through all the parts.

  \<^bold>\<open>Conventions.\<close> Definitions keep the names of the sources; a suffix or prefix avoids a name of HOL
  (\<open>send_file\<close> is the function \<open>send\<close> of \<open>transfer.rs\<close>, \<open>decoder_init\<close> is \<open>Decoder::new\<close>). A \<open>Result\<close> is
  an \<open>outcome\<close>, with \<open>Panic\<close> for an unwinding thread. A \<open>usize\<close> is a natural number with wrapping
  operations at \<open>2 ^ 64\<close>; fixed-width integers are words. The model is that of a release build for a
  64-bit little-endian Linux target. Destructors are explicit calls where they have an effect.

  \<^bold>\<open>Loops and bounds.\<close> Loops over a script of reads or writes are total functions with a measure on
  the script and the buffer. Loops that may run forever are partial functions with values in an
  option, \<open>None\<close> when they do not return: the dispatchers (which never end for a block size of zero),
  the loops of \<open>send\<close> and \<open>receive\<close>, reading and writing on raw sockets. The claims that they
  return are proved as such. No fuel is used. A script is finite, since every finite execution
  meets finitely many events; where it is exhausted a reader is at its end and a writer takes
  everything.

  \<^bold>\<open>Assumptions.\<close> They are hypotheses of the theorems that use them: \<open>rq_packets\<close>, \<open>rq_wire\<close>, \<open>rq_sound\<close>
  and \<open>rq_complete\<close> on \<open>raptorq\<close> (shown of the repetition code), \<open>uuid_ok\<close> on \<open>uuid\<close>, \<open>libc_fds\<close> on
  descriptors. The functions of \<open>raptorq\<close> are total: in the model neither the decoding of a packet nor
  the parsing of its bytes can panic, so what a worker does when the crate panics on a malformed
  packet is outside all theorems. What \<open>/dev/urandom\<close> may give to a session is the parameter \<open>E\<close> of
  the commands, chosen by the environment; \<open>no_entropy E\<close> is the failure of a session for which some
  behaviour in \<open>E\<close> is to blame, and cannot happen when all of them yield a byte. That enough packets of a block are left for its decoding is a hypothesis on the very
  packets that arrive. Lost packets are modelled by subsequences: the medium keeps the order, which
  the program requires.

  \<^bold>\<open>Not modelled.\<close> The inside of \<open>raptorq\<close> and its panics, on configurations it does not support and on
  packets that no encoder has made; the parsing of the command line by \<open>clap\<close>; messages on the standard error; the buffering of the standard
  output, which is flushed at the end of the program; failures of memory allocation other than the
  capacity check; a file system that changes while a command runs, beyond the contents that the
  receiver writes; the memory ordering of the stop flag, whose stores take effect in the order of the
  happenings at the reader; how many bytes a pipe of the operating system holds at a time. The
  integration test, which adds a virtual link and a delay to the test of \<open>decoder.rs\<close>, the scripts and
  the crate roots hold no logic of their own.
\<close>

section \<open>An example\<close>

text \<open>The example: a file of two bytes is sent to the standard output in one datagram.\<close>

lemma example_name:
  "valid_utf8 (ascii ''f'')" "path_file_name (ascii ''f'') = Some (ascii ''f'')" "wire_name (ascii ''f'') = ascii ''f''"
  by code_simp+

lemma example_file:
  "metadata_len (one_file_host [1, 2]) (ascii ''f'') = Inr 2"
  "file_open (one_file_host [1, 2]) (ascii ''f'') = Inr [Bytes [1, 2]]"
  by (simp_all add: one_file_host_def)

lemma example_reads: "file_reads 2 [Bytes [1, 2]] = ([[1, 2]], None)"
  by code_simp

lemma example_sizes:
  "(294 :: nat) = DATAGRAM_HEADER_LEN + 2" "(0 :: nat) < 2" "(2 :: nat) < 2 ^ 32" "length (concat [[1, 2 :: byte]]) < 2 ^ 63"
  by (simp_all add: header_len)

lemma example_stdout:
  "output_from_uri table_os (ascii ''-'') idle_world = (Ok Stdout, idle_world)" "stream_no Stdout = Some 0"
  "benign (out_streams idle_world 0)" "written (out_streams idle_world 0) = []"
  by (simp_all add: output_from_uri_def STDOUT_def idle_world_def benign_def written_def)

lemma example_send:
  obtains t where "send_file table_os uuid128 (one_file_host [1, 2]) 7 (ascii ''f'') (ascii ''-'') 294 idle_world =
    Some (Ok (), set_stream 0 t idle_world)"
  using send_ok [OF uuid128_ok example_name(1,2) example_file example_sizes(1,3) example_stdout(1-3) example_reads, of 7] that by auto

lemma example_encoder:
  obtains be where "block_encoder_new rep_code 294 298 1 = Ok be" "be_config be = 294"
    "infer_packet_size rep_code 294 298 = Ok 298"
proof -
  obtain be where be: "block_encoder_new rep_code 294 298 1 = Ok be" "be_config be = 294"
    by (simp add: block_encoder_new_def get_configuration_def rep_code_def usize_div_def)
  then show ?thesis
    using that infer_packet_size_eq [OF rep_code_packets rep_code_wire be(1)] by (simp add: rep_code_def)
qed

section \<open>Properties\<close>

text \<open>
  C1. A file goes from one machine to another. A file is sent to an encoder with \<open>k\<close> workers; the
  encoder runs to its end under any schedule; of the packets it has written any may get lost, as
  long as the rest keeps its order and the losses keep blocks with the same 8-bit id apart (some
  packet of every block is enough for that); a decoder whose number of workers is a multiple of
  \<open>k\<close> runs to its end under any schedule; its output goes to a receiver. Then the receiver returns,
  and the file under the name that the header carries has the bytes of the sent file wherever
  enough packets of the chunk have arrived, and its old bytes elsewhere; when every chunk has
  arrived, it is the sent file, followed by what an older and longer file of that name had behind
  it. However the file is read, the streams are split and the threads are scheduled, nothing else
  changes.
\<close>

theorem file_transfer:
  fixes R :: "('oti, 'plan, 'enc, 'pkt, 'dec) raptorq" and os' :: "'fd os" and H' :: "'f host"
  assumes "rq_packets R" "rq_sound R" "rq_wire R" "uuid_ok U"
    and "valid_utf8 path" "path_file_name path = Some name"
    and "metadata_len H path = Inr flen" "file_open H path = Inr inp" "file_reads n inp = (cs, None)"
    and "bs = DATAGRAM_HEADER_LEN + n" "0 < n" "n < 2 ^ 32" "length (concat cs) < 2 ^ 63"
    and "output_from_uri os uri w = (Ok out, w1)" "stream_no out = Some i"
    and "benign (out_streams w1 i)" "written (out_streams w1 i) = []"
    and "send_file os U H fid path uri bs w = Some (r, w2)"
    and "start_encoding R urandom tid einp eout (encoder_new bs mps rep k) = (Ok s0, e)" "0 < k"
    and "flow codec_retry einp = written (out_streams w2 i)" "benign eout" "written eout = []"
    and "psteps (encoder_machine R k) ls s0 s" "all_ended s"
  shows "r = Ok () \<and> (\<exists>be b blocks zs. block_encoder_new R bs mps rep = Ok be \<and>
    blocks = cut_blocks bs b (flow codec_retry einp) \<and> length blocks = length cs \<and>
    written (forwarder s) = wire R zs \<and> labelled R be k blocks zs \<and>
    arrives R U os' H' bs mps (be_config be) k blocks zs (wire_name name) cs \<and>
    (\<forall>(ys :: (nat \<times> 'pkt) list) k'.
       0 < k' \<longrightarrow> k' \<le> 128 \<longrightarrow> (\<forall>j < length blocks. routed ys j \<noteq> []) \<longrightarrow> separated k' blocks ys))"
proof -
  have bs: "0 < bs" "bs < 2 ^ 63" "bs < 2 ^ 64" using assms(10-12) by (simp_all add: header_len)
  obtain gs t where g: "send_file os U H fid path uri bs w = Some (Ok (), set_stream i t w1)"
      "written t = concat gs" "list_all2 (carries U bs (wire_name name)) (placed 0 cs) gs"
    using send_ok [OF assms(4-8,10,12,14-16,9), of fid] assms(17) by auto
  then have r: "r = Ok ()" "w2 = set_stream i t w1" using assms(18) by auto
  then have fl: "flow codec_retry einp = concat gs" using assms(21) g(2) by simp
  have len: "\<forall>g \<in> set gs. length g = bs"
    using g(3) by (auto simp: list_all2_conv_all_nth carries_def in_set_conv_nth)
  have small: "\<forall>c \<in> set cs. length c < 2 ^ 32"
    using file_reads_chunks [OF assms(11), of inp] assms(9,12) by auto
  obtain be b zs where z: "block_encoder_new R bs mps rep = Ok be"
      "labelled R be k (cut_blocks bs b (flow codec_retry einp)) zs" "written (forwarder s) = wire R zs"
    by (rule encoder_labelled [OF assms(19) bs(1) assms(20,22-25)])
  have "delivers R bs mps (be_config be) k (cut_blocks bs b (concat gs)) zs"
    by (rule encoder_delivers [OF assms(1-3) z(1) bs(3) _ assms(20)]) (use z(2) fl in simp)
  note arr = delivers_arrives [OF this g(3) len assms(13) small bs(1,2), folded fl]
  have "length (cut_blocks bs b (flow codec_retry einp)) = length cs"
    using arg_cong [OF cut_blocks_pieces [OF bs(1) len, of b], of length] list_all2_lengthD [OF g(3)] fl by simp
  then show ?thesis
    using separated_small [OF bs(1), where i = b and c = "flow codec_retry einp"]
    by (intro conjI r(1) exI [of _ be] exI [of _ b] exI [of _ zs] exI [of _ "cut_blocks bs b (flow codec_retry einp)"]
      z arr refl allI impI)
qed

theorem file_transfer_witness:
  "\<exists>w2 s0 e ls s s0' e' ls' s' d'.
     send_file table_os uuid128 (one_file_host [1, 2]) 7 (ascii ''f'') (ascii ''-'') 294 idle_world = Some (Ok (), w2) \<and>
     start_encoding rep_code (Inr [Bytes [7]]) 0 [Bytes (written (out_streams w2 0))]
       \<lparr>writes = [], wscript = []\<rparr> (encoder_new 294 298 1 1) = (Ok s0, e) \<and>
     psteps (encoder_machine rep_code 1) ls s0 s \<and> all_ended s \<and>
     start_decoding rep_code 0 [Bytes (written (forwarder s))]
       \<lparr>writes = [], wscript = []\<rparr> (decoder_init 294 1 298) = (Ok s0', e') \<and>
     psteps (decoder_machine rep_code 1) ls' s0' s' \<and> all_ended s' \<and>
     receive table_os uuid128 (one_file_host []) (ascii ''d'') STDIN 294 \<lparr>disk_files = Map.empty, disk_script = []\<rparr>
       (w2\<lparr>std_input := [Bytes (written (forwarder s'))]\<rparr>) =
       Some (Ok (), d', w2\<lparr>std_input := [Bytes (written (forwarder s'))]\<rparr>) \<and>
     disk_files d' = Map.empty(ascii ''d/f'' \<mapsto> [1, 2])"
proof -
  let ?out = "\<lparr>writes = [], wscript = []\<rparr> :: out_stream" and ?disk = "\<lparr>disk_files = Map.empty, disk_script = []\<rparr> :: str disk"
  obtain t where se: "send_file table_os uuid128 (one_file_host [1, 2]) 7 (ascii ''f'') (ascii ''-'') 294 idle_world =
      Some (Ok (), set_stream 0 t idle_world)" by (rule example_send)
  let ?ws = "set_stream 0 t idle_world"
  let ?einp = "[Bytes (written (out_streams ?ws 0))]"
  obtain be where be: "block_encoder_new rep_code 294 298 1 = Ok be" "be_config be = 294"
      "infer_packet_size rep_code 294 298 = Ok 298" by (rule example_encoder)
  obtain s0 e ls s where e: "start_encoding rep_code (Inr [Bytes [7]]) 0 ?einp ?out (encoder_new 294 298 1 1) = (Ok s0, e)"
      and run: "psteps (encoder_machine rep_code 1) ls s0 s" "all_ended s"
    by (rule start_encoding_runs [OF be(1) random_byte, where n = 1]) simp
  have out: "benign ?out" "written ?out = []" by (simp_all add: benign_def written_def)
  have fl: "flow codec_retry ?einp = written (out_streams ?ws 0)" by simp
  obtain be' i blocks zs where z: "block_encoder_new rep_code 294 298 1 = Ok be'"
      "blocks = cut_blocks 294 i (flow codec_retry ?einp)" "length blocks = length [[1, 2 :: byte]]"
      "written (forwarder s) = wire rep_code zs" "labelled rep_code be' 1 blocks zs"
      and arr: "arrives rep_code uuid128 table_os (one_file_host []) 294 298 (be_config be') 1
        blocks zs (wire_name (ascii ''f'')) [[1, 2]]"
      and apart: "\<forall>(ys :: (nat \<times> rep_packet) list) k'. 0 < k' \<longrightarrow> k' \<le> 128 \<longrightarrow>
        (\<forall>j < length blocks. routed ys j \<noteq> []) \<longrightarrow> separated k' blocks ys"
    using file_transfer [OF rep_code_packets rep_code_sound rep_code_wire uuid128_ok example_name(1,2) example_file example_reads example_sizes
        example_stdout se e zero_less_one fl out run, of table_os "one_file_host []"]
    by (elim conjE exE) (rule that)
  have same: "be_config be' = 294" using z(1) be(1,2) by simp
  obtain d where d: "block_decoder_new rep_code 294 298 = Ok d"
    by (simp add: block_decoder_new_def get_configuration_def rep_code_def)
  have enough: "\<forall>j < length blocks. run_block rep_code 294 294 (routed zs j) \<noteq> None"
    using labelled_decodable [OF rep_code_packets rep_code_complete z(1) _ _ _ z(5) [unfolded z(2)]] same
    by (simp add: rep_code_def max_source_symbols_def z(2))
  then have sep: "separated 1 blocks zs"
    by (intro apart [rule_format]) (auto simp: run_block_def)
  let ?dinp = "[Bytes (written (forwarder s))]"
  have fl': "flow codec_retry ?dinp = wire rep_code zs" using z(4) by simp
  have cd: "create_dir_all (one_file_host []) (ascii ''d'') = Inr ()"
      "resolve (one_file_host []) (path_join (ascii ''d'') (ascii ''f'')) = Inr (ascii ''d/f'')" "disk_benign ?disk"
    by (simp_all add: one_file_host_def path_join_def ascii_def disk_benign_def)
  obtain s0' e' ls' s' d' where "start_decoding rep_code 0 ?dinp ?out (decoder_init 294 1 298) = (Ok s0', e')"
      "psteps (decoder_machine rep_code 1) ls' s0' s'" "all_ended s'"
      "receive table_os uuid128 (one_file_host []) (ascii ''d'') STDIN 294 ?disk (?ws\<lparr>std_input := [Bytes (written (forwarder s'))]\<rparr>) =
        Some (Ok (), d', ?ws\<lparr>std_input := [Bytes (written (forwarder s'))]\<rparr>)"
      "disk_files d' = Map.empty(ascii ''d/f'' \<mapsto> [1, 2])"
    by (rule arrives_runs [OF arr [unfolded same example_name(3)] sep _ enough [unfolded z(3)] d be(3) _ fl' out cd, of 0 ?ws])
      (auto simp: content_of_def)
  then show ?thesis using se e run by blast
qed

end
